(* ===== verification/Prelude.thy ===== *)
theory Prelude
  imports Main "HOL-Library.Word"
begin

text \<open>
  Shared vocabulary of the BBoot development. BBoot is compiled for 32-bit big-endian PowerPC
  (Makefile, \<open>-m32 -mbig-endian\<close>): \<open>long\<close>, \<open>int\<close> and pointers have 32 bits, and the loader
  runs in real mode, so every address can be read and written. This theory holds
  \<^item> the machine types and the byte memory, with big- and little-endian field access;
  \<^item> the result type of stateful code that may leave by an exception (\<open>bindE\<close>) and the
    postcondition predicate \<open>post\<close> used to reason about it;
  \<^item> checked array access, counted loops, and the generic lemmas the components share.
\<close>

unbundle bit_operations_syntax

subsection \<open>Machine types and memory\<close>

type_synonym u8 = "8 word"
type_synonym u16 = "16 word"
type_synonym u32 = "32 word"
type_synonym mem = "u32 \<Rightarrow> u8"

named_theorems mem_simps \<open>reading memory back after writes\<close>

definition bytes :: "mem \<Rightarrow> u32 \<Rightarrow> nat \<Rightarrow> u8 list" where
  "bytes m a n = map (\<lambda>i. m (a + of_nat i)) [0..<n]"

fun store_bytes :: "mem \<Rightarrow> u32 \<Rightarrow> u8 list \<Rightarrow> mem" where
  "store_bytes m a [] = m"
| "store_bytes m a (x # xs) = store_bytes (m(a := x)) (a + 1) xs"

definition region :: "u32 \<Rightarrow> nat \<Rightarrow> u32 set" where
  "region a n = (\<lambda>i. a + of_nat i) ` {..<n}"

definition get_be16 :: "mem \<Rightarrow> u32 \<Rightarrow> u16" where
  "get_be16 m a = push_bit 8 (ucast (m a)) OR ucast (m (a + 1))"

definition get_be32 :: "mem \<Rightarrow> u32 \<Rightarrow> u32" where
  "get_be32 m a = push_bit 24 (ucast (m a)) OR push_bit 16 (ucast (m (a + 1)))
     OR push_bit 8 (ucast (m (a + 2))) OR ucast (m (a + 3))"

definition get_le16 :: "mem \<Rightarrow> u32 \<Rightarrow> u16" where
  "get_le16 m a = push_bit 8 (ucast (m (a + 1))) OR ucast (m a)"

definition get_le32 :: "mem \<Rightarrow> u32 \<Rightarrow> u32" where
  "get_le32 m a = push_bit 24 (ucast (m (a + 3))) OR push_bit 16 (ucast (m (a + 2)))
     OR push_bit 8 (ucast (m (a + 1))) OR ucast (m a)"

definition put_be32 :: "mem \<Rightarrow> u32 \<Rightarrow> u32 \<Rightarrow> mem" where
  "put_be32 m a v = m(a := ucast (drop_bit 24 v), a + 1 := ucast (drop_bit 16 v),
     a + 2 := ucast (drop_bit 8 v), a + 3 := ucast v)"

text \<open>\<open>bboot.h\<close>: rounding to a power of two and the byte order of little-endian files.\<close>

definition ROUND_DOWN :: "u32 \<Rightarrow> u32 \<Rightarrow> u32" where
  "ROUND_DOWN n d = n AND - d"

definition ROUND_UP :: "u32 \<Rightarrow> u32 \<Rightarrow> u32" where
  "ROUND_UP n d = ROUND_DOWN (n + d - 1) d"

definition LE16 :: "u16 \<Rightarrow> u16" where
  "LE16 x = push_bit 8 x OR drop_bit 8 x"

definition LE32 :: "u32 \<Rightarrow> u32" where
  "LE32 x = push_bit 24 x OR push_bit 16 (take_bit 8 (drop_bit 8 x)) OR push_bit 8 (take_bit 8 (drop_bit 16 x))
     OR drop_bit 24 x"

definition put_be16 :: "mem \<Rightarrow> u32 \<Rightarrow> u16 \<Rightarrow> mem" where
  "put_be16 m a v = m(a := ucast (drop_bit 8 v), a + 1 := ucast v)"

lemma unat32_less: "unat (w :: u32) < 2 ^ 32"
proof -
  have "unat w < 2 ^ LENGTH(32)" by (rule unsigned_less)
  then show ?thesis by simp
qed

lemma unat8_less: "unat (w :: u8) < 2 ^ 8"
proof -
  have "unat w < 2 ^ LENGTH(8)" by (rule unsigned_less)
  then show ?thesis by simp
qed

lemma sint_of_nat_small: "n < 2 ^ 31 \<Longrightarrow> sint (of_nat n :: u32) = int n"
  by (simp add: signed_of_nat signed_take_bit_int_eq_self)

lemma unat_add_small: "unat (a :: u32) + unat b < 2 ^ 32 \<Longrightarrow> unat (a + b) = unat a + unat b"
  using unat_add_lem [of a b] by simp

lemma add_less_unat: "unat (a :: u32) + unat b < 2 ^ 32 \<Longrightarrow> a + b < c \<longleftrightarrow> unat a + unat b < unat c"
  by (simp add: word_less_nat_alt unat_add_small)

lemma nat_bit_less: "bit (n :: nat) i \<Longrightarrow> n < 2 ^ k \<Longrightarrow> i < k"
  by (metis bit_take_bit_iff take_bit_nat_eq_self)

lemma unat_of_nat32: "n < 2 ^ 32 \<Longrightarrow> unat (of_nat n :: u32) = n"
  by (simp add: unat_of_nat take_bit_nat_eq_self)

lemma eq_of_nat32: "n < 2 ^ 32 \<Longrightarrow> (w :: u32) = of_nat n \<longleftrightarrow> unat w = n"
  by (simp only: word_unat_eq_iff unat_of_nat32)

lemma addr_nz:
  assumes "(a :: u32) \<noteq> 0" "unat a + k < 2 ^ 32"
  shows "a + of_nat k \<noteq> 0"
proof -
  have "unat (a + of_nat k) = unat a + k"
    using assms(2) by (subst unat_add_small) (simp_all add: unat_of_nat32)
  moreover have "0 < unat a" using assms(1) by (simp add: unat_gt_0)
  ultimately show ?thesis by (metis add_gr_0 unat_0 less_numeral_extra(3))
qed

lemma ucast16_of_nat: "n < 2 ^ 16 \<Longrightarrow> (ucast (of_nat n :: u16) :: u32) = of_nat n"
  by (rule bit_word_eqI) (auto simp: bit_ucast_iff bit_of_nat_iff dest: nat_bit_less [where k = 16])

lemma length_bytes [simp]: "length (bytes m a n) = n"
  by (simp add: bytes_def)

lemma nth_bytes [simp]: "i < n \<Longrightarrow> bytes m a n ! i = m (a + of_nat i)"
  by (simp add: bytes_def)

lemma bytes_0 [simp]: "bytes m a 0 = []"
  by (simp add: bytes_def)

lemma bytes_Suc: "bytes m a (Suc n) = m a # bytes m (a + 1) n"
  by (rule nth_equalityI) (auto simp: nth_Cons ac_simps split: nat.split)

lemma bytes_add: "bytes m a (i + j) = bytes m a i @ bytes m (a + of_nat i) j"
  by (rule nth_equalityI) (auto simp: nth_append ac_simps)

lemma bytes_snoc: "bytes m a (Suc n) = bytes m a n @ [m (a + of_nat n)]"
  by (simp add: bytes_def)

lemma bytes_cong: "(\<And>x. x \<in> region a n \<Longrightarrow> m x = m' x) \<Longrightarrow> bytes m a n = bytes m' a n"
  by (auto simp: bytes_def region_def)

lemma region_0 [simp]: "region a 0 = {}"
  by (simp add: region_def)

lemma region_iff: "n \<le> 2 ^ 32 \<Longrightarrow> x \<in> region a n \<longleftrightarrow> unat (x - a) < n"
proof
  assume n: "n \<le> 2 ^ 32"
  show "x \<in> region a n \<Longrightarrow> unat (x - a) < n"
    using n by (auto simp: region_def unat_of_nat take_bit_nat_eq_self)
  show "unat (x - a) < n \<Longrightarrow> x \<in> region a n"
    unfolding region_def by (rule image_eqI [where x = "unat (x - a)"]) auto
qed

lemma region_mono: "n \<le> n' \<Longrightarrow> region a n \<subseteq> region a n'"
  by (auto simp: region_def)

lemma region_offset: "i < n \<Longrightarrow> a + of_nat i \<in> region a n"
  by (auto simp: region_def)

lemma region_word_offset: "unat i < n \<Longrightarrow> a + i \<in> region a n"
  using region_offset [of "unat i" n a] by simp

lemma region_shift: "region (a + of_nat i) n \<subseteq> region a (i + n)"
  by (auto simp: region_def add.assoc simp flip: of_nat_add)

lemma store_bytes_frame: "x \<notin> region a (length xs) \<Longrightarrow> store_bytes m a xs x = m x"
proof (induction xs arbitrary: m a)
  case (Cons y ys)
  have "x \<noteq> a" and "x \<notin> region (a + 1) (length ys)"
    using Cons.prems region_offset [of 0 "length (y # ys)" a] region_shift [of a 1 "length ys"]
    by auto
  with Cons.IH show ?case by simp
qed simp

lemma store_bytes_nth:
  "length xs \<le> 2 ^ 32 \<Longrightarrow> i < length xs \<Longrightarrow> store_bytes m a xs (a + of_nat i) = xs ! i"
proof (induction xs arbitrary: m a i)
  case (Cons y ys)
  show ?case
  proof (cases i)
    case 0
    have "a \<notin> region (a + 1) (length ys)"
      using Cons.prems by (subst region_iff) (auto simp: unsigned_minus_1_eq_mask mask_eq_exp_minus_1)
    with 0 show ?thesis by (simp add: store_bytes_frame)
  next
    case (Suc j)
    have "store_bytes (m(a := y)) (a + 1) ys (a + 1 + of_nat j) = ys ! j"
      using Suc Cons.prems by (intro Cons.IH) auto
    with Suc show ?thesis by (simp add: add.assoc)
  qed
qed simp

lemma bytes_store_bytes: "length xs \<le> 2 ^ 32 \<Longrightarrow> bytes (store_bytes m a xs) a (length xs) = xs"
  by (rule nth_equalityI) (auto simp: store_bytes_nth)

subsection \<open>Fields in memory\<close>

lemma LE16_get_be16: "LE16 (get_be16 m a) = get_le16 m a"
  unfolding LE16_def get_be16_def get_le16_def
  by (rule bit_word_eqI)
     (auto simp: bit_or_iff bit_push_bit_iff bit_drop_bit_eq bit_ucast_iff dest: bit_imp_le_length)

lemma get_be32_bit:
  "n < 32 \<Longrightarrow> bit (get_be32 m a) n =
     (if n < 8 then bit (m (a + 3)) n else if n < 16 then bit (m (a + 2)) (n - 8)
      else if n < 24 then bit (m (a + 1)) (n - 16) else bit (m a) (n - 24))"
  by (auto simp: get_be32_def bit_or_iff bit_push_bit_iff bit_ucast_iff dest: bit_imp_le_length)

lemma LE32_get_be32: "LE32 (get_be32 m a) = get_le32 m a"
proof (rule bit_word_eqI)
  fix n assume "n < LENGTH(32)"
  then consider "n < 8" | "8 \<le> n" "n < 16" | "16 \<le> n" "n < 24" | "24 \<le> n" "n < 32" by force
  then show "bit (LE32 (get_be32 m a)) n \<longleftrightarrow> bit (get_le32 m a) n"
    by cases (auto simp: LE32_def get_le32_def bit_or_iff bit_take_bit_iff bit_push_bit_iff bit_drop_bit_eq
        bit_ucast_iff get_be32_bit dest: bit_imp_le_length)
qed

lemma LE32_LE32: "LE32 (LE32 x) = x"
proof (rule bit_word_eqI)
  fix n assume "n < LENGTH(32)"
  then consider "n < 8" | "8 \<le> n" "n < 16" | "16 \<le> n" "n < 24" | "24 \<le> n" "n < 32" by force
  then show "bit (LE32 (LE32 x)) n \<longleftrightarrow> bit x n"
    by cases (auto simp: LE32_def bit_or_iff bit_take_bit_iff bit_push_bit_iff bit_drop_bit_eq dest: bit_imp_le_length)
qed

lemma LE32_inj: "LE32 x = LE32 y \<Longrightarrow> x = y"
  by (metis LE32_LE32)

lemma get_be32_cong:
  "m a = m' a' \<Longrightarrow> m (a + 1) = m' (a' + 1) \<Longrightarrow> m (a + 2) = m' (a' + 2) \<Longrightarrow> m (a + 3) = m' (a' + 3) \<Longrightarrow>
   get_be32 m a = get_be32 m' a'"
  by (simp add: get_be32_def)

lemma get_put_be32 [simp, mem_simps]: "get_be32 (put_be32 m a v) a = v"
  by (rule bit_word_eqI) (auto simp: get_be32_bit put_be32_def bit_drop_bit_eq bit_ucast_iff)

text \<open>Two four-byte fields that do not overlap.\<close>

definition apart :: "u32 \<Rightarrow> nat \<Rightarrow> u32 \<Rightarrow> nat \<Rightarrow> bool" where
  "apart a n b k \<longleftrightarrow> region a n \<inter> region b k = {}"

lemma region4: "region a 4 = {a, a + 1, a + 2, a + 3}"
  by (auto simp: region_def eval_nat_numeral lessThan_Suc)

lemma put_be32_frame: "x \<notin> region a 4 \<Longrightarrow> put_be32 m a v x = m x"
  by (simp add: put_be32_def region4)

lemma get_be32_frame:
  assumes "\<And>x. x \<in> region a 4 \<Longrightarrow> m x = m' x"
  shows "get_be32 m a = get_be32 m' a"
  using assms by (simp add: get_be32_def region4)

lemma get_put_be32_apart [mem_simps]: "apart b 4 a 4 \<Longrightarrow> get_be32 (put_be32 m a v) b = get_be32 m b"
  by (rule get_be32_frame, rule put_be32_frame) (auto simp: apart_def)

lemma region2: "region a 2 = {a, a + 1}"
  by (auto simp: region_def eval_nat_numeral lessThan_Suc)

lemma put_be16_frame: "x \<notin> region a 2 \<Longrightarrow> put_be16 m a v x = m x"
  by (simp add: put_be16_def region2)

lemma get_be16_frame: "(\<And>x. x \<in> region a 2 \<Longrightarrow> m x = m' x) \<Longrightarrow> get_be16 m a = get_be16 m' a"
  by (simp add: get_be16_def region2)

lemma get_put_be16 [simp, mem_simps]: "get_be16 (put_be16 m a v) a = v"
  by (rule bit_word_eqI)
     (auto simp: get_be16_def put_be16_def bit_or_iff bit_push_bit_iff bit_drop_bit_eq bit_ucast_iff)

lemma get_be16_put_apart [mem_simps]:
  "apart b 2 a 2 \<Longrightarrow> get_be16 (put_be16 m a v) b = get_be16 m b"
  "apart b 2 a 4 \<Longrightarrow> get_be16 (put_be32 m a x) b = get_be16 m b"
  by (rule get_be16_frame, rule put_be16_frame put_be32_frame, auto simp: apart_def)+

lemma get_be32_put_be16_apart [mem_simps]: "apart b 4 a 2 \<Longrightarrow> get_be32 (put_be16 m a v) b = get_be32 m b"
  by (rule get_be32_frame, rule put_be16_frame) (auto simp: apart_def)

text \<open>Fields of one structure, at different offsets.\<close>

lemma apart_offsets:
  assumes "i + n \<le> j" "j + k \<le> 2 ^ 32"
  shows "apart (a + of_nat i) n (a + of_nat j) k" "apart (a + of_nat j) k (a + of_nat i) n"
proof -
  have "a + of_nat i + of_nat x \<noteq> a + of_nat j + (of_nat y :: u32)" if "x < n" "y < k" for x y
  proof
    assume "a + of_nat i + of_nat x = a + of_nat j + (of_nat y :: u32)"
    then have "(of_nat (i + x) :: u32) = of_nat (j + y)" by (simp add: add.assoc)
    then have "unat (of_nat (i + x) :: u32) = unat (of_nat (j + y) :: u32)" by simp
    then have "i + x = j + y" using that assms by (simp add: unat_of_nat32 del: of_nat_add)
    with that assms show False by simp
  qed
  then show "apart (a + of_nat i) n (a + of_nat j) k" "apart (a + of_nat j) k (a + of_nat i) n"
    by (auto simp: apart_def region_def) (metis lessThan_iff)+
qed

lemma apart_numerals [mem_simps]:
  "numeral i + n \<le> (numeral j :: nat) \<Longrightarrow> numeral j + k \<le> (2 :: nat) ^ 32 \<Longrightarrow> apart (a + numeral i) n (a + numeral j) k"
  "numeral i + n \<le> (numeral j :: nat) \<Longrightarrow> numeral j + k \<le> (2 :: nat) ^ 32 \<Longrightarrow> apart (a + numeral j) k (a + numeral i) n"
  using apart_offsets [of "numeral i" n "numeral j" k a] by simp_all

lemma region_unat:
  assumes "x \<in> region a n" "unat a + n \<le> 2 ^ 32"
  shows "unat a \<le> unat x" "unat x < unat a + n"
proof -
  obtain i where i: "i < n" "x = a + of_nat i" using assms(1) by (auto simp: region_def)
  have "unat x = unat a + i"
    unfolding i(2) using i(1) assms(2) by (subst unat_add_small) (simp_all add: unat_of_nat32)
  then show "unat a \<le> unat x" "unat x < unat a + n" using i(1) by simp_all
qed

lemma apart_unat:
  assumes "unat a + n \<le> unat b" "unat b + k \<le> 2 ^ 32"
  shows "apart a n b k"
proof -
  have a: "unat a + n \<le> 2 ^ 32" using assms by simp
  have "unat x < unat b" if "x \<in> region a n" for x using region_unat(2) [OF that a] assms(1) by simp
  moreover have "unat b \<le> unat x" if "x \<in> region b k" for x using region_unat(1) [OF that assms(2)] .
  ultimately show ?thesis unfolding apart_def by (meson disjoint_iff leD)
qed

lemma apart_sym: "apart a n b k \<longleftrightarrow> apart b k a n"
  by (auto simp: apart_def)

lemma apart_mono: "apart a n b k \<Longrightarrow> region a' n' \<subseteq> region a n \<Longrightarrow> region b' k' \<subseteq> region b k \<Longrightarrow> apart a' n' b' k'"
  by (auto simp: apart_def)

subsection \<open>Stateful code that may leave by an exception\<close>

text \<open>
  A C function that works on a state \<open>'s\<close> and may leave by \<open>longjmp\<close> (or run into undefined
  behaviour) is a function into \<open>('e + 'a) \<times> 's\<close>: the exception or the value, and the state
  reached in both cases.
\<close>

fun bindE :: "('e + 'a) \<times> 's \<Rightarrow> ('a \<Rightarrow> 's \<Rightarrow> ('e + 'b) \<times> 's) \<Rightarrow> ('e + 'b) \<times> 's" where
  "bindE (Inl e, s) f = (Inl e, s)"
| "bindE (Inr x, s) f = f x s"

fun post :: "('a \<Rightarrow> 's \<Rightarrow> bool) \<Rightarrow> ('e \<Rightarrow> 's \<Rightarrow> bool) \<Rightarrow> ('e + 'a) \<times> 's \<Rightarrow> bool" where
  "post Q E (Inl e, s) = E e s"
| "post Q E (Inr x, s) = Q x s"

lemma post_bindE [simp]: "post Q E (bindE r f) = post (\<lambda>x s. post Q E (f x s)) E r"
  by (cases r; cases "fst r") auto

lemma post_mono:
  "post Q E r \<Longrightarrow> (\<And>x s. Q x s \<Longrightarrow> Q' x s) \<Longrightarrow> (\<And>e s. E e s \<Longrightarrow> E' e s) \<Longrightarrow> post Q' E' r"
  by (cases r; cases "fst r") auto

lemma post_conj: "post Q E r \<Longrightarrow> post Q' E' r \<Longrightarrow> post (\<lambda>x s. Q x s \<and> Q' x s) (\<lambda>e s. E e s \<and> E' e s) r"
  by (cases r; cases "fst r") auto

lemma post_alt: "post Q E r \<longleftrightarrow> (case fst r of Inl e \<Rightarrow> E e (snd r) | Inr x \<Rightarrow> Q x (snd r))"
  by (cases r; cases "fst r") auto

lemma bindE_assoc: "bindE (bindE r f) g = bindE r (\<lambda>x s. bindE (f x s) g)"
  by (cases r; cases "fst r") auto

lemma bindE_cong [fundef_cong]:
  "r = r' \<Longrightarrow> (\<And>x s. r' = (Inr x, s) \<Longrightarrow> f x s = g x s) \<Longrightarrow> bindE r f = bindE r' g"
  by (cases r'; cases "fst r'") auto

subsection \<open>Checked arrays and counted loops\<close>

text \<open>
  C arrays are lists; an index outside the array is undefined behaviour in C and \<open>None\<close> here.
  A loop \<open>for (i = lo; i < hi; i++)\<close> whose body may fail is \<open>for_each\<close> over \<open>[lo..<hi]\<close>.
\<close>

definition aref :: "'a list \<Rightarrow> int \<Rightarrow> 'a option" where
  "aref xs i = (if 0 \<le> i \<and> nat i < length xs then Some (xs ! nat i) else None)"

definition aset :: "'a list \<Rightarrow> int \<Rightarrow> 'a \<Rightarrow> 'a list option" where
  "aset xs i v = (if 0 \<le> i \<and> nat i < length xs then Some (xs[nat i := v]) else None)"

fun for_each :: "('i \<Rightarrow> 's \<Rightarrow> 's option) \<Rightarrow> 'i list \<Rightarrow> 's \<Rightarrow> 's option" where
  "for_each f [] s = Some s"
| "for_each f (i # is) s = Option.bind (f i s) (for_each f is)"

lemma aref_int [simp]: "aref xs (int i) = (if i < length xs then Some (xs ! i) else None)"
  by (simp add: aref_def)

lemma aset_int [simp]: "aset xs (int i) v = (if i < length xs then Some (xs[i := v]) else None)"
  by (simp add: aset_def)

lemma aref_numeral [simp]:
  "aref xs (numeral k) = (if numeral k < length xs then Some (xs ! numeral k) else None)"
  "aref xs 0 = (if 0 < length xs then Some (xs ! 0) else None)"
  "aref xs 1 = (if 1 < length xs then Some (xs ! 1) else None)"
  by (simp_all add: aref_def)

lemma aref_Some_iff: "aref xs i = Some x \<longleftrightarrow> 0 \<le> i \<and> nat i < length xs \<and> x = xs ! nat i"
  by (auto simp: aref_def)

lemma aref_mem: "aref xs i = Some x \<Longrightarrow> x \<in> set xs"
  by (auto simp: aref_def split: if_splits)

lemma aset_Some_length: "aset xs i v = Some ys \<Longrightarrow> length ys = length xs"
  by (auto simp: aset_def split: if_splits)

lemma for_each_append:
  "for_each f (xs @ ys) s = Option.bind (for_each f xs s) (for_each f ys)"
  by (induction xs arbitrary: s) (auto simp: Option.bind_eq_None_conv split: Option.bind_splits)

text \<open>
  The Hoare rule of a counted loop: an invariant indexed by the loop counter that the body
  keeps, and under which the body does not fail.
\<close>

lemma for_each_upt_rule:
  assumes "lo \<le> hi" and "I lo s"
    and "\<And>i s. lo \<le> i \<Longrightarrow> i < hi \<Longrightarrow> I i s \<Longrightarrow> \<exists>s'. f i s = Some s' \<and> I (Suc i) s'"
  shows "\<exists>s'. for_each f [lo..<hi] s = Some s' \<and> I hi s'"
  using assms
proof (induction hi)
  case (Suc hi)
  show ?case
  proof (cases "lo \<le> hi")
    case True
    with Suc obtain s1 where s1: "for_each f [lo..<hi] s = Some s1" "I hi s1" by force
    moreover obtain s2 where "f hi s1 = Some s2" "I (Suc hi) s2"
      using Suc.prems(3) [OF True] s1 by auto
    ultimately show ?thesis
      using True by (auto simp: for_each_append)
  next
    case False
    with Suc.prems have "lo = Suc hi" by simp
    with Suc.prems show ?thesis by simp
  qed
qed simp

end
