(* ===== verification/Puff.thy ===== *)
theory Puff
  imports Prelude
begin

text \<open>
  The DEFLATE decoder of \<open>zip/puff.c\<close>, function by function. The C code works through pointers
  into memory, so \<open>struct state\<close> keeps the memory itself beside its fields: \<open>out\<close> and \<open>inp\<close> are
  addresses and every \<open>s->in[i]\<close>, \<open>s->out[i]\<close> is a memory access at \<open>inp + i\<close>, \<open>out + i\<close>.
  Counters of type \<open>unsigned long\<close> are 32-bit words and wrap; \<open>int\<close> variables are HOL integers
  (they stay below \<open>2 ^ 20\<close>, which \<open>Puff_Stream\<close> and \<open>Puff_Safety\<close> show). The arrays of the
  decoder (\<open>count\<close>, \<open>symbol\<close>, \<open>lengths\<close>, the constant tables) are lists with checked access:
  an index outside is the exception \<open>OutOfBounds\<close>. \<open>longjmp\<close> is the exception \<open>Longjmp\<close>. In \<open>bits()\<close>, whose
  \<open>long\<close> has 32 bits, a shift that C leaves undefined is the exception \<open>Overflow\<close>.
  Loops that consume input carry a fuel bound computed from the input left; running out is
  the exception \<open>OutOfFuel\<close>, which \<open>Puff_Safety\<close> shows never happens.
\<close>

subsection \<open>Data\<close>

datatype puff_exn = Longjmp | OutOfBounds | OutOfFuel | Overflow

record huffman =
  count :: "int list"
  symbol :: "int list"

text \<open>
  The static locals of \<open>fixed()\<close>: the flag and the tables it fills on its first call.
\<close>

record fixed_statics =
  virgin :: bool
  lencode_st :: huffman
  distcode_st :: huffman

text \<open>
  What \<open>puff\<close> shares with its caller: memory, the static locals of \<open>fixed()\<close>, and the contents
  that the uninitialised local arrays of \<open>dynamic()\<close> happen to have (theorems hold for all).
\<close>

record world =
  mem :: mem
  fx :: fixed_statics
  stk :: "nat \<Rightarrow> int"

record state = world +
  out :: u32
  outlen :: u32
  outcnt :: u32
  inp :: u32
  inlen :: u32
  incnt :: u32
  bitbuf :: int
  bitcnt :: int

type_synonym 'a puffm = "(puff_exn + 'a) \<times> state"

abbreviation MAXBITS :: nat where "MAXBITS \<equiv> 15"
abbreviation MAXLCODES :: nat where "MAXLCODES \<equiv> 286"
abbreviation MAXDCODES :: nat where "MAXDCODES \<equiv> 30"
abbreviation MAXCODES :: nat where "MAXCODES \<equiv> MAXLCODES + MAXDCODES"
abbreviation FIXLCODES :: nat where "FIXLCODES \<equiv> 288"

abbreviation NIL :: u32 where "NIL \<equiv> 0"

text \<open>\<open>s->in[i]\<close> and \<open>s->out[i]\<close>.\<close>

definition in_byte :: "state \<Rightarrow> u32 \<Rightarrow> u8" where
  "in_byte s i = mem s (inp s + i)"

definition put_out :: "state \<Rightarrow> u32 \<Rightarrow> u8 \<Rightarrow> state" where
  "put_out s i b = s\<lparr>mem := (mem s)(out s + i := b)\<rparr>"

definition unopt :: "'a option \<Rightarrow> state \<Rightarrow> 'a puffm" where
  "unopt v s = (case v of None \<Rightarrow> (Inl OutOfBounds, s) | Some x \<Rightarrow> (Inr x, s))"

subsection \<open>bits()\<close>

text \<open>Whether \<open>x << n\<close> is defined for a \<open>long\<close> of 32 bits: the count is less than 32, the result fits.\<close>

definition shift_ok :: "int \<Rightarrow> int \<Rightarrow> bool" where
  "shift_ok x n \<longleftrightarrow> 0 \<le> n \<and> n < 32 \<and> 0 \<le> x \<and> push_bit (nat n) x < 2 ^ 31"

function bits_load :: "state \<Rightarrow> int \<Rightarrow> int \<Rightarrow> int puffm" where
  "bits_load s need val =
     (if bitcnt s < need then
        if incnt s = inlen s then (Inl Longjmp, s)
        else if \<not> shift_ok (uint (in_byte s (incnt s))) (bitcnt s) then (Inl Overflow, s\<lparr>incnt := incnt s + 1\<rparr>)
        else bits_load (s\<lparr>incnt := incnt s + 1, bitcnt := bitcnt s + 8\<rparr>) need
               (val OR push_bit (nat (bitcnt s)) (uint (in_byte s (incnt s))))
      else (Inr val, s))"
  by pat_completeness auto
termination
  by (relation "measure (\<lambda>(s, need, val). nat (need - bitcnt s))") auto

declare bits_load.simps [simp del]

definition bits :: "state \<Rightarrow> int \<Rightarrow> int puffm" where
  "bits s need =
     bindE (bits_load s need (bitbuf s)) (\<lambda>val s.
       if \<not> shift_ok 1 need then (Inl Overflow, s)
       else (Inr (val AND (push_bit (nat need) 1 - 1)),
        s\<lparr>bitbuf := drop_bit (nat need) val, bitcnt := bitcnt s - need\<rparr>))"

subsection \<open>stored()\<close>

primrec stored_copy :: "nat \<Rightarrow> state \<Rightarrow> state" where
  "stored_copy 0 s = s"
| "stored_copy (Suc len) s =
     stored_copy len
       ((put_out s (outcnt s) (in_byte s (incnt s)))\<lparr>outcnt := outcnt s + 1, incnt := incnt s + 1\<rparr>)"

text \<open>The part of \<open>stored()\<close> after \<open>len\<close> is read: its complement, then the bytes.\<close>

definition stored_data :: "u32 \<Rightarrow> state \<Rightarrow> int puffm" where
  "stored_data len s =
     (if ucast (in_byte s (incnt s)) \<noteq> (NOT len AND 0xff) then (Inr (- 2), s\<lparr>incnt := incnt s + 1\<rparr>)
      else
        let s = s\<lparr>incnt := incnt s + 1\<rparr> in
        if ucast (in_byte s (incnt s)) \<noteq> (drop_bit 8 (NOT len) AND 0xff) then (Inr (- 2), s\<lparr>incnt := incnt s + 1\<rparr>)
        else
          let s = s\<lparr>incnt := incnt s + 1\<rparr> in
          if incnt s + len > inlen s then (Inr 2, s)
          else if out s \<noteq> NIL then
            if outcnt s + len > outlen s then (Inr 1, s)
            else (Inr 0, stored_copy (unat len) s)
          else (Inr 0, s\<lparr>outcnt := outcnt s + len, incnt := incnt s + len\<rparr>))"

definition stored :: "state \<Rightarrow> int puffm" where
  "stored s0 =
     (let s = s0\<lparr>bitbuf := 0, bitcnt := 0\<rparr> in
      if incnt s + 4 > inlen s then (Inr 2, s)
      else
        let len = ucast (in_byte s (incnt s));
            s = s\<lparr>incnt := incnt s + 1\<rparr>;
            len = len OR push_bit 8 (ucast (in_byte s (incnt s)));
            s = s\<lparr>incnt := incnt s + 1\<rparr> in
        stored_data len s)"

subsection \<open>decode()\<close>

text \<open>The readable version, compiled under \<open>#ifdef SLOW\<close>: one bit at a time.\<close>

fun decode_slow_loop :: "huffman \<Rightarrow> nat \<Rightarrow> nat \<Rightarrow> int \<Rightarrow> int \<Rightarrow> int \<Rightarrow> state \<Rightarrow> int puffm" where
  "decode_slow_loop h 0 len code first index s = (Inr (- 10), s)"
| "decode_slow_loop h (Suc n) len code first index s =
     bindE (bits s 1) (\<lambda>b s.
       let code = code OR b in
       bindE (unopt (aref (count h) (int len)) s) (\<lambda>cnt s.
         if code - cnt < first then unopt (aref (symbol h) (index + (code - first))) s
         else decode_slow_loop h n (len + 1) (push_bit 1 code) (push_bit 1 (first + cnt)) (index + cnt) s))"

definition decode_slow :: "huffman \<Rightarrow> state \<Rightarrow> int puffm" where
  "decode_slow h s = decode_slow_loop h MAXBITS 1 0 0 0 s"

text \<open>
  The faster version that is compiled: the inner loop \<open>while (left--)\<close> over the local copy
  \<open>dbuf\<close> of the bit buffer, and the outer loop that loads one more byte. The pointer \<open>next\<close>
  into \<open>h->count\<close> is an index.
\<close>

record dregs =
  dbuf :: int
  dcode :: int
  dfirst :: int
  dindex :: int
  dlen :: int
  dnext :: int

fun decode_inner :: "huffman \<Rightarrow> nat \<Rightarrow> dregs \<Rightarrow> state \<Rightarrow> (int + dregs) puffm" where
  "decode_inner h 0 r s = (Inr (Inr r), s)"
| "decode_inner h (Suc left) r s =
     (let code = dcode r OR (dbuf r AND 1);
          buf = drop_bit 1 (dbuf r) in
      bindE (unopt (aref (count h) (dnext r)) s) (\<lambda>cnt s.
        if code - cnt < dfirst r then
          bindE (unopt (aref (symbol h) (dindex r + (code - dfirst r)))
                   (s\<lparr>bitbuf := buf, bitcnt := (bitcnt s - dlen r) AND 7\<rparr>))
            (\<lambda>sy s. (Inr (Inl sy), s))
        else
          decode_inner h left
            (r\<lparr>dbuf := buf, dcode := push_bit 1 code, dfirst := push_bit 1 (dfirst r + cnt),
               dindex := dindex r + cnt, dlen := dlen r + 1, dnext := dnext r + 1\<rparr>) s))"

lemma decode_inner_len:
  "decode_inner h left r s = (Inr (Inr r'), s') \<Longrightarrow> dlen r' = dlen r + int left"
proof (induction h left r s arbitrary: r' s' rule: decode_inner.induct)
  case (2 h left r s)
  then show ?case
    by (auto simp: Let_def unopt_def split: option.splits if_splits)
qed simp

text \<open>
  A negative \<open>left\<close> would make \<open>while (left--)\<close> run past the end of \<open>h->count\<close>.
\<close>

function decode_outer :: "huffman \<Rightarrow> int \<Rightarrow> dregs \<Rightarrow> state \<Rightarrow> int puffm" where
  "decode_outer h left r s =
     (if left < 0 then (Inl OutOfBounds, s)
      else
        bindE (decode_inner h (nat left) r s) (\<lambda>res s.
          case res of
            Inl sy \<Rightarrow> (Inr sy, s)
          | Inr r \<Rightarrow>
              let left = int MAXBITS + 1 - dlen r in
              if left = 0 then (Inr (- 10), s)
              else if incnt s = inlen s then (Inl Longjmp, s)
              else decode_outer h (min left 8) (r\<lparr>dbuf := uint (in_byte s (incnt s))\<rparr>)
                     (s\<lparr>incnt := incnt s + 1\<rparr>)))"
  by pat_completeness auto
termination
  by (relation "measure (\<lambda>(h, left, r, s).
        3 * nat (17 - dlen r) + (if left < 0 then 0 else if left = 0 then 2 else 1))")
     (auto dest!: decode_inner_len)

declare decode_outer.simps [simp del]

definition decode :: "huffman \<Rightarrow> state \<Rightarrow> int puffm" where
  "decode h s =
     decode_outer h (bitcnt s)
       \<lparr>dbuf = bitbuf s, dcode = 0, dfirst = 0, dindex = 0, dlen = 1, dnext = 1\<rparr> s"

subsection \<open>construct()\<close>

definition count_step :: "int list \<Rightarrow> nat \<Rightarrow> int list \<Rightarrow> int list option" where
  "count_step lengths sy cnt =
     Option.bind (aref lengths (int sy)) (\<lambda>l.
       Option.bind (aref cnt l) (\<lambda>c. aset cnt l (c + 1)))"

fun left_loop :: "int list \<Rightarrow> nat \<Rightarrow> nat \<Rightarrow> int \<Rightarrow> int option" where
  "left_loop cnt 0 len left = Some left"
| "left_loop cnt (Suc n) len left =
     Option.bind (aref cnt (int len)) (\<lambda>c.
       let left = push_bit 1 left - c in
       if left < 0 then Some left else left_loop cnt n (len + 1) left)"

definition offs_step :: "int list \<Rightarrow> nat \<Rightarrow> int list \<Rightarrow> int list option" where
  "offs_step cnt len offs =
     Option.bind (aref offs (int len)) (\<lambda>o1.
       Option.bind (aref cnt (int len)) (\<lambda>c. aset offs (int len + 1) (o1 + c)))"

definition symbol_step :: "int list \<Rightarrow> nat \<Rightarrow> int list \<times> int list \<Rightarrow> (int list \<times> int list) option" where
  "symbol_step lengths sy os =
     (case os of (offs, syms) \<Rightarrow>
        Option.bind (aref lengths (int sy)) (\<lambda>l.
          if l \<noteq> 0 then
            Option.bind (aref offs l) (\<lambda>k.
              Option.bind (aset syms k (int sy)) (\<lambda>syms.
                Option.bind (aset offs l (k + 1)) (\<lambda>offs. Some (offs, syms))))
          else Some os))"

text \<open>
  \<open>construct(h, length, n)\<close>: the return value and the table; the entries of \<open>offs\<close> that the
  code leaves unset are never read (\<open>offs[0]\<close>).
\<close>

definition construct :: "huffman \<Rightarrow> int list \<Rightarrow> nat \<Rightarrow> (int \<times> huffman) option" where
  "construct h lengths n =
     Option.bind (for_each (count_step lengths) [0..<n] (replicate (MAXBITS + 1) 0)) (\<lambda>cnt.
       let h = h\<lparr>count := cnt\<rparr> in
       if cnt ! 0 = int n then Some (0, h)
       else
         Option.bind (left_loop cnt MAXBITS 1 1) (\<lambda>left.
           if left < 0 then Some (left, h)
           else
             Option.bind (for_each (offs_step cnt) [1..<MAXBITS] (replicate (MAXBITS + 1) 0)) (\<lambda>offs.
               Option.bind (for_each (symbol_step lengths) [0..<n] (offs, symbol h)) (\<lambda>(offs, syms).
                 Some (left, h\<lparr>symbol := syms\<rparr>)))))"

subsection \<open>codes()\<close>

definition lens :: "int list" where
  "lens = [3, 4, 5, 6, 7, 8, 9, 10, 11, 13, 15, 17, 19, 23, 27, 31,
           35, 43, 51, 59, 67, 83, 99, 115, 131, 163, 195, 227, 258]"

definition lext :: "int list" where
  "lext = [0, 0, 0, 0, 0, 0, 0, 0, 1, 1, 1, 1, 2, 2, 2, 2,
           3, 3, 3, 3, 4, 4, 4, 4, 5, 5, 5, 5, 0]"

definition dists :: "int list" where
  "dists = [1, 2, 3, 4, 5, 7, 9, 13, 17, 25, 33, 49, 65, 97, 129, 193,
            257, 385, 513, 769, 1025, 1537, 2049, 3073, 4097, 6145,
            8193, 12289, 16385, 24577]"

definition dext :: "int list" where
  "dext = [0, 0, 0, 0, 1, 1, 2, 2, 3, 3, 4, 4, 5, 5, 6, 6,
           7, 7, 8, 8, 9, 9, 10, 10, 11, 11, 12, 12, 13, 13]"

primrec copy_back :: "nat \<Rightarrow> u32 \<Rightarrow> state \<Rightarrow> state" where
  "copy_back 0 dist s = s"
| "copy_back (Suc len) dist s =
     copy_back len dist
       ((put_out s (outcnt s) (mem s (out s + (outcnt s - dist))))\<lparr>outcnt := outcnt s + 1\<rparr>)"

text \<open>
  One round of the loop for a length symbol: \<open>Inl err\<close> is a \<open>return err\<close>, \<open>Inr sy\<close> the value
  \<open>symbol\<close> has when the loop condition is tested. \<open>copy_match\<close> checks the distance and copies,
  \<open>read_dist\<close> reads the distance, \<open>length_dist\<close> reads the length.
\<close>

definition copy_match :: "int \<Rightarrow> int \<Rightarrow> u32 \<Rightarrow> state \<Rightarrow> (int + int) puffm" where
  "copy_match sy len dist s =
     (if dist > outcnt s then (Inr (Inl (- 11)), s)
      else if out s \<noteq> NIL then
        if outcnt s + word_of_int len > outlen s then (Inr (Inl 1), s)
        else (Inr (Inr sy), copy_back (nat len) dist s)
      else (Inr (Inr sy), s\<lparr>outcnt := outcnt s + word_of_int len\<rparr>))"

definition read_dist :: "huffman \<Rightarrow> int \<Rightarrow> state \<Rightarrow> (int + int) puffm" where
  "read_dist distcode len s =
     bindE (decode distcode s) (\<lambda>sy s.
       if sy < 0 then (Inr (Inl sy), s)
       else
         bindE (unopt (aref dists sy) s) (\<lambda>base s.
         bindE (unopt (aref dext sy) s) (\<lambda>ext s.
         bindE (bits s ext) (\<lambda>b s. copy_match sy len (word_of_int (base + b)) s))))"

definition length_dist :: "huffman \<Rightarrow> int \<Rightarrow> state \<Rightarrow> (int + int) puffm" where
  "length_dist distcode sy0 s =
     (let sy = sy0 - 257 in
      if sy \<ge> 29 then (Inr (Inl (- 10)), s)
      else
        bindE (unopt (aref lens sy) s) (\<lambda>base s.
        bindE (unopt (aref lext sy) s) (\<lambda>ext s.
        bindE (bits s ext) (\<lambda>b s. read_dist distcode (base + b) s))))"

definition literal :: "int \<Rightarrow> state \<Rightarrow> (int + int) puffm" where
  "literal sy s =
     (if out s \<noteq> NIL then
        if outcnt s = outlen s then (Inr (Inl 1), s)
        else (Inr (Inr sy), (put_out s (outcnt s) (word_of_int sy))\<lparr>outcnt := outcnt s + 1\<rparr>)
      else (Inr (Inr sy), s\<lparr>outcnt := outcnt s + 1\<rparr>))"

fun codes_loop :: "nat \<Rightarrow> huffman \<Rightarrow> huffman \<Rightarrow> state \<Rightarrow> int puffm" where
  "codes_loop 0 lencode distcode s = (Inl OutOfFuel, s)"
| "codes_loop (Suc fuel) lencode distcode s =
     bindE (decode lencode s) (\<lambda>sy s.
       if sy < 0 then (Inr sy, s)
       else
         bindE (if sy < 256 then literal sy s
                else if sy > 256 then length_dist distcode sy s
                else (Inr (Inr sy), s)) (\<lambda>res s.
           case res of
             Inl err \<Rightarrow> (Inr err, s)
           | Inr sy \<Rightarrow> if sy \<noteq> 256 then codes_loop fuel lencode distcode s else (Inr 0, s)))"

text \<open>The bits of input left: the bound on the rounds of every loop that consumes input.\<close>

definition bits_left :: "state \<Rightarrow> nat" where
  "bits_left s = 8 * unat (inlen s - incnt s) + nat (bitcnt s)"

definition codes :: "huffman \<Rightarrow> huffman \<Rightarrow> state \<Rightarrow> int puffm" where
  "codes lencode distcode s = codes_loop (bits_left s + 1) lencode distcode s"

subsection \<open>fixed()\<close>

definition fixed_lengths :: "int list" where
  "fixed_lengths = replicate 144 8 @ replicate (256 - 144) 9 @ replicate (280 - 256) 7
     @ replicate (FIXLCODES - 280) 8"

text \<open>
  The static arrays are zero before the first call. \<open>construct()\<close>'s return value is ignored.
\<close>

definition fixed_build :: "fixed_statics option" where
  "fixed_build =
     Option.bind (construct \<lparr>count = replicate (MAXBITS + 1) 0, symbol = replicate FIXLCODES 0\<rparr>
                    fixed_lengths FIXLCODES) (\<lambda>(_, lencode).
       Option.bind (construct \<lparr>count = replicate (MAXBITS + 1) 0, symbol = replicate MAXDCODES 0\<rparr>
                      (replicate MAXDCODES 5) MAXDCODES) (\<lambda>(_, distcode).
         Some \<lparr>virgin = False, lencode_st = lencode, distcode_st = distcode\<rparr>))"

text \<open>The statics as the program starts with them.\<close>

definition fixed_init :: fixed_statics where
  "fixed_init =
     \<lparr>virgin = True, lencode_st = \<lparr>count = replicate (MAXBITS + 1) 0, symbol = replicate FIXLCODES 0\<rparr>,
      distcode_st = \<lparr>count = replicate (MAXBITS + 1) 0, symbol = replicate MAXDCODES 0\<rparr>\<rparr>"

definition fixed :: "state \<Rightarrow> int puffm" where
  "fixed s =
     bindE (if virgin (fx s) then
              bindE (unopt fixed_build s) (\<lambda>f s. (Inr (), s\<lparr>fx := f\<rparr>))
            else (Inr (), s)) (\<lambda>_ s.
       codes (lencode_st (fx s)) (distcode_st (fx s)) s)"

subsection \<open>dynamic()\<close>

definition order :: "int list" where
  "order = [16, 17, 18, 0, 8, 7, 9, 6, 10, 5, 11, 4, 12, 3, 13, 2, 14, 1, 15]"

fun read_code_lengths :: "nat \<Rightarrow> nat \<Rightarrow> int list \<Rightarrow> state \<Rightarrow> int list puffm" where
  "read_code_lengths 0 index lengths s = (Inr lengths, s)"
| "read_code_lengths (Suc n) index lengths s =
     bindE (bits s 3) (\<lambda>v s.
     bindE (unopt (aref order (int index)) s) (\<lambda>k s.
     bindE (unopt (aset lengths k v) s) (\<lambda>lengths s.
       read_code_lengths n (index + 1) lengths s)))"

definition clear_step :: "nat \<Rightarrow> int list \<Rightarrow> int list option" where
  "clear_step index lengths = Option.bind (aref order (int index)) (\<lambda>k. aset lengths k 0)"

fun fill_lengths :: "nat \<Rightarrow> int \<Rightarrow> int \<Rightarrow> int list \<Rightarrow> int list option" where
  "fill_lengths 0 index len lengths = Some lengths"
| "fill_lengths (Suc n) index len lengths =
     Option.bind (aset lengths index len) (fill_lengths n (index + 1) len)"

text \<open>
  One round of \<open>while (index < nlen + ndist)\<close>: \<open>Inl err\<close> is a \<open>return err\<close>.
\<close>

definition lengths_step ::
  "huffman \<Rightarrow> int \<Rightarrow> int \<Rightarrow> int list \<Rightarrow> state \<Rightarrow> (int + int \<times> int list) puffm" where
  "lengths_step lencode tot index lengths s =
     bindE (decode lencode s) (\<lambda>sy s.
       if sy < 0 then (Inr (Inl sy), s)
       else if sy < 16 then
         bindE (unopt (aset lengths index sy) s) (\<lambda>lengths s. (Inr (Inr (index + 1, lengths)), s))
       else if sy = 16 \<and> index = 0 then (Inr (Inl (- 5)), s)
       else
         bindE (if sy = 16 then
                  bindE (unopt (aref lengths (index - 1)) s) (\<lambda>len s.
                    bindE (bits s 2) (\<lambda>b s. (Inr (len, 3 + b), s)))
                else if sy = 17 then bindE (bits s 3) (\<lambda>b s. (Inr (0, 3 + b), s))
                else bindE (bits s 7) (\<lambda>b s. (Inr (0, 11 + b), s))) (\<lambda>(len, rep) s.
           if index + rep > tot then (Inr (Inl (- 6)), s)
           else
             bindE (unopt (fill_lengths (nat rep) index len lengths) s) (\<lambda>lengths s.
               (Inr (Inr (index + rep, lengths)), s))))"

fun lengths_loop ::
  "nat \<Rightarrow> huffman \<Rightarrow> int \<Rightarrow> int \<Rightarrow> int list \<Rightarrow> state \<Rightarrow> (int + int list) puffm" where
  "lengths_loop 0 lencode tot index lengths s = (Inl OutOfFuel, s)"
| "lengths_loop (Suc fuel) lencode tot index lengths s =
     (if index < tot then
        bindE (lengths_step lencode tot index lengths s) (\<lambda>res s.
          case res of
            Inl err \<Rightarrow> (Inr (Inl err), s)
          | Inr (index, lengths) \<Rightarrow> lengths_loop fuel lencode tot index lengths s)
      else (Inr (Inr lengths), s))"

text \<open>\<open>err && (err < 0 || n != count[0] + count[1])\<close>\<close>

definition bad_code :: "int \<Rightarrow> huffman \<Rightarrow> int \<Rightarrow> bool" where
  "bad_code err h n \<longleftrightarrow> err \<noteq> 0 \<and> (err < 0 \<or> n \<noteq> count h ! 0 + count h ! 1)"

text \<open>The end of \<open>dynamic()\<close>, once the code lengths are read.\<close>

definition dynamic_codes :: "huffman \<Rightarrow> huffman \<Rightarrow> int \<Rightarrow> int \<Rightarrow> int list \<Rightarrow> state \<Rightarrow> int puffm" where
  "dynamic_codes lencode distcode nlen ndist lengths s =
     bindE (unopt (aref lengths 256) s) (\<lambda>eob s.
     if eob = 0 then (Inr (- 9), s)
     else
       bindE (unopt (construct lencode lengths (nat nlen)) s) (\<lambda>(err, lencode) s.
       if bad_code err lencode nlen then (Inr (- 7), s)
       else
         bindE (unopt (construct distcode (drop (nat nlen) lengths) (nat ndist)) s) (\<lambda>(err, distcode) s.
         if bad_code err distcode ndist then (Inr (- 8), s)
         else codes lencode distcode s)))"

text \<open>The middle of \<open>dynamic()\<close>: the code length code, then the lengths coded with it.\<close>

definition dynamic_lengths ::
  "huffman \<Rightarrow> huffman \<Rightarrow> int list \<Rightarrow> int \<Rightarrow> int \<Rightarrow> int \<Rightarrow> state \<Rightarrow> int puffm" where
  "dynamic_lengths lencode distcode lengths nlen ndist ncode s =
     (if nlen > int MAXLCODES \<or> ndist > int MAXDCODES then (Inr (- 3), s)
      else
        bindE (read_code_lengths (nat ncode) 0 lengths s) (\<lambda>lengths s.
        bindE (unopt (for_each clear_step [nat ncode..<19] lengths) s) (\<lambda>lengths s.
        bindE (unopt (construct lencode lengths 19) s) (\<lambda>(err, lencode) s.
        if err \<noteq> 0 then (Inr (- 4), s)
        else
          bindE (lengths_loop (MAXCODES + 1) lencode (nlen + ndist) 0 lengths s) (\<lambda>res s.
            case res of
              Inl err \<Rightarrow> (Inr err, s)
            | Inr lengths \<Rightarrow> dynamic_codes lencode distcode nlen ndist lengths s)))))"

definition dynamic :: "state \<Rightarrow> int puffm" where
  "dynamic s =
     (let lengths = map (stk s) [0..<MAXCODES];
          lencode = \<lparr>count = replicate (MAXBITS + 1) 0, symbol = map (stk s) [0..<MAXLCODES]\<rparr>;
          distcode = \<lparr>count = replicate (MAXBITS + 1) 0, symbol = map (stk s) [0..<MAXDCODES]\<rparr> in
      bindE (bits s 5) (\<lambda>b s.
      let nlen = b + 257 in
      bindE (bits s 5) (\<lambda>b s.
      let ndist = b + 1 in
      bindE (bits s 4) (\<lambda>b s.
      let ncode = b + 4 in
      dynamic_lengths lencode distcode lengths nlen ndist ncode s))))"

subsection \<open>puff()\<close>

definition block :: "int \<Rightarrow> state \<Rightarrow> int puffm" where
  "block type s =
     (if type = 0 then stored s
      else if type = 1 then fixed s
      else if type = 2 then dynamic s
      else (Inr (- 1), s))"

fun blocks_loop :: "nat \<Rightarrow> state \<Rightarrow> int puffm" where
  "blocks_loop 0 s = (Inl OutOfFuel, s)"
| "blocks_loop (Suc fuel) s =
     bindE (bits s 1) (\<lambda>last s.
     bindE (bits s 2) (\<lambda>type s.
     bindE (block type s) (\<lambda>err s.
       if err \<noteq> 0 then (Inr err, s)
       else if last = 0 then blocks_loop fuel s
       else (Inr 0, s))))"

definition init_state :: "world \<Rightarrow> u32 \<Rightarrow> u32 \<Rightarrow> u32 \<Rightarrow> u32 \<Rightarrow> state" where
  "init_state w dest destlen source sourcelen =
     \<lparr>mem = mem w, fx = fx w, stk = stk w, out = dest, outlen = destlen, outcnt = 0,
      inp = source, inlen = sourcelen, incnt = 0, bitbuf = 0, bitcnt = 0\<rparr>"

definition world_of :: "state \<Rightarrow> world" where
  "world_of s = \<lparr>mem = mem s, fx = fx s, stk = stk s\<rparr>"

text \<open>
  What \<open>puff()\<close> leaves behind: its return value, \<open>*destlen\<close>, \<open>*sourcelen\<close> and the world, or
  the exception that is undefined behaviour in C. \<open>setjmp\<close>/\<open>longjmp\<close> is the \<open>Longjmp\<close> case.
\<close>

type_synonym puff_result = "puff_exn + int \<times> u32 \<times> u32"

definition puff :: "world \<Rightarrow> u32 \<Rightarrow> u32 \<Rightarrow> u32 \<Rightarrow> u32 \<Rightarrow> puff_result \<times> world" where
  "puff w dest destlen source sourcelen =
     (let s0 = init_state w dest destlen source sourcelen in
      case blocks_loop (bits_left s0 + 1) s0 of
        (Inl Longjmp, s) \<Rightarrow> (Inr (2, destlen, sourcelen), world_of s)
      | (Inl e, s) \<Rightarrow> (Inl e, world_of s)
      | (Inr err, s) \<Rightarrow>
          (Inr (if err \<le> 0 then (err, outcnt s, incnt s) else (err, destlen, sourcelen)), world_of s))"

end
