(* ===== verification/Puff_Stream.thy ===== *)
theory Puff_Stream
  imports Puff
begin

text \<open>
  The input side of the decoder. The bits that \<open>bits()\<close> and \<open>decode()\<close> have not consumed yet
  form a list, \<open>stream s\<close>: the bit buffer, then the remaining input bytes, least significant
  bit first. \<open>bits()\<close> takes a prefix of this list (\<open>bits_spec\<close>), and the fast \<open>decode()\<close> that
  is compiled agrees with the readable one (\<open>decode_eq_slow\<close>).
\<close>

subsection \<open>Bits of a buffer\<close>

definition byte_bits :: "u8 \<Rightarrow> bool list" where
  "byte_bits b = map (bit b) [0..<8]"

definition buf_bits :: "int \<Rightarrow> nat \<Rightarrow> bool list" where
  "buf_bits v n = map (bit v) [0..<n]"

definition val_of :: "bool list \<Rightarrow> int" where
  "val_of bs = horner_sum of_bool 2 bs"

definition rest_bits :: "state \<Rightarrow> bool list" where
  "rest_bits s = concat (map byte_bits (bytes (mem s) (inp s + incnt s) (unat (inlen s - incnt s))))"

definition stream :: "state \<Rightarrow> bool list" where
  "stream s = buf_bits (bitbuf s) (nat (bitcnt s)) @ rest_bits s"

definition wf_bits :: "state \<Rightarrow> bool" where
  "wf_bits s \<longleftrightarrow> 0 \<le> bitcnt s \<and> bitcnt s < 8 \<and> 0 \<le> bitbuf s \<and> bitbuf s < 2 ^ nat (bitcnt s)"

text \<open>What reading input may change.\<close>

definition input_step :: "state \<Rightarrow> state \<Rightarrow> bool" where
  "input_step s s' \<longleftrightarrow>
     s' = s\<lparr>incnt := incnt s', bitbuf := bitbuf s', bitcnt := bitcnt s'\<rparr> \<and>
     (incnt s \<le> inlen s \<longrightarrow> incnt s \<le> incnt s' \<and> incnt s' \<le> inlen s)"

lemma length_byte_bits [simp]: "length (byte_bits b) = 8"
  by (simp add: byte_bits_def)

lemma length_buf_bits [simp]: "length (buf_bits v n) = n"
  by (simp add: buf_bits_def)

lemma length_rest_bits [simp]: "length (rest_bits s) = 8 * unat (inlen s - incnt s)"
proof -
  have "length (concat (map byte_bits xs)) = 8 * length xs" for xs
    by (induction xs) auto
  then show ?thesis by (simp add: rest_bits_def)
qed

lemma length_stream: "length (stream s) = bits_left s"
  by (simp add: stream_def bits_left_def)

lemma val_of_bounds: "0 \<le> val_of bs" "val_of bs < 2 ^ length bs"
proof -
  have "0 \<le> val_of bs \<and> val_of bs < 2 ^ length bs"
    by (induction bs) (auto simp: val_of_def)
  then show "0 \<le> val_of bs" "val_of bs < 2 ^ length bs" by auto
qed

lemma val_of_buf_bits: "val_of (buf_bits v n) = take_bit n v"
  by (simp add: val_of_def buf_bits_def horner_sum_bit_eq_take_bit)

lemma bit_small_int: "0 \<le> (v :: int) \<Longrightarrow> v < 2 ^ n \<Longrightarrow> bit v i \<Longrightarrow> i < n"
  by (metis bit_take_bit_iff take_bit_int_eq_self)

lemma take_buf_bits: "take n (buf_bits v m) = buf_bits v (min n m)"
  by (rule nth_equalityI) (auto simp: buf_bits_def)

lemma drop_buf_bits: "drop n (buf_bits v m) = buf_bits (drop_bit n v) (m - n)"
  by (rule nth_equalityI) (auto simp: buf_bits_def bit_drop_bit_eq)

lemma buf_bits_load:
  assumes "0 \<le> v" "v < 2 ^ c"
  shows "buf_bits (v OR push_bit c (uint b)) (c + 8) = buf_bits v c @ byte_bits b"
proof (rule nth_equalityI)
  fix i assume "i < length (buf_bits (v OR push_bit c (uint b)) (c + 8))"
  then have i: "i < c + 8" by simp
  show "buf_bits (v OR push_bit c (uint b)) (c + 8) ! i = (buf_bits v c @ byte_bits b) ! i"
    using i assms
    by (auto simp: buf_bits_def byte_bits_def nth_append bit_or_iff bit_push_bit_iff bit_uint_iff
        dest: bit_small_int)
qed simp

lemma load_bound:
  assumes "0 \<le> v" "v < 2 ^ c"
  shows "0 \<le> v OR push_bit c (uint (b :: u8))" "v OR push_bit c (uint b) < 2 ^ (c + 8)"
proof -
  have "uint b < 2 ^ 8"
    using uint_lt2p [of b] by simp
  then have "push_bit c (uint b) < 2 ^ (c + 8)"
    by (simp add: push_bit_eq_mult power_add)
  moreover have "v < 2 ^ (c + 8)"
    using assms by (rule_tac order.strict_trans2 [of _ "2 ^ c"]) auto
  ultimately show "v OR push_bit c (uint b) < 2 ^ (c + 8)"
    using assms by (intro OR_upper) auto
  show "0 \<le> v OR push_bit c (uint b)"
    using assms by simp
qed

lemma unat_diff_Suc:
  "(a :: u32) \<noteq> b \<Longrightarrow> unat (b - a) = Suc (unat (b - (a + 1)))"
proof -
  assume "a \<noteq> b"
  then have "b - a \<noteq> 0" by simp
  then have "unat (b - a) = Suc (unat (b - a - 1))"
    using unat_minus_one [of "b - a"] unat_gt_0 [of "b - a"] by simp
  then show ?thesis by (simp add: diff_diff_eq)
qed

lemma rest_bits_load:
  assumes "incnt s \<noteq> inlen s"
  shows "rest_bits s = byte_bits (in_byte s (incnt s)) @ rest_bits (s\<lparr>incnt := incnt s + 1\<rparr>)"
  using assms by (simp add: rest_bits_def unat_diff_Suc bytes_Suc in_byte_def add.assoc)

lemma rest_bits_cong:
  "mem s = mem t \<Longrightarrow> inp s = inp t \<Longrightarrow> incnt s = incnt t \<Longrightarrow> inlen s = inlen t \<Longrightarrow>
   rest_bits s = rest_bits t"
  by (simp add: rest_bits_def)

lemma incnt_step: "(a :: u32) \<le> b \<Longrightarrow> a \<noteq> b \<Longrightarrow> a \<le> a + 1 \<and> a + 1 \<le> b"
  by unat_arith

subsection \<open>bits()\<close>

lemma byte_shift_ok: "c < 24 \<Longrightarrow> shift_ok (uint (b :: u8)) (int c)"
proof -
  assume c: "c < 24"
  have "push_bit c (uint b) < 2 ^ (c + 8)" using uint_lt2p [of b] by (simp add: push_bit_eq_mult power_add)
  also have "\<dots> \<le> 2 ^ 31" using c by (intro power_increasing) simp_all
  finally show ?thesis using c by (simp add: shift_ok_def)
qed

lemma one_shift_ok: "n < 31 \<Longrightarrow> shift_ok 1 (int n)"
  using power_strict_increasing [of n 31 "2 :: int"] by (simp add: shift_ok_def push_bit_eq_mult)

lemma bits_load_spec:
  assumes "bitcnt s = int c" "0 \<le> v" "v < 2 ^ c" "n \<le> 24"
  shows "if n \<le> c + length (rest_bits s)
    then \<exists>v' c' s'. bits_load s (int n) v = (Inr v', s') \<and> bitcnt s' = int c' \<and> n \<le> c' \<and>
      (c' = c \<or> c' < n + 8) \<and> 0 \<le> v' \<and> v' < 2 ^ c' \<and> bitbuf s' = bitbuf s \<and> input_step s s' \<and>
      buf_bits v' c' @ rest_bits s' = buf_bits v c @ rest_bits s
    else \<exists>s'. bits_load s (int n) v = (Inl Longjmp, s') \<and> input_step s s' \<and> incnt s' = inlen s"
  using assms
proof (induction s "int n" v arbitrary: c rule: bits_load.induct)
  case (1 s v)
  show ?case
  proof (cases "c < n")
    case False
    with "1.prems" have "bits_load s (int n) v = (Inr v, s)"
      by (simp add: bits_load.simps [of s])
    with False "1.prems" show ?thesis by (auto simp: input_step_def)
  next
    case less: True
    show ?thesis
    proof (cases "incnt s = inlen s")
      case True
      with less "1.prems" have "bits_load s (int n) v = (Inl Longjmp, s)"
        by (simp add: bits_load.simps [of s])
      moreover have "length (rest_bits s) = 0" using True by simp
      ultimately show ?thesis using less True by (auto simp: input_step_def)
    next
      case False
      let ?s = "s\<lparr>incnt := incnt s + 1, bitcnt := int c + 8\<rparr>"
      let ?b = "in_byte s (incnt s)"
      let ?v = "v OR push_bit c (uint ?b)"
      have step: "bits_load s (int n) v = bits_load ?s (int n) ?v"
        using less False "1.prems" byte_shift_ok [of c ?b] by (simp add: bits_load.simps [of s])
      have rest: "rest_bits s = byte_bits ?b @ rest_bits ?s"
        using False rest_bits_load [of s] by (simp add: rest_bits_def)
      have strm: "buf_bits ?v (c + 8) @ rest_bits ?s = buf_bits v c @ rest_bits s"
        using "1.prems" rest by (simp add: buf_bits_load)
      have len: "c + length (rest_bits s) = (c + 8) + length (rest_bits ?s)"
        unfolding rest by simp
      have inp: "input_step ?s t \<Longrightarrow> input_step s t" if "bitbuf t = bitbuf s \<or> True" for t
        using False incnt_step [of "incnt s" "inlen s"]
        by (cases s; cases t) (auto simp: input_step_def)
      have IH: "if n \<le> (c + 8) + length (rest_bits ?s)
        then \<exists>v' c' s'. bits_load ?s (int n) ?v = (Inr v', s') \<and> bitcnt s' = int c' \<and> n \<le> c' \<and>
          (c' = c + 8 \<or> c' < n + 8) \<and> 0 \<le> v' \<and> v' < 2 ^ c' \<and> bitbuf s' = bitbuf ?s \<and>
          input_step ?s s' \<and> buf_bits v' c' @ rest_bits s' = buf_bits ?v (c + 8) @ rest_bits ?s
        else \<exists>s'. bits_load ?s (int n) ?v = (Inl Longjmp, s') \<and> input_step ?s s' \<and> incnt s' = inlen ?s"
      proof -
        have h: "bitcnt s < int n" using less "1.prems" by simp
        have ok: "\<not> \<not> shift_ok (uint ?b) (bitcnt s)" using less "1.prems" byte_shift_ok [of c ?b] by simp
        show ?thesis
          using load_bound [of v c ?b] "1.prems"
          by (intro "1.hyps" [OF h False ok, unfolded "1.prems"(1) nat_int]) simp_all
      qed
      show ?thesis
        unfolding step len
        using IH inp strm less
        by (force split: if_splits intro: exI [of _ "c + 8"])
    qed
  qed
qed

lemma bits_spec:
  assumes "wf_bits s" "n \<le> 24"
  shows "if n \<le> length (stream s)
    then \<exists>s'. bits s (int n) = (Inr (val_of (take n (stream s))), s') \<and>
           stream s' = drop n (stream s) \<and> wf_bits s' \<and> input_step s s'
    else \<exists>s'. bits s (int n) = (Inl Longjmp, s') \<and> input_step s s' \<and> incnt s' = inlen s"
proof -
  obtain c where c: "bitcnt s = int c" "c < 8" "0 \<le> bitbuf s" "bitbuf s < 2 ^ c"
    using assms(1) by (metis nat_int wf_bits_def zero_le_imp_eq_int of_nat_less_iff of_nat_numeral)
  have strm: "stream s = buf_bits (bitbuf s) c @ rest_bits s"
    using c by (simp add: stream_def)
  have one: "shift_ok 1 (int n)" using assms(2) by (intro one_shift_ok) simp
  show ?thesis
  proof (cases "n \<le> length (stream s)")
    case True
    then obtain v' c' s' where load: "bits_load s (int n) (bitbuf s) = (Inr v', s')"
      "bitcnt s' = int c'" "n \<le> c'" "c' = c \<or> c' < n + 8" "0 \<le> v'" "v' < 2 ^ c'"
      "input_step s s'" "buf_bits v' c' @ rest_bits s' = stream s"
      using bits_load_spec [OF c(1,3,4) assms(2)] strm by auto
    let ?t = "s'\<lparr>bitbuf := drop_bit n v', bitcnt := int c' - int n\<rparr>"
    have tk: "take n (stream s) = buf_bits v' n" and dr: "drop n (stream s) = buf_bits (drop_bit n v') (c' - n) @ rest_bits s'"
      using load(3) by (simp_all add: load(8) [symmetric] take_buf_bits drop_buf_bits)
    have "bits s (int n) = (Inr (val_of (take n (stream s))), ?t)"
      using load(1,2) one by (simp add: bits_def tk val_of_buf_bits take_bit_eq_mask mask_eq_exp_minus_1 push_bit_eq_mult)
    moreover have "stream ?t = buf_bits (drop_bit n v') (c' - n) @ rest_bits s'"
      using load(3) by (simp add: stream_def rest_bits_def nat_diff_distrib')
    moreover have "wf_bits ?t"
    proof -
      have "drop_bit n v' < 2 ^ (c' - n)"
        using load(5,6) by (metis drop_bit_take_bit take_bit_int_eq_self take_bit_int_less_exp)
      then show ?thesis
        using load c(2) by (auto simp: wf_bits_def nat_diff_distrib')
    qed
    moreover have "input_step s ?t"
      using load(7) by (cases s; cases s') (auto simp: input_step_def)
    ultimately show ?thesis using True dr by auto
  next
    case False
    then obtain s' where "bits_load s (int n) (bitbuf s) = (Inl Longjmp, s')" "input_step s s'" "incnt s' = inlen s"
      using bits_load_spec [OF c(1,3,4) assms(2)] strm by auto
    then show ?thesis using False by (simp add: bits_def)
  qed
qed

subsection \<open>The fast decode() agrees with the readable one\<close>

text \<open>
  When \<open>decode()\<close> gives up (\<open>-10\<close>) or leaves by \<open>longjmp\<close>, the fast version has not written its
  local bit buffer back: the two versions agree up to \<open>bitbuf\<close> and \<open>bitcnt\<close> then.
\<close>

definition forget :: "state \<Rightarrow> state" where
  "forget s = s\<lparr>bitbuf := 0, bitcnt := 0\<rparr>"

definition agree :: "int puffm \<Rightarrow> int puffm \<Rightarrow> bool" where
  "agree r r' \<longleftrightarrow> fst r = fst r' \<and> forget (snd r) = forget (snd r') \<and>
     (\<forall>v. fst r = Inr v \<and> v \<noteq> - 10 \<longrightarrow> snd r = snd r')"

lemma agree_refl [simp]: "agree r r"
  by (simp add: agree_def)

lemma agreeI_eq: "r = r' \<Longrightarrow> agree r r'"
  by simp

lemma forget_upd [simp]:
  "forget (s\<lparr>bitbuf := b, bitcnt := c\<rparr>) = forget s"
  by (simp add: forget_def)

text \<open>One bit from a buffer that has one, and from an empty one.\<close>

lemma bits1_buffered:
  "bits (s\<lparr>bitbuf := v, bitcnt := 1 + int k\<rparr>) 1 =
     (Inr (v AND 1), s\<lparr>bitbuf := drop_bit 1 v, bitcnt := int k\<rparr>)"
  by (simp add: bits_def bits_load.simps shift_ok_def)

lemma bits1_load:
  "bits (s\<lparr>bitbuf := 0, bitcnt := 0\<rparr>) 1 =
     (if incnt s = inlen s then (Inl Longjmp, s\<lparr>bitbuf := 0, bitcnt := 0\<rparr>)
      else bits (s\<lparr>incnt := incnt s + 1, bitbuf := uint (in_byte s (incnt s)), bitcnt := 8\<rparr>) 1)"
  using byte_shift_ok [of 0] one_shift_ok [of 1] by (simp add: bits_def bits_load.simps in_byte_def)

text \<open>
  The registers of the fast loop against the arguments of the slow one, when \<open>k\<close> bits of the
  local buffer are left.
\<close>

definition regs_ok :: "state \<Rightarrow> dregs \<Rightarrow> nat \<Rightarrow> nat \<Rightarrow> bool" where
  "regs_ok s r k len \<longleftrightarrow> dlen r = int len \<and> dnext r = int len \<and> 1 \<le> len \<and>
     (bitcnt s - (int len - 1)) mod 8 = int k mod 8 \<and> 0 \<le> dbuf r \<and> dbuf r < 2 ^ k"

abbreviation slow_at :: "huffman \<Rightarrow> nat \<Rightarrow> nat \<Rightarrow> dregs \<Rightarrow> nat \<Rightarrow> state \<Rightarrow> int puffm" where
  "slow_at h n len r k s \<equiv> decode_slow_loop h n len (dcode r) (dfirst r) (dindex r)
     (s\<lparr>bitbuf := dbuf r, bitcnt := int k\<rparr>)"

lemma bitcnt_and7: "(x - (int len - 1)) mod 8 = int (Suc k) mod 8 \<Longrightarrow> k < 8 \<Longrightarrow> (x - int len) AND 7 = int k"
proof -
  assume a: "(x - (int len - 1)) mod 8 = int (Suc k) mod 8" and k: "k < 8"
  have "(x - int len) AND 7 = (x - int len) mod 8"
    using take_bit_eq_mask [of 3 "x - int len"] by (simp add: take_bit_eq_mod mask_eq_exp_minus_1)
  also have "\<dots> = ((x - (int len - 1)) - 1) mod 8"
    by simp
  also have "\<dots> = ((x - (int len - 1)) mod 8 - 1) mod 8"
    by (simp only: mod_diff_left_eq)
  also have "\<dots> = (int (Suc k) - 1) mod 8"
    using a by (simp only: mod_diff_left_eq)
  finally show ?thesis using k by simp
qed

lemma drop_bit1_bound: "0 \<le> (v :: int) \<Longrightarrow> v < 2 * 2 ^ k \<Longrightarrow> drop_bit (Suc 0) v < 2 ^ k"
  by (simp add: drop_bit_eq_div)

lemma regs_ok_step:
  assumes "regs_ok s r (Suc k) len"
  shows "regs_ok s (r\<lparr>dbuf := drop_bit 1 (dbuf r), dcode := c, dfirst := f, dindex := i,
           dlen := dlen r + 1, dnext := dnext r + 1\<rparr>) k (Suc len)"
proof -
  have "(bitcnt s - int len) mod 8 = ((bitcnt s - (int len - 1)) - 1) mod 8"
    by simp
  also have "\<dots> = (int (Suc k) - 1) mod 8"
    using assms by (metis mod_diff_left_eq regs_ok_def)
  finally show ?thesis
    using assms by (auto simp: regs_ok_def drop_bit1_bound)
qed

lemma decode_inner_slow:
  assumes "regs_ok s r k len" "left \<le> k" "k \<le> 8" "left \<le> n"
  shows "case decode_inner h left r s of
      (Inl e, s') \<Rightarrow> fst (slow_at h n len r k s) = Inl e \<and> forget (snd (slow_at h n len r k s)) = forget s'
    | (Inr (Inl sy), s') \<Rightarrow> slow_at h n len r k s = (Inr sy, s')
    | (Inr (Inr r'), s') \<Rightarrow> s' = s \<and> regs_ok s r' (k - left) (len + left) \<and>
        slow_at h n len r k s = slow_at h (n - left) (len + left) r' (k - left) s"
  using assms
proof (induction h left r s arbitrary: k len n rule: decode_inner.induct)
  case (1 h r s)
  then show ?case by simp
next
  case (2 h left r s)
  from "2.prems" obtain k' n' where k: "k = Suc k'" and n: "n = Suc n'"
    by (metis Suc_le_D)
  have ok: "regs_ok s r (Suc k') len" using "2.prems"(1) k by simp
  let ?c = "dcode r OR (dbuf r AND 1)"
  show ?case
  proof (cases "aref (count h) (int len)")
    case None
    then show ?thesis
      using ok by (simp add: k n bits1_buffered unopt_def regs_ok_def Let_def)
  next
    case (Some cnt)
    show ?thesis
    proof (cases "?c - cnt < dfirst r")
      case True
      moreover have "(bitcnt s - int len) AND 7 = int k'"
        using ok "2.prems"(3) k by (intro bitcnt_and7) (auto simp: regs_ok_def)
      ultimately show ?thesis
        using ok Some
        by (auto simp: k n bits1_buffered unopt_def regs_ok_def Let_def split: option.splits)
    next
      case False
      let ?r = "r\<lparr>dbuf := drop_bit 1 (dbuf r), dcode := push_bit 1 ?c, dfirst := push_bit 1 (dfirst r + cnt),
                 dindex := dindex r + cnt, dlen := dlen r + 1, dnext := dnext r + 1\<rparr>"
      have inner: "decode_inner h (Suc left) r s = decode_inner h left ?r s"
        using False Some ok by (simp add: unopt_def regs_ok_def Let_def)
      have slow: "slow_at h n len r k s = slow_at h n' (Suc len) ?r k' s"
        using False Some by (simp add: k n bits1_buffered unopt_def Let_def)
      have "case decode_inner h left ?r s of
          (Inl e, s') \<Rightarrow> fst (slow_at h n' (Suc len) ?r k' s) = Inl e \<and>
             forget (snd (slow_at h n' (Suc len) ?r k' s)) = forget s'
        | (Inr (Inl sy), s') \<Rightarrow> slow_at h n' (Suc len) ?r k' s = (Inr sy, s')
        | (Inr (Inr r'), s') \<Rightarrow> s' = s \<and> regs_ok s r' (k' - left) (Suc len + left) \<and>
            slow_at h n' (Suc len) ?r k' s = slow_at h (n' - left) (Suc len + left) r' (k' - left) s"
        using "2.IH" [of ?c "drop_bit 1 (dbuf r)" cnt s k' "Suc len" n'] False Some ok "2.prems" k n
          regs_ok_step [OF ok] by (simp add: unopt_def regs_ok_def)
      then show ?thesis
        unfolding inner slow by (simp only: k n diff_Suc_Suc add_Suc add_Suc_right)
    qed
  qed
qed

text \<open>With no bits left the slow version reads the next byte as well.\<close>

lemma slow_reload:
  assumes "regs_ok s r 0 len" "n = 16 - len" "len < 16" "incnt s \<noteq> inlen s"
  defines "s' \<equiv> s\<lparr>incnt := incnt s + 1\<rparr>" and "r' \<equiv> r\<lparr>dbuf := uint (in_byte s (incnt s))\<rparr>"
  shows "regs_ok s' r' 8 len" "slow_at h n len r 0 s = slow_at h n len r' 8 s'"
proof -
  have "uint (in_byte s (incnt s)) < 2 ^ 8"
    using uint_lt2p [of "in_byte s (incnt s)"] by simp
  then show "regs_ok s' r' 8 len" using assms(1) by (auto simp: regs_ok_def s'_def r'_def)
  have "n = Suc (15 - len)" using assms(2,3) by arith
  moreover have "dbuf r = 0" using assms(1) by (simp add: regs_ok_def)
  ultimately show "slow_at h n len r 0 s = slow_at h n len r' 8 s'"
    using assms(4) by (simp add: bits1_load s'_def r'_def)
qed

lemma slow_input_end:
  assumes "regs_ok s r 0 len" "n = 16 - len" "len < 16" "incnt s = inlen s"
  shows "agree (Inl Longjmp, s) (slow_at h n len r 0 s)"
proof -
  have "n = Suc (15 - len)" using assms(2,3) by arith
  moreover have "dbuf r = 0" using assms(1) by (simp add: regs_ok_def)
  ultimately show ?thesis using assms(4) by (simp add: agree_def bits1_load)
qed

lemma decode_outer_slow:
  assumes "regs_ok s r k len" "k \<le> 8" "len \<le> 16" "left = int (min k (16 - len))" "n = 16 - len"
    "k = 0 \<or> k < 8 \<or> len \<le> 15"
  shows "agree (decode_outer h left r s) (slow_at h n len r k s)"
  using assms
proof (induction h left r s arbitrary: k len n rule: decode_outer.induct)
  case (1 h left r s)
  let ?l = "min k (16 - len)"
  have unf: "decode_outer h left r s = bindE (decode_inner h ?l r s) (\<lambda>res s.
          case res of
            Inl sy \<Rightarrow> (Inr sy, s)
          | Inr r \<Rightarrow>
              let left = int MAXBITS + 1 - dlen r in
              if left = 0 then (Inr (- 10), s)
              else if incnt s = inlen s then (Inl Longjmp, s)
              else decode_outer h (min left 8) (r\<lparr>dbuf := uint (in_byte s (incnt s))\<rparr>)
                     (s\<lparr>incnt := incnt s + 1\<rparr>))"
    using "1.prems"(4) by (subst decode_outer.simps) (simp only: nat_int of_nat_less_0_iff if_False)
  have inner: "case decode_inner h ?l r s of
      (Inl e, s') \<Rightarrow> fst (slow_at h n len r k s) = Inl e \<and> forget (snd (slow_at h n len r k s)) = forget s'
    | (Inr (Inl sy), s') \<Rightarrow> slow_at h n len r k s = (Inr sy, s')
    | (Inr (Inr r'), s') \<Rightarrow> s' = s \<and> regs_ok s r' (k - ?l) (len + ?l) \<and>
        slow_at h n len r k s = slow_at h (n - ?l) (len + ?l) r' (k - ?l) s"
    using "1.prems" by (intro decode_inner_slow) auto
  consider (inl) e s1 where "decode_inner h ?l r s = (Inl e, s1)" | (sym) sy s1 where "decode_inner h ?l r s = (Inr (Inl sy), s1)"
    | (more) r1 s1 where "decode_inner h ?l r s = (Inr (Inr r1), s1)"
    by (cases "decode_inner h ?l r s"; cases "fst (decode_inner h ?l r s)"; cases "projr (fst (decode_inner h ?l r s))") auto
  then show ?case
  proof cases
    case inl
    then show ?thesis using inner by (simp add: unf agree_def)
  next
    case sym
    then show ?thesis using inner by (simp add: unf)
  next
    case more
    then have s1: "s1 = s" and ok: "regs_ok s r1 (k - ?l) (len + ?l)"
      and slow: "slow_at h n len r k s = slow_at h (n - ?l) (len + ?l) r1 (k - ?l) s"
      using inner by auto
    have dl: "dlen r1 = int (len + ?l)" using ok by (simp add: regs_ok_def)
    show ?thesis
    proof (cases "len + ?l = 16")
      case True
      then have "n - ?l = 0" using "1.prems" by simp
      then show ?thesis using more True dl s1 by (simp add: unf slow agree_def)
    next
      case False
      then have lk: "?l = k" and lt: "len + k < 16" using "1.prems"(3) by auto
      have ok': "regs_ok s r1 0 (len + k)" "n - k = 16 - (len + k)" using ok lk lt "1.prems"(5) by auto
      show ?thesis
      proof (cases "incnt s = inlen s")
        case True
        then show ?thesis
          using more False dl s1 lk slow_input_end [OF ok' lt True] by (simp add: unf slow del: of_nat_add)
      next
        case go: False
        let ?s = "s\<lparr>incnt := incnt s + 1\<rparr>" and ?r = "r1\<lparr>dbuf := uint (in_byte s (incnt s))\<rparr>"
        have "agree (decode_outer h (min (int MAXBITS + 1 - dlen r1) 8) ?r ?s) (slow_at h (n - k) (len + k) ?r 8 ?s)"
        proof (rule "1.IH" [of "Inr r1" s r1 "int MAXBITS + 1 - dlen r1" 8 "len + k" "n - k"])
          show "decode_inner h (nat left) r s = (Inr (Inr r1), s)" using more s1 "1.prems"(4) by simp
        qed (use slow_reload(1) [OF ok' lt go] lt go dl lk "1.prems"(4,5) in auto)
        then show ?thesis
          using more False go s1 dl lk slow slow_reload(2) [OF ok' lt go] by (simp add: unf)
      qed
    qed
  qed
qed

lemma decode_eq_slow:
  assumes "wf_bits s"
  shows "agree (decode h s) (decode_slow h s)"
proof -
  obtain c where c: "bitcnt s = int c" "c < 8" "0 \<le> bitbuf s" "bitbuf s < 2 ^ c"
    using assms by (metis nat_int wf_bits_def zero_le_imp_eq_int of_nat_less_iff of_nat_numeral)
  let ?r = "\<lparr>dbuf = bitbuf s, dcode = 0, dfirst = 0, dindex = 0, dlen = 1, dnext = 1\<rparr>"
  have "agree (decode_outer h (int c) ?r s) (slow_at h 15 1 ?r c s)"
    by (rule decode_outer_slow [where len = 1]) (use c in \<open>auto simp: regs_ok_def\<close>)
  moreover have "s\<lparr>bitcnt := int c\<rparr> = s" using c by (cases s) simp
  ultimately show ?thesis
    using c by (simp add: decode_def decode_slow_def)
qed

end
