(* ===== verification/Puff_Huffman.thy ===== *)
theory Puff_Huffman
  imports Puff_Stream
begin

text \<open>
  Canonical Huffman codes (RFC 1951, 3.2.2) and the tables of \<open>construct()\<close>. For the number
  \<open>c l\<close> of codes of each length, \<open>cfirst\<close> is the first code of a length, \<open>coff\<close> the place of its
  first symbol in the table, \<open>cleft\<close> the number of unused codes. \<open>walk\<close> is the canonical
  decoder on a list of bits, and \<open>decode()\<close> implements it on the stream (\<open>decode_walk\<close>).
  \<open>construct_spec\<close> says what table \<open>construct()\<close> builds and what it returns.
\<close>

subsection \<open>Canonical codes\<close>

fun cfirst :: "(nat \<Rightarrow> int) \<Rightarrow> nat \<Rightarrow> int" where
  "cfirst c 0 = 0"
| "cfirst c (Suc l) = 2 * (cfirst c l + c l)"

fun coff :: "(nat \<Rightarrow> int) \<Rightarrow> nat \<Rightarrow> int" where
  "coff c 0 = 0"
| "coff c (Suc l) = coff c l + c l"

fun cleft :: "(nat \<Rightarrow> int) \<Rightarrow> nat \<Rightarrow> int" where
  "cleft c 0 = 1"
| "cleft c (Suc l) = 2 * cleft c l - c (Suc l)"

definition nonneg :: "(nat \<Rightarrow> int) \<Rightarrow> bool" where
  "nonneg c \<longleftrightarrow> c 0 = 0 \<and> (\<forall>l. 0 \<le> c l)"

fun walk :: "(nat \<Rightarrow> int) \<Rightarrow> nat \<Rightarrow> nat \<Rightarrow> int \<Rightarrow> bool list \<Rightarrow> (int option \<times> bool list) option" where
  "walk c 0 len x bs = Some (None, bs)"
| "walk c (Suc n) len x [] = None"
| "walk c (Suc n) len x (b # bs) =
     (let x = 2 * x + of_bool b in
      if x < cfirst c len + c len then Some (Some (coff c len + (x - cfirst c len)), bs)
      else walk c n (Suc len) x bs)"

text \<open>The \<open>l\<close> bits of a code, most significant bit first, as they come in the stream.\<close>

definition code_bits :: "int \<Rightarrow> nat \<Rightarrow> bool list" where
  "code_bits v l = map (bit v) (rev [0..<l])"

lemma cfirst_nonneg: "nonneg c \<Longrightarrow> 0 \<le> cfirst c l"
  by (induction l) (auto simp: nonneg_def)

lemma coff_mono: "nonneg c \<Longrightarrow> l \<le> l' \<Longrightarrow> coff c l \<le> coff c l'"
  by (induction l' ) (auto simp: le_Suc_eq nonneg_def intro: order_trans)

lemma coff_nonneg: "nonneg c \<Longrightarrow> 0 \<le> coff c l"
  using coff_mono [of c 0 l] by simp

lemma first_count_left: "c 0 = 0 \<Longrightarrow> cfirst c l + c l + cleft c l = 2 ^ l"
  by (induction l) auto

lemma cfirst_scale:
  assumes "nonneg c" "j \<le> l"
  shows "2 ^ (l - j) * cfirst c j \<le> cfirst c l"
  using assms(2)
proof (induction l rule: dec_induct)
  case (step l)
  have "2 ^ (Suc l - j) * cfirst c j = 2 * (2 ^ (l - j) * cfirst c j)"
    using step by (simp add: Suc_diff_le)
  also have "\<dots> \<le> 2 * (cfirst c l + c l)"
    using step.IH assms(1) by (simp add: nonneg_def add_increasing2)
  finally show ?case by simp
qed simp

lemma walk_index:
  assumes "nonneg c" "walk c n len x bs = Some (Some k, bs')" "cfirst c len \<le> 2 * x"
  shows "0 \<le> k \<and> k < coff c (len + n)"
  using assms
proof (induction c n len x bs rule: walk.induct)
  case (3 c n len x b bs)
  let ?x = "2 * x + of_bool b"
  show ?case
  proof (cases "?x < cfirst c len + c len")
    case True
    moreover from this "3.prems" have "k = coff c len + (?x - cfirst c len)"
      by (simp add: Let_def)
    moreover have "coff c (Suc len) \<le> coff c (len + Suc n)"
      using "3.prems"(1) by (intro coff_mono) auto
    ultimately show ?thesis
      using "3.prems" coff_nonneg [OF "3.prems"(1), of len] by (auto split: if_splits)
  next
    case False
    with "3.prems" have "walk c n (Suc len) ?x bs = Some (Some k, bs')" by (simp add: Let_def)
    with False "3.IH" "3.prems"(1) show ?thesis by simp
  qed
qed auto

text \<open>A code of length \<open>l\<close> is found after exactly \<open>l\<close> bits.\<close>

lemma code_bits_Cons: "code_bits v (Suc l) = bit v l # code_bits v l"
  by (simp add: code_bits_def)

lemma walk_code_aux:
  assumes "nonneg c" "cfirst c l \<le> v" "v < cfirst c l + c l" "len + j = Suc l" "j \<le> n" "1 \<le> len"
  shows "walk c n len (drop_bit j v) (code_bits v j @ bs) =
    (if j = 0 then walk c n len v bs else Some (Some (coff c l + (v - cfirst c l)), bs))"
  using assms(4-6)
proof (induction j arbitrary: n len)
  case (Suc j)
  then obtain n' where n: "n = Suc n'" by (cases n) auto
  have x: "2 * drop_bit (Suc j) v + of_bool (bit v j) = drop_bit j v"
    by (simp add: drop_bit_Suc drop_bit_half bit_iff_odd_drop_bit)
  show ?case
  proof (cases j)
    case 0
    then show ?thesis using Suc.prems assms(3) x by (simp add: n code_bits_Cons code_bits_def)
  next
    case (Suc i)
    have l: "len < l" "l - len = j" using Suc.prems Suc by auto
    have "2 ^ (l - Suc len) * cfirst c (Suc len) \<le> v"
      using cfirst_scale [OF assms(1), of "Suc len" l] l assms(2) by simp
    moreover have "l - Suc len = i" using l Suc by simp
    ultimately have "2 ^ j * (cfirst c len + c len) \<le> v"
      using Suc by (simp add: algebra_simps)
    then have "(2 ^ j * (cfirst c len + c len)) div 2 ^ j \<le> v div 2 ^ j"
      by (rule zdiv_mono1) simp
    then have "\<not> drop_bit j v < cfirst c len + c len"
      by (simp add: drop_bit_eq_div)
    then show ?thesis
      using Suc.IH [of "Suc len" n'] Suc.prems Suc x by (simp add: n code_bits_Cons Let_def)
  qed
qed (simp add: code_bits_def)

lemma walk_code:
  assumes "nonneg c" "cfirst c l \<le> v" "v < cfirst c l + c l" "v < 2 ^ l" "1 \<le> l" "l \<le> n"
  shows "walk c n 1 0 (code_bits v l @ bs) = Some (Some (coff c l + (v - cfirst c l)), bs)"
proof -
  have "0 \<le> v" using assms(2) cfirst_nonneg [OF assms(1), of l] by simp
  then have "drop_bit l v = 0" using assms(4) by (simp add: drop_bit_eq_div)
  then show ?thesis using walk_code_aux [OF assms(1-3), of 1 l n bs] assms by simp
qed

text \<open>A complete code decodes every string of enough bits.\<close>

lemma walk_complete_aux:
  assumes "c 0 = 0" "cleft c L = 0" "len + n = Suc L" "x < 2 ^ (len - 1)" "1 \<le> len" "1 \<le> n"
  shows "walk c n len x bs \<noteq> Some (None, bs')"
  using assms
proof (induction c n len x bs rule: walk.induct)
  case (3 c n len x b bs)
  let ?x = "2 * x + of_bool b"
  have "2 * x + 2 \<le> 2 * 2 ^ (len - 1)" using "3.prems"(4) by simp
  also have "\<dots> = 2 ^ len" using "3.prems"(5) by (cases len) auto
  finally have x: "?x < 2 ^ len" by simp
  show ?case
  proof (cases n)
    case 0
    then have "cfirst c len + c len = 2 ^ len"
      using first_count_left [of c len] "3.prems" by simp
    then show ?thesis using x by (simp add: Let_def)
  next
    case (Suc m)
    then show ?thesis using "3.IH" [OF refl] "3.prems" x by (simp add: Let_def)
  qed
qed auto

lemma walk_complete:
  assumes "c 0 = 0" "cleft c n = 0" "1 \<le> n"
  shows "walk c n 1 0 bs \<noteq> Some (None, bs')"
  using walk_complete_aux [of c n 1 n 0 bs bs'] assms by simp

subsection \<open>decode() walks the canonical code\<close>

definition cnt_of :: "huffman \<Rightarrow> nat \<Rightarrow> int" where
  "cnt_of h l = (if l = 0 \<or> 15 < l then 0 else count h ! l)"

text \<open>
  A usable table for symbols below \<open>n\<close>: sixteen counts, none negative, and a symbol for
  every code.
\<close>

definition table_ok :: "huffman \<Rightarrow> int \<Rightarrow> bool" where
  "table_ok h n \<longleftrightarrow> length (count h) = 16 \<and> nonneg (cnt_of h) \<and>
     coff (cnt_of h) 16 \<le> int (length (symbol h)) \<and>
     (\<forall>k. int k < coff (cnt_of h) 16 \<longrightarrow> 0 \<le> symbol h ! k \<and> symbol h ! k < n)"

lemma input_step_refl [simp]: "input_step s s"
  by (simp add: input_step_def)

lemma input_step_trans: "input_step s t \<Longrightarrow> input_step t u \<Longrightarrow> input_step s u"
  by (cases s; cases t; cases u) (auto simp: input_step_def)

lemma push_bit_or_bit: "push_bit 1 x OR of_bool b = 2 * x + (of_bool b :: int)"
proof -
  have "push_bit 1 x OR of_bool b = push_bit 1 x + of_bool b"
    by (intro disjunctive_add [symmetric]) (auto simp: bit_of_bool_iff bit_0)
  then show ?thesis by simp
qed

lemma val_of_singleton [simp]: "val_of [b] = of_bool b"
  by (simp add: val_of_def)

lemma decode_slow_loop_walk:
  assumes "wf_bits s" "table_ok h m" "len + n = 16" "1 \<le> len" "cfirst (cnt_of h) len \<le> 2 * x"
  shows "case walk (cnt_of h) n len x (stream s) of
      None \<Rightarrow> \<exists>s'. decode_slow_loop h n len (push_bit 1 x) (cfirst (cnt_of h) len) (coff (cnt_of h) len) s
               = (Inl Longjmp, s') \<and> input_step s s'
    | Some (None, bs) \<Rightarrow>
        \<exists>s'. decode_slow_loop h n len (push_bit 1 x) (cfirst (cnt_of h) len) (coff (cnt_of h) len) s
               = (Inr (- 10), s') \<and> input_step s s' \<and> stream s' = bs
    | Some (Some k, bs) \<Rightarrow>
        \<exists>s'. decode_slow_loop h n len (push_bit 1 x) (cfirst (cnt_of h) len) (coff (cnt_of h) len) s
               = (Inr (symbol h ! nat k), s') \<and> input_step s s' \<and> wf_bits s' \<and> stream s' = bs"
  using assms
proof (induction n arbitrary: len x s)
  case (Suc n)
  let ?c = "cnt_of h"
  show ?case
  proof (cases "stream s")
    case Nil
    then obtain s' where "bits s 1 = (Inl Longjmp, s')" "input_step s s'"
      using bits_spec [OF Suc.prems(1), of 1] by auto
    then show ?thesis using Nil by simp
  next
    case (Cons b bs)
    then obtain s1 where b1: "bits s 1 = (Inr (of_bool b), s1)" and s1: "stream s1 = bs" "wf_bits s1" "input_step s s1"
      using bits_spec [OF Suc.prems(1), of 1] by auto
    let ?x = "2 * x + of_bool b"
    have code: "push_bit 1 x OR of_bool b = ?x" by (rule push_bit_or_bit)
    have cnt: "aref (count h) (int len) = Some (?c len)"
      using Suc.prems by (simp add: table_ok_def cnt_of_def)
    show ?thesis
    proof (cases "?x < cfirst ?c len + ?c len")
      case True
      let ?k = "coff ?c len + (?x - cfirst ?c len)"
      have w: "walk ?c (Suc n) len x (stream s) = Some (Some ?k, bs)"
        using True Cons by simp
      have k: "0 \<le> ?k \<and> ?k < coff ?c 16"
        using walk_index [OF _ w, unfolded Suc.prems(3)] Suc.prems(2,5) by (simp only: table_ok_def)
      then have "aref (symbol h) ?k = Some (symbol h ! nat ?k)"
        using Suc.prems(2) by (auto simp: aref_def table_ok_def)
      then show ?thesis
        unfolding w using True b1 s1 code cnt by (auto simp: unopt_def Let_def)
    next
      case False
      have w: "walk ?c (Suc n) len x (stream s) = walk ?c n (Suc len) ?x (stream s1)"
        using False Cons s1 by simp
      have d: "decode_slow_loop h (Suc n) len (push_bit 1 x) (cfirst ?c len) (coff ?c len) s =
          decode_slow_loop h n (Suc len) (push_bit 1 ?x) (cfirst ?c (Suc len)) (coff ?c (Suc len)) s1"
        using False b1 code cnt by (simp add: unopt_def Let_def algebra_simps)
      have "cfirst ?c (Suc len) \<le> 2 * ?x" using False by simp
      then show ?thesis
        unfolding w d
        using Suc.IH [of s1 "Suc len" ?x] Suc.prems s1
        by (fastforce split: option.splits intro: input_step_trans)
    qed
  qed
qed auto

lemma decode_walk:
  assumes "wf_bits s" "table_ok h m"
  shows "case walk (cnt_of h) 15 1 0 (stream s) of
      None \<Rightarrow> \<exists>s'. decode h s = (Inl Longjmp, s') \<and> input_step s s'
    | Some (None, bs) \<Rightarrow> \<exists>s'. decode h s = (Inr (- 10), s') \<and> input_step s s'
    | Some (Some k, bs) \<Rightarrow>
        \<exists>s'. decode h s = (Inr (symbol h ! nat k), s') \<and> input_step s s' \<and> wf_bits s' \<and> stream s' = bs
          \<and> 0 \<le> symbol h ! nat k \<and> symbol h ! nat k < m"
proof -
  let ?w = "walk (cnt_of h) 15 1 0 (stream s)"
  have one: "cfirst (cnt_of h) 1 = 0" "coff (cnt_of h) 1 = 0" "push_bit 1 (0 :: int) = 0"
    by (simp_all add: cnt_of_def)
  have slow: "case ?w of
      None \<Rightarrow> \<exists>s'. decode_slow h s = (Inl Longjmp, s') \<and> input_step s s'
    | Some (None, bs) \<Rightarrow> \<exists>s'. decode_slow h s = (Inr (- 10), s') \<and> input_step s s' \<and> stream s' = bs
    | Some (Some k, bs) \<Rightarrow> \<exists>s'. decode_slow h s = (Inr (symbol h ! nat k), s') \<and> input_step s s' \<and>
        wf_bits s' \<and> stream s' = bs"
    using decode_slow_loop_walk [OF assms, of 1 15 0, unfolded one]
    unfolding decode_slow_def by simp
  have agr: "fst (decode h s) = fst (decode_slow h s)"
    "forget (snd (decode h s)) = forget (snd (decode_slow h s))"
    "\<And>v. fst (decode h s) = Inr v \<Longrightarrow> v \<noteq> - 10 \<Longrightarrow> snd (decode h s) = snd (decode_slow h s)"
    using decode_eq_slow [OF assms(1), of h] by (auto simp: agree_def)
  have inp: "input_step s (snd (decode h s))" if "input_step s (snd (decode_slow h s))"
    using that agr(2)
    by (cases s; cases "snd (decode h s)"; cases "snd (decode_slow h s)") (auto simp: input_step_def forget_def)
  show ?thesis
  proof (cases ?w)
    case None
    with slow inp agr(1) show ?thesis by (cases "decode h s") auto
  next
    case (Some kb)
    obtain ko bs where kb: "kb = (ko, bs)" by (cases kb)
    show ?thesis
    proof (cases ko)
      case None
      with slow inp agr(1) Some kb show ?thesis by (cases "decode h s") auto
    next
      case ko: (Some k)
      have k: "0 \<le> k \<and> k < coff (cnt_of h) 16"
        using walk_index [of "cnt_of h" 15 1 0 "stream s" k bs, unfolded one] Some kb ko assms(2)
        by (simp add: table_ok_def del: coff.simps One_nat_def)
      then have sy: "0 \<le> symbol h ! nat k" "symbol h ! nat k < m"
        using assms(2) by (auto simp: table_ok_def)
      from slow Some kb ko obtain s' where "decode_slow h s = (Inr (symbol h ! nat k), s')"
        "input_step s s'" "wf_bits s'" "stream s' = bs" by auto
      then show ?thesis
        using agr(1,3) sy Some kb ko by (cases "decode h s") auto
    qed
  qed
qed

subsection \<open>construct()\<close>

definition lens_ok :: "int list \<Rightarrow> nat \<Rightarrow> bool" where
  "lens_ok ls n \<longleftrightarrow> n \<le> length ls \<and> (\<forall>i<n. 0 \<le> ls ! i \<and> ls ! i \<le> 15)"

text \<open>The symbols below \<open>n\<close> that have a code of length \<open>l\<close>, in order.\<close>

definition syms :: "int list \<Rightarrow> nat \<Rightarrow> nat \<Rightarrow> nat list" where
  "syms ls n l = filter (\<lambda>i. ls ! i = int l) [0..<n]"

definition ncode :: "int list \<Rightarrow> nat \<Rightarrow> nat \<Rightarrow> int" where
  "ncode ls n l = int (length (syms ls n l))"

lemma syms_0 [simp]: "syms ls 0 l = []" and ncode_0 [simp]: "ncode ls 0 l = 0"
  by (simp_all add: syms_def ncode_def)

lemma syms_Suc: "syms ls (Suc n) l = syms ls n l @ (if ls ! n = int l then [n] else [])"
  by (simp add: syms_def)

lemma ncode_Suc: "ncode ls (Suc n) l = ncode ls n l + of_bool (ls ! n = int l)"
  by (simp add: ncode_def syms_Suc)

lemma ncode_nonneg [simp]: "0 \<le> ncode ls n l"
  by (simp add: ncode_def)

lemma ncode_mono: "i \<le> n \<Longrightarrow> ncode ls i l \<le> ncode ls n l"
  by (induction n) (auto simp: le_Suc_eq ncode_Suc)

lemma set_syms: "i \<in> set (syms ls n l) \<longleftrightarrow> i < n \<and> ls ! i = int l"
  by (auto simp: syms_def)

lemma lens_ok_nth: "lens_ok ls n \<Longrightarrow> i < n \<Longrightarrow> \<exists>l \<le> 15. ls ! i = int l"
  by (metis lens_ok_def nat_0_le nat_le_iff of_nat_numeral)

lemma sum_ncode: "lens_ok ls n \<Longrightarrow> (\<Sum>l<16. ncode ls n l) = int n"
proof (induction n)
  case (Suc n)
  then have ok: "lens_ok ls n" by (simp add: lens_ok_def)
  obtain l where l: "l \<le> 15" "ls ! n = int l" using lens_ok_nth [OF Suc.prems, of n] by auto
  have "(\<Sum>k<16. of_bool (ls ! n = int k)) = (\<Sum>k<16. if k = l then 1 else 0 :: int)"
    using l by (intro sum.cong) auto
  also have "\<dots> = 1" using l by simp
  finally show ?case using Suc.IH ok by (simp add: ncode_Suc sum.distrib del: sum.lessThan_Suc)
qed simp

lemma coff_sum: "coff c l = (\<Sum>k<l. c k)"
  by (induction l) auto

lemma coff_find: "0 \<le> k \<Longrightarrow> k < coff c L \<Longrightarrow> \<exists>l<L. coff c l \<le> k \<and> k < coff c l + c l"
proof (induction L)
  case (Suc L)
  show ?case
  proof (cases "k < coff c L")
    case True
    with Suc show ?thesis by (meson less_SucI)
  next
    case False
    with Suc.prems show ?thesis by auto
  qed
qed simp

lemma coff_disjoint:
  assumes "nonneg c" "k < c l" "k' < c l'" "coff c l + k = coff c l' + k'" "0 \<le> k" "0 \<le> k'"
  shows "l = l' \<and> k = k'"
proof (cases l l' rule: linorder_cases)
  case less
  then show ?thesis using coff_mono [OF assms(1), of "Suc l" l'] assms by simp
next
  case greater
  then show ?thesis using coff_mono [OF assms(1), of "Suc l'" l] assms by simp
qed (use assms in simp)

lemma count_loop:
  assumes "lens_ok ls n"
  shows "\<exists>cnt. for_each (count_step ls) [0..<n] (replicate 16 0) = Some cnt \<and> length cnt = 16 \<and>
    (\<forall>l<16. cnt ! l = ncode ls n l)"
proof -
  let ?I = "\<lambda>i cnt. length cnt = 16 \<and> (\<forall>l<16. cnt ! l = ncode ls i l)"
  have "\<exists>cnt'. count_step ls i cnt = Some cnt' \<and> ?I (Suc i) cnt'" if i: "i < n" and I: "?I i cnt" for i cnt
  proof -
    obtain l where l: "l \<le> 15" "ls ! i = int l" using lens_ok_nth [OF assms i] by auto
    moreover have "i < length ls" using i assms by (simp add: lens_ok_def)
    ultimately show ?thesis
      using I by (auto simp: count_step_def nth_list_update ncode_Suc)
  qed
  then show ?thesis
    by (intro for_each_upt_rule [where I = ?I]) auto
qed

lemma left_loop_spec:
  assumes "length cnt = 16" "\<And>l. 1 \<le> l \<Longrightarrow> l \<le> 15 \<Longrightarrow> cnt ! l = c l"
    "len + n = 16" "1 \<le> len" "left = cleft c (len - 1)"
  shows "\<exists>r. left_loop cnt n len left = Some r \<and>
    (if r < 0 then \<exists>k\<le>15. r = cleft c k
     else r = cleft c 15 \<and> (\<forall>k. len \<le> k \<and> k \<le> 15 \<longrightarrow> 0 \<le> cleft c k))"
  using assms(3-5)
proof (induction n arbitrary: len left)
  case (Suc n)
  have c: "cnt ! len = c len" using Suc.prems assms(2) by simp
  obtain m where m: "len = Suc m" using Suc.prems by (cases len) auto
  have nxt: "push_bit 1 left - c len = cleft c len" using Suc.prems m by simp
  show ?case
  proof (cases "cleft c len < 0")
    case True
    then show ?thesis
      using Suc.prems c assms(1) nxt by (auto simp: Let_def intro: exI [of _ len])
  next
    case False
    obtain r where r: "left_loop cnt n (Suc len) (cleft c len) = Some r"
      "if r < 0 then \<exists>k\<le>15. r = cleft c k
       else r = cleft c 15 \<and> (\<forall>k. Suc len \<le> k \<and> k \<le> 15 \<longrightarrow> 0 \<le> cleft c k)"
      using Suc.IH [of "Suc len" "cleft c len"] Suc.prems by auto
    have "left_loop cnt (Suc n) len left = Some r"
      using r(1) False c nxt Suc.prems assms(1) by (simp add: Let_def)
    moreover have "0 \<le> cleft c k" if "0 \<le> r" "len \<le> k" "k \<le> 15" for k
      using r(2) that False by (cases "k = len") auto
    ultimately show ?thesis using r(2) by (auto split: if_splits)
  qed
qed (auto intro: exI [of _ 15])

lemma offs_loop:
  assumes "length cnt = 16" "\<And>l. 1 \<le> l \<Longrightarrow> l \<le> 15 \<Longrightarrow> cnt ! l = c l" "c 0 = 0"
  shows "\<exists>offs. for_each (offs_step cnt) [1..<15] (replicate 16 0) = Some offs \<and> length offs = 16 \<and>
    (\<forall>l. 1 \<le> l \<and> l \<le> 15 \<longrightarrow> offs ! l = coff c l)"
proof -
  let ?I = "\<lambda>i offs. length offs = 16 \<and> (\<forall>l. 1 \<le> l \<and> l \<le> i \<longrightarrow> offs ! l = coff c l)"
  have "\<exists>offs'. offs_step cnt i offs = Some offs' \<and> ?I (Suc i) offs'"
    if "1 \<le> i" "i < 15" "?I i offs" for i offs
  proof -
    have "offs_step cnt i offs = Some (offs[Suc i := coff c i + c i])"
      using that assms(1,2) by (simp add: offs_step_def aset_def nat_add_distrib)
    with that show ?thesis by (auto simp: nth_list_update le_Suc_eq)
  qed
  then have "\<exists>offs. for_each (offs_step cnt) [1..<15] (replicate 16 0) = Some offs \<and> ?I 15 offs"
    using assms(3) by (intro for_each_upt_rule [where I = ?I]) (auto simp: le_Suc_eq)
  then show ?thesis by blast
qed

text \<open>
  The sorting loop: after the symbols below \<open>i\<close>, block \<open>l\<close> of the table starts with those of
  them that have length \<open>l\<close>, and \<open>offs[l]\<close> points behind them.
\<close>

definition sorted_upto :: "int list \<Rightarrow> (nat \<Rightarrow> int) \<Rightarrow> nat \<Rightarrow> nat \<Rightarrow> int list \<times> int list \<Rightarrow> bool" where
  "sorted_upto ls c N i os \<longleftrightarrow> length (fst os) = 16 \<and> length (snd os) = N \<and>
     (\<forall>l. 1 \<le> l \<and> l \<le> 15 \<longrightarrow> fst os ! l = coff c l + ncode ls i l) \<and>
     (\<forall>l k. 1 \<le> l \<and> l \<le> 15 \<and> k < length (syms ls i l) \<longrightarrow>
        snd os ! (nat (coff c l) + k) = int (syms ls i l ! k))"

lemma symbol_step_sorted:
  assumes ok: "lens_ok ls n" and c: "nonneg c" "\<And>l. 1 \<le> l \<Longrightarrow> l \<le> 15 \<Longrightarrow> c l = ncode ls n l"
    and N: "coff c 16 \<le> int N" and i: "i < n" and I: "sorted_upto ls c N i os"
  shows "\<exists>os'. symbol_step ls i os = Some os' \<and> sorted_upto ls c N (Suc i) os'"
proof -
  obtain offs tab where os: "os = (offs, tab)" by (cases os)
  obtain l where l: "l \<le> 15" "ls ! i = int l" using lens_ok_nth [OF ok i] by auto
  have il: "i < length ls" using i ok by (simp add: lens_ok_def)
  show ?thesis
  proof (cases "l = 0")
    case True
    then have "symbol_step ls i os = Some os"
      using l il by (simp add: symbol_step_def os)
    moreover have "ncode ls (Suc i) k = ncode ls i k" "syms ls (Suc i) k = syms ls i k" if "1 \<le> k" for k
      using that True l by (auto simp: ncode_Suc syms_Suc)
    ultimately show ?thesis using I by (auto simp: sorted_upto_def)
  next
    case False
    let ?k = "coff c l + ncode ls i l"
    have lt: "ncode ls i l < c l"
      using False l i ncode_mono [of "Suc i" n ls l] c(2) [of l] by (simp add: ncode_Suc)
    have k0: "0 \<le> ?k" using coff_nonneg [OF c(1), of l] by simp
    have kN: "nat ?k < N"
      using coff_mono [OF c(1), of "Suc l" 16] l(1) lt N k0 by simp
    have oL: "length offs = 16" "length tab = N" "offs ! l = ?k"
      using I False l(1) by (auto simp: sorted_upto_def os)
    have step: "symbol_step ls i os = Some (offs[l := ?k + 1], tab[nat ?k := int i])"
      using l il False k0 kN oL by (simp add: symbol_step_def os aset_def)
    have blk: "nat (coff c l') + k' = nat ?k \<longleftrightarrow> l' = l \<and> k' = length (syms ls i l)"
      if "1 \<le> l'" "l' \<le> 15" "k' < length (syms ls (Suc i) l')" for l' k'
    proof -
      have "int k' < c l'"
        using that i ncode_mono [of "Suc i" n ls l'] c(2) [of l'] by (simp add: ncode_def)
      then show ?thesis
        using coff_disjoint [OF c(1), of "int k'" l' "ncode ls i l" l] lt k0
          coff_nonneg [OF c(1), of l'] coff_nonneg [OF c(1), of l]
        by (auto simp: ncode_def nat_add_distrib)
    qed
    have "(tab[nat ?k := int i]) ! (nat (coff c l') + k') = int (syms ls (Suc i) l' ! k')"
      if "1 \<le> l'" "l' \<le> 15" "k' < length (syms ls (Suc i) l')" for l' k'
    proof (cases "l' = l \<and> k' = length (syms ls i l)")
      case True
      then show ?thesis
        using blk [OF that] kN oL(2) l(2) by (simp add: syms_Suc)
    next
      case neq: False
      then have k': "k' < length (syms ls i l')"
        using that(3) l(2) by (auto simp: syms_Suc split: if_splits)
      have "(tab[nat ?k := int i]) ! (nat (coff c l') + k') = tab ! (nat (coff c l') + k')"
        using blk [OF that] neq by simp
      with k' that(1,2) I show ?thesis
        by (simp add: sorted_upto_def os syms_Suc nth_append)
    qed
    moreover have "(offs[l := ?k + 1]) ! l' = coff c l' + ncode ls (Suc i) l'"
      if "1 \<le> l'" "l' \<le> 15" for l'
      using I that l oL by (auto simp: sorted_upto_def os ncode_Suc nth_list_update)
    ultimately show ?thesis
      using step oL by (simp add: sorted_upto_def)
  qed
qed

text \<open>
  What \<open>construct()\<close> promises: the counts; a negative result only for an over-subscribed set of
  lengths; otherwise the number of unused codes, and the symbols sorted by length, in symbol
  order within each length.
\<close>

definition code_table :: "int list \<Rightarrow> nat \<Rightarrow> huffman \<Rightarrow> bool" where
  "code_table ls n h \<longleftrightarrow>
     (\<forall>l k. 1 \<le> l \<and> l \<le> 15 \<and> k < length (syms ls n l) \<longrightarrow>
        symbol h ! (nat (coff (cnt_of h) l) + k) = int (syms ls n l ! k))"

definition construct_post :: "int list \<Rightarrow> nat \<Rightarrow> huffman \<Rightarrow> int \<Rightarrow> huffman \<Rightarrow> bool" where
  "construct_post ls n h left h' \<longleftrightarrow>
     length (count h') = 16 \<and> (\<forall>l<16. count h' ! l = ncode ls n l) \<and>
     length (symbol h') = length (symbol h) \<and>
     (if ncode ls n 0 = int n then left = 0
      else if left < 0 then \<exists>k\<le>15. left = cleft (cnt_of h') k
      else left = cleft (cnt_of h') 15 \<and> (\<forall>k\<le>15. 0 \<le> cleft (cnt_of h') k)) \<and>
     (0 \<le> left \<longrightarrow> code_table ls n h')"

lemma cnt_of_ncode:
  assumes "\<forall>l<16. count h ! l = ncode ls n l"
  shows "nonneg (cnt_of h)" "\<And>l. 1 \<le> l \<Longrightarrow> l \<le> 15 \<Longrightarrow> cnt_of h l = ncode ls n l"
  using assms by (auto simp: nonneg_def cnt_of_def)

lemma coff_16:
  assumes "lens_ok ls n" "\<forall>l<16. count h ! l = ncode ls n l"
  shows "coff (cnt_of h) 16 = int n - ncode ls n 0"
proof -
  have "coff (cnt_of h) 16 = (\<Sum>l<16. cnt_of h l)" by (rule coff_sum)
  also have "\<dots> = (\<Sum>l<16. ncode ls n l - (if l = 0 then ncode ls n 0 else 0))"
    using assms(2) by (intro sum.cong) (auto simp: cnt_of_def)
  also have "\<dots> = int n - ncode ls n 0"
    using sum_ncode [OF assms(1)] by (simp add: sum_subtractf del: sum.lessThan_Suc)
  finally show ?thesis .
qed

lemma construct_spec:
  assumes ok: "lens_ok ls n" and N: "n \<le> length (symbol h)"
  shows "\<exists>left h'. construct h ls n = Some (left, h') \<and> construct_post ls n h left h'"
proof -
  obtain cnt where cnt: "for_each (count_step ls) [0..<n] (replicate 16 0) = Some cnt"
    "length cnt = 16" "\<forall>l<16. cnt ! l = ncode ls n l"
    using count_loop [OF ok] by blast
  let ?h = "h\<lparr>count := cnt\<rparr>"
  let ?c = "cnt_of ?h"
  have c: "nonneg ?c" "\<And>l. 1 \<le> l \<Longrightarrow> l \<le> 15 \<Longrightarrow> ?c l = ncode ls n l"
    using cnt_of_ncode [of ?h] cnt(3) by auto
  have c0: "?c 0 = 0" by (simp add: cnt_of_def)
  have cl: "\<And>l. 1 \<le> l \<Longrightarrow> l \<le> 15 \<Longrightarrow> cnt ! l = ?c l" by (simp add: cnt_of_def)
  have total: "coff ?c 16 \<le> int (length (symbol h))"
    using coff_16 [OF ok, of ?h] cnt(3) N by (simp add: add_increasing2 diff_le_eq)
  show ?thesis
  proof (cases "ncode ls n 0 = int n")
    case True
    then have all0: "syms ls n l = []" if "1 \<le> l" "l \<le> 15" for l
    proof -
      have "?c l \<le> 0"
        using coff_mono [OF c(1), of "Suc l" 16] coff_nonneg [OF c(1), of l] that
          coff_16 [OF ok, of ?h] cnt(3) True by simp
      then show ?thesis using c(2) [OF that] by (simp add: ncode_def)
    qed
    have "construct h ls n = Some (0, ?h)"
      using cnt True by (simp add: construct_def)
    moreover have "construct_post ls n h 0 ?h"
      using cnt True all0 by (auto simp: construct_post_def code_table_def)
    ultimately show ?thesis by blast
  next
    case some: False
    obtain left where left: "left_loop cnt 15 1 1 = Some left"
      "if left < 0 then \<exists>k\<le>15. left = cleft ?c k
       else left = cleft ?c 15 \<and> (\<forall>k. 1 \<le> k \<and> k \<le> 15 \<longrightarrow> 0 \<le> cleft ?c k)"
      using left_loop_spec [OF cnt(2) cl, of 1 15 1] by auto
    show ?thesis
    proof (cases "left < 0")
      case True
      then have "construct h ls n = Some (left, ?h)"
        using cnt left some by (simp add: construct_def)
      moreover have "construct_post ls n h left ?h"
        using cnt left True some by (simp add: construct_post_def)
      ultimately show ?thesis by blast
    next
      case False
      obtain offs where offs: "for_each (offs_step cnt) [1..<15] (replicate 16 0) = Some offs"
        "length offs = 16" "\<forall>l. 1 \<le> l \<and> l \<le> 15 \<longrightarrow> offs ! l = coff ?c l"
        using offs_loop [OF cnt(2) cl c0] by blast
      obtain os where os: "for_each (symbol_step ls) [0..<n] (offs, symbol h) = Some os"
        "sorted_upto ls ?c (length (symbol h)) n os"
        using for_each_upt_rule [of 0 n "sorted_upto ls ?c (length (symbol h))" "(offs, symbol h)" "symbol_step ls"]
          symbol_step_sorted [OF ok c total] offs by (auto simp: sorted_upto_def)
      let ?h' = "?h\<lparr>symbol := snd os\<rparr>"
      have same: "cnt_of ?h' = ?c" by (rule ext) (simp add: cnt_of_def)
      have "construct h ls n = Some (left, ?h')"
        using cnt left some False offs(1) os(1) by (cases os) (simp add: construct_def Let_def)
      moreover have "construct_post ls n h left ?h'"
        using cnt left some False os(2) same
        by (auto simp: construct_post_def code_table_def sorted_upto_def Suc_le_eq) (metis neq0_conv cleft.simps(1) zero_le_one)
      ultimately show ?thesis by blast
    qed
  qed
qed

lemma construct_table_ok:
  assumes "lens_ok ls n" "n \<le> length (symbol h)" "construct_post ls n h left h'" "0 \<le> left"
  shows "table_ok h' (int n)"
proof -
  have cnt: "\<forall>l<16. count h' ! l = ncode ls n l" "length (count h') = 16"
    and tab: "code_table ls n h'" and len: "length (symbol h') = length (symbol h)"
    using assms(3,4) by (auto simp: construct_post_def)
  note c = cnt_of_ncode [OF cnt(1)]
  have "0 \<le> symbol h' ! k \<and> symbol h' ! k < int n" if k: "int k < coff (cnt_of h') 16" for k
  proof -
    obtain l where l: "l < 16" "coff (cnt_of h') l \<le> int k" "int k < coff (cnt_of h') l + cnt_of h' l"
      using coff_find [OF _ k] by auto
    have l1: "1 \<le> l" using l(2,3) by (cases l) (auto simp: cnt_of_def)
    let ?j = "k - nat (coff (cnt_of h') l)"
    have j: "?j < length (syms ls n l)" "nat (coff (cnt_of h') l) + ?j = k"
      using l c(2) [OF l1] coff_nonneg [OF c(1), of l] by (auto simp: ncode_def)
    then have "symbol h' ! k = int (syms ls n l ! ?j)"
      using tab [unfolded code_table_def, rule_format, of l ?j] l1 l(1) by simp
    then show ?thesis
      using nth_mem [OF j(1)] by (simp add: set_syms)
  qed
  moreover have "coff (cnt_of h') 16 \<le> int (length (symbol h'))"
    using coff_16 [OF assms(1) cnt(1)] assms(2) len by (simp add: add_increasing2 diff_le_eq)
  ultimately show ?thesis using cnt(2) c(1) by (simp add: table_ok_def)
qed

lemma ncode_filter: "ncode ls (length ls) l = int (length (filter (\<lambda>x. x = int l) ls))"
proof -
  have "ncode ls n l = int (length (filter (\<lambda>x. x = int l) (take n ls)))" if "n \<le> length ls" for n
    using that by (induction n) (auto simp: ncode_Suc take_Suc_conv_app_nth)
  from this [of "length ls"] show ?thesis by simp
qed

text \<open>\<open>construct()\<close> on lengths that are not over-subscribed, by their counts.\<close>

lemma construct_total:
  assumes "lens_ok ls n" "n \<le> length (symbol h)"
    and "\<And>k. k \<le> 15 \<Longrightarrow> 0 \<le> cleft (\<lambda>l. if l = 0 \<or> 15 < l then 0 else ncode ls n l) k"
  shows "\<exists>left h'. construct h ls n = Some (left, h') \<and> 0 \<le> left \<and> construct_post ls n h left h' \<and>
    table_ok h' (int n)"
proof -
  obtain left h' where c: "construct h ls n = Some (left, h')" and p: "construct_post ls n h left h'"
    using construct_spec [OF assms(1,2)] by blast
  have "cnt_of h' = (\<lambda>l. if l = 0 \<or> 15 < l then 0 else ncode ls n l)"
    using p by (auto simp: construct_post_def cnt_of_def fun_eq_iff)
  note cnt = this
  have "0 \<le> left"
  proof (rule ccontr)
    assume neg: "\<not> 0 \<le> left"
    then obtain k where "k \<le> 15" "left = cleft (cnt_of h') k"
      using p by (auto simp: construct_post_def split: if_splits)
    with neg assms(3) [of k] cnt show False by simp
  qed
  then show ?thesis
    using c p construct_table_ok [OF assms(1,2)] by blast
qed

lemma all_le_15: "list_all P [0..<16] \<Longrightarrow> k \<le> 15 \<Longrightarrow> P k"
  by (auto simp: list_all_iff)

lemma fixed_len_table:
  "\<exists>left h'. construct \<lparr>count = replicate (MAXBITS + 1) 0, symbol = replicate FIXLCODES 0\<rparr>
     fixed_lengths FIXLCODES = Some (left, h') \<and> table_ok h' 288"
proof -
  have len: "length fixed_lengths = 288" by (simp add: fixed_lengths_def)
  have n: "ncode fixed_lengths 288 l = (if l = 7 then 24 else if l = 8 then 152 else if l = 9 then 112 else 0)" for l
    using ncode_filter [of fixed_lengths l] unfolding len by (auto simp: fixed_lengths_def)
  have "lens_ok fixed_lengths 288"
    using len by (auto simp: lens_ok_def fixed_lengths_def nth_append)
  moreover have "0 \<le> cleft (\<lambda>l. if l = 0 \<or> 15 < l then 0 else ncode fixed_lengths 288 l) k" if "k \<le> 15" for k
    using that unfolding n by (rule all_le_15 [rotated]) code_simp
  ultimately show ?thesis
    using construct_total [of fixed_lengths 288 "\<lparr>count = replicate (MAXBITS + 1) 0, symbol = replicate FIXLCODES 0\<rparr>"]
    by force
qed

lemma fixed_dist_table:
  "\<exists>left h'. construct \<lparr>count = replicate (MAXBITS + 1) 0, symbol = replicate MAXDCODES 0\<rparr>
     (replicate MAXDCODES 5) MAXDCODES = Some (left, h') \<and> table_ok h' 30"
proof -
  have n: "ncode (replicate 30 5) 30 l = (if l = 5 then 30 else 0)" for l
    using ncode_filter [of "replicate 30 5" l] by auto
  have "lens_ok (replicate 30 5) 30" by (auto simp: lens_ok_def)
  moreover have "0 \<le> cleft (\<lambda>l. if l = 0 \<or> 15 < l then 0 else ncode (replicate 30 5) 30 l) k" if "k \<le> 15" for k
    using that unfolding n by (rule all_le_15 [rotated]) code_simp
  ultimately show ?thesis
    using construct_total [of "replicate 30 5" 30 "\<lparr>count = replicate (MAXBITS + 1) 0, symbol = replicate MAXDCODES 0\<rparr>"]
    by force
qed

lemma fixed_build_ok:
  "\<exists>f. fixed_build = Some f \<and> \<not> virgin f \<and> table_ok (lencode_st f) 288 \<and> table_ok (distcode_st f) 30"
  using fixed_len_table fixed_dist_table by (auto simp: fixed_build_def)

subsection \<open>What the bit reader and the decoder do\<close>

text \<open>The canonical code of symbol \<open>i\<close>: the first code of its length plus its place among the symbols of this length.\<close>

definition canonical_code :: "int list \<Rightarrow> nat \<Rightarrow> nat \<Rightarrow> int" where
  "canonical_code ls n i =
     cfirst (\<lambda>l. if l = 0 \<or> 15 < l then 0 else ncode ls n l) (nat (ls ! i)) + int (length (syms ls i (nat (ls ! i))))"

lemma syms_nth:
  assumes "i < n" "ls ! i = int l"
  shows "length (syms ls i l) < length (syms ls n l)" "syms ls n l ! length (syms ls i l) = i"
proof -
  have "[0..<n] = [0..<i] @ i # [Suc i..<n]" 
    using upt_add_eq_append [of 0 i "n - i"] upt_conv_Cons [of i n] assms(1) by simp
  then have "syms ls n l = syms ls i l @ i # filter (\<lambda>i. ls ! i = int l) [Suc i..<n]" using assms(2) by (simp add: syms_def)
  then show "length (syms ls i l) < length (syms ls n l)" "syms ls n l ! length (syms ls i l) = i" by simp_all
qed

lemma huffman_decode:
  assumes ok: "lens_ok ls n" "n \<le> length (symbol h)" and con: "construct h ls n = Some (left, h')" "0 \<le> left"
    and i: "i < n" "ls ! i = int l" "1 \<le> l" and s: "wf_bits s" "stream s = code_bits (canonical_code ls n i) l @ bs"
  shows "\<exists>s'. decode h' s = (Inr (int i), s') \<and> stream s' = bs \<and> wf_bits s' \<and> input_step s s'"
proof -
  have post: "construct_post ls n h left h'" using construct_spec [OF ok] con(1) by auto
  have cnt: "\<forall>l<16. count h' ! l = ncode ls n l" and tab: "code_table ls n h'" using post con(2) by (auto simp: construct_post_def)
  have c: "cnt_of h' = (\<lambda>l. if l = 0 \<or> 15 < l then 0 else ncode ls n l)" using cnt by (auto simp: cnt_of_def fun_eq_iff)
  note nn = cnt_of_ncode(1) [OF cnt]
  have l: "l \<le> 15" using ok(1) i by (force simp: lens_ok_def)
  let ?k = "length (syms ls i l)"
  have k: "?k < length (syms ls n l)" "syms ls n l ! ?k = i" using syms_nth [OF i(1,2)] by simp_all
  have v: "canonical_code ls n i = cfirst (cnt_of h') l + int ?k" using i(2) by (simp add: canonical_code_def c)
  have "ncode ls n 0 \<noteq> int n"
  proof
    assume "ncode ls n 0 = int n"
    then have "coff (cnt_of h') 16 = 0" using coff_16 [OF ok(1) cnt] by simp
    then have "cnt_of h' l \<le> 0" using coff_mono [OF nn, of "Suc l" 16] coff_nonneg [OF nn, of l] l by simp
    then show False using k(1) i(3) l by (simp add: c ncode_def)
  qed
  then have "0 \<le> cleft (cnt_of h') l" using post con(2) l by (simp add: construct_post_def)
  moreover have "cnt_of h' l = int (length (syms ls n l))" using i(3) l by (simp add: c ncode_def)
  ultimately have lt: "canonical_code ls n i < cfirst (cnt_of h') l + cnt_of h' l" "canonical_code ls n i < 2 ^ l"
    using k(1) v first_count_left [of "cnt_of h'" l] by (simp_all add: cnt_of_def)
  have "walk (cnt_of h') 15 1 0 (stream s) = Some (Some (coff (cnt_of h') l + int ?k), bs)"
    using walk_code [OF nn _ lt i(3) l, of bs] v s(2) by simp
  moreover have "symbol h' ! nat (coff (cnt_of h') l + int ?k) = int i"
    using tab [unfolded code_table_def, rule_format, of l ?k] k i(3) l coff_nonneg [OF nn, of l] by (simp add: nat_add_distrib)
  ultimately show ?thesis using decode_walk [OF s(1) construct_table_ok [OF ok post con(2)]] by auto
qed

text \<open>
  C7. A symbol that is coded with the canonical code for its table of lengths (RFC 1951, 3.2.2) is
  decoded again: after \<open>construct()\<close> has accepted the lengths, \<open>decode()\<close> on a stream that starts with
  the code of symbol \<open>i\<close> returns \<open>i\<close> and takes exactly the bits of the code.
\<close>

theorem huffman_roundtrip:
  assumes ok: "lens_ok ls n" "n \<le> length (symbol h)" and con: "construct h ls n = Some (left, h')" "0 \<le> left"
    and i: "i < n" "ls ! i = int l" "1 \<le> l" and s: "wf_bits s" "stream s = code_bits (canonical_code ls n i) l @ bs"
  shows "\<exists>s'. decode h' s = (Inr (int i), s') \<and> stream s' = bs \<and> wf_bits s' \<and> input_step s s'"
  by (rule huffman_decode [OF assms])

text \<open>Three bits of input: the code of the symbol 2 for the lengths 2, 1, 3, 3.\<close>

definition example_state :: state where
  "example_state = \<lparr>mem = \<lambda>_. 3, fx = fixed_init, stk = \<lambda>_. 0, out = 0, outlen = 0, outcnt = 0, inp = 0, inlen = 1, incnt = 0,
     bitbuf = 0, bitcnt = 0\<rparr>"

lemma example_stream: "wf_bits example_state" "stream example_state = [True, True, False, False, False, False, False, False]"
  by (simp_all add: wf_bits_def example_state_def stream_def rest_bits_def buf_bits_def byte_bits_def bytes_def upt_rec bit_numeral_rec)

lemma example_construct:
  "construct \<lparr>count = replicate 16 0, symbol = replicate 4 0\<rparr> [2, 1, 3, 3] 4 =
     Some (0, \<lparr>count = [0, 1, 1, 2, 0, 0, 0, 0, 0, 0, 0, 0, 0, 0, 0, 0], symbol = [1, 0, 2, 3]\<rparr>)"
  by code_simp

theorem huffman_roundtrip_witness:
  "\<exists>s'. decode \<lparr>count = [0, 1, 1, 2, 0, 0, 0, 0, 0, 0, 0, 0, 0, 0, 0, 0], symbol = [1, 0, 2, 3]\<rparr> example_state = (Inr 2, s') \<and>
     stream s' = [False, False, False, False, False]"
proof -
  have "lens_ok [2, 1, 3, 3] 4" by (simp add: lens_ok_def numeral_eq_Suc less_Suc_eq all_conj_distrib)
  moreover have "code_bits (canonical_code [2, 1, 3, 3] 4 2) 3 = [True, True, False]" by code_simp
  ultimately show ?thesis
    using huffman_roundtrip [OF _ _ example_construct, where i = 2 and l = 3 and s = example_state and bs = "[False, False, False, False, False]"]
      example_stream by auto
qed

text \<open>
  C8. The fast decoder, which works on the bit buffer and fetches whole bytes, returns the same as the
  decoder that asks for every bit, and leaves the same state whenever it returns a symbol.
\<close>

theorem decode_fast_slow:
  assumes "wf_bits s"
  shows "agree (decode h s) (decode_slow h s)"
  by (rule decode_eq_slow [OF assms])

theorem decode_fast_slow_witness:
  "agree (decode \<lparr>count = [0, 1, 1, 2, 0, 0, 0, 0, 0, 0, 0, 0, 0, 0, 0, 0], symbol = [1, 0, 2, 3]\<rparr> example_state)
     (decode_slow \<lparr>count = [0, 1, 1, 2, 0, 0, 0, 0, 0, 0, 0, 0, 0, 0, 0, 0], symbol = [1, 0, 2, 3]\<rparr> example_state)"
  by (rule decode_fast_slow) (rule example_stream)

text \<open>
  C9. \<open>bits()\<close> returns the number made of the next \<open>n\<close> bits of the stream, least significant bit first,
  and moves the stream on by them; if there are fewer, it ends with \<open>longjmp()\<close> at the end of the input.
  The number of bits is at most 24, so that the bytes shifted into the 32 bits of a \<open>long\<close> are not cut off.
\<close>

theorem bits_next:
  assumes "wf_bits s" "n \<le> 24"
  shows "if n \<le> length (stream s)
    then \<exists>s'. bits s (int n) = (Inr (val_of (take n (stream s))), s') \<and> stream s' = drop n (stream s) \<and> wf_bits s' \<and> input_step s s'
    else \<exists>s'. bits s (int n) = (Inl Longjmp, s') \<and> input_step s s' \<and> incnt s' = inlen s"
  by (rule bits_spec [OF assms])

theorem bits_next_witness: "\<exists>s'. bits example_state 3 = (Inr 3, s') \<and> stream s' = [False, False, False, False, False]"
  using bits_next [OF example_stream(1), of 3, simplified] example_stream(2) by (auto simp: val_of_def)

end
