(* ===== verification/Puff_Safety.thy ===== *)
theory Puff_Safety
  imports Puff_Huffman
begin

text \<open>
  Memory safety and termination of the decoder. \<open>frame s s'\<close>: from \<open>s\<close> to \<open>s'\<close> only the output
  area changed. \<open>bounds\<close>: the counters stay inside the buffers, which are at least 64KB smaller
  than the address space (otherwise \<open>s->outcnt + len\<close> wraps). \<open>ok_run\<close>: a function of
  \<open>puff.c\<close> returns one of its documented codes, or leaves by \<open>longjmp\<close>; it never indexes outside
  an array and never runs out of fuel. All of it holds for every memory, also when source and
  destination overlap, and for arbitrary contents of the uninitialised arrays.
\<close>

definition size_ok :: "u32 \<Rightarrow> bool" where
  "size_ok n \<longleftrightarrow> unat n \<le> 2 ^ 32 - 2 ^ 16"

definition writable :: "state \<Rightarrow> u32 set" where
  "writable s = (if out s = NIL then {} else region (out s) (unat (outlen s)))"

definition frame :: "state \<Rightarrow> state \<Rightarrow> bool" where
  "frame s s' \<longleftrightarrow> out s' = out s \<and> outlen s' = outlen s \<and> inp s' = inp s \<and> inlen s' = inlen s \<and>
     stk s' = stk s \<and> (\<forall>x. x \<notin> writable s \<longrightarrow> mem s' x = mem s x)"

definition bounds :: "state \<Rightarrow> bool" where
  "bounds s \<longleftrightarrow> incnt s \<le> inlen s \<and> size_ok (inlen s) \<and>
     (out s \<noteq> NIL \<longrightarrow> outcnt s \<le> outlen s \<and> size_ok (outlen s)) \<and>
     (virgin (fx s) \<or> fixed_build = Some (fx s))"

definition sinv :: "state \<Rightarrow> bool" where
  "sinv s \<longleftrightarrow> wf_bits s \<and> bounds s"

definition jumped :: "state \<Rightarrow> puff_exn \<Rightarrow> state \<Rightarrow> bool" where
  "jumped s e s' \<longleftrightarrow> e = Longjmp \<and> frame s s' \<and> bounds s'"

definition ok_run :: "int set \<Rightarrow> state \<Rightarrow> int puffm \<Rightarrow> bool" where
  "ok_run E s r \<longleftrightarrow>
     post (\<lambda>err s'. frame s s' \<and> bounds s' \<and> err \<in> E \<and> (err = 0 \<longrightarrow> sinv s' \<and> bits_left s' < bits_left s))
       (jumped s) r"

lemma frame_refl [simp]: "frame s s"
  by (simp add: frame_def)

lemma frame_trans: "frame s t \<Longrightarrow> frame t u \<Longrightarrow> frame s u"
  by (auto simp: frame_def writable_def)

lemma jumped_trans: "frame s t \<Longrightarrow> jumped t e u \<Longrightarrow> jumped s e u"
  by (auto simp: jumped_def intro: frame_trans)

lemma ok_run_trans:
  assumes "ok_run E t r" "frame s t" "bits_left t \<le> bits_left s" "E \<subseteq> E'"
  shows "ok_run E' s r"
  using assms(1) unfolding ok_run_def
  by (rule post_mono) (use assms(2-4) in \<open>auto intro: frame_trans jumped_trans\<close>)

lemma sinvD [dest]: "sinv s \<Longrightarrow> bounds s"
  by (simp add: sinv_def)

lemma sinv_wf_bits: "sinv s \<Longrightarrow> wf_bits s"
  by (simp add: sinv_def)

lemma input_step_frame: "input_step s s' \<Longrightarrow> bounds s \<Longrightarrow> frame s s' \<and> bounds s'"
  by (cases s; cases s') (auto simp: input_step_def frame_def bounds_def)

subsection \<open>Reading input\<close>

lemma bits_safe:
  assumes "sinv s" "n \<le> 24"
  shows "post (\<lambda>v s'. 0 \<le> v \<and> v < 2 ^ n \<and> sinv s' \<and> frame s s' \<and> bits_left s' + n = bits_left s)
    (jumped s) (bits s (int n))"
proof (cases "n \<le> length (stream s)")
  case True
  then obtain s' where s': "bits s (int n) = (Inr (val_of (take n (stream s))), s')"
    "stream s' = drop n (stream s)" "wf_bits s'" "input_step s s'"
    using bits_spec [OF sinv_wf_bits [OF assms(1)] assms(2)] by auto
  moreover have "bits_left s' + n = bits_left s"
    using s'(2) True by (simp add: length_stream [symmetric])
  ultimately show ?thesis
    using val_of_bounds [of "take n (stream s)"] input_step_frame [of s s'] assms True
    by (simp add: sinv_def min_def split: if_splits)
next
  case False
  then obtain s' where "bits s (int n) = (Inl Longjmp, s')" "input_step s s'"
    using bits_spec [OF sinv_wf_bits [OF assms(1)] assms(2)] by auto
  then show ?thesis
    using input_step_frame [of s s'] assms by (simp add: jumped_def sinv_def)
qed

lemma walk_consumes: "walk c n len x bs = Some (Some k, bs') \<Longrightarrow> length bs' < length bs"
  by (induction c n len x bs rule: walk.induct) (auto simp: Let_def split: if_splits)

lemma decode_safe:
  assumes "sinv s" "table_ok h m"
  shows "post (\<lambda>v s'. frame s s' \<and> bounds s' \<and>
      (v = - 10 \<or> 0 \<le> v \<and> v < m \<and> sinv s' \<and> bits_left s' < bits_left s))
    (jumped s) (decode h s)"
proof -
  note d = decode_walk [OF sinv_wf_bits [OF assms(1)] assms(2)]
  show ?thesis
  proof (cases "walk (cnt_of h) 15 1 0 (stream s)")
    case None
    then obtain s' where "decode h s = (Inl Longjmp, s')" "input_step s s'"
      using d by auto
    then show ?thesis
      using input_step_frame [of s s'] assms by (simp add: jumped_def sinv_def)
  next
    case (Some kb)
    obtain ko bs where kb: "kb = (ko, bs)" by (cases kb)
    show ?thesis
    proof (cases ko)
      case None
      then obtain s' where "decode h s = (Inr (- 10), s')" "input_step s s'"
        using d Some kb by auto
      then show ?thesis
        using input_step_frame [of s s'] assms by (simp add: sinv_def)
    next
      case ko: (Some k)
      then obtain s' where s': "decode h s = (Inr (symbol h ! nat k), s')" "input_step s s'"
        "wf_bits s'" "stream s' = bs" "0 \<le> symbol h ! nat k" "symbol h ! nat k < m"
        using d Some kb by auto
      moreover have "bits_left s' < bits_left s"
        using walk_consumes [of "cnt_of h" 15 1 0 "stream s" k bs] Some kb ko s'(4)
        by (simp add: length_stream [symmetric])
      ultimately show ?thesis
        using input_step_frame [of s s'] assms by (simp add: sinv_def)
    qed
  qed
qed

subsection \<open>Writing output\<close>

lemma writable_offset: "out s \<noteq> NIL \<Longrightarrow> unat i < unat (outlen s) \<Longrightarrow> out s + i \<in> writable s"
  by (simp add: writable_def region_word_offset)

lemma copy_back_eq:
  assumes "out s \<noteq> NIL" "unat (outcnt s) + n \<le> unat (outlen s)"
  shows "\<exists>m. copy_back n d s = s\<lparr>mem := m, outcnt := outcnt s + of_nat n\<rparr> \<and>
    (\<forall>x. x \<notin> writable s \<longrightarrow> m x = mem s x)"
  using assms
proof (induction n arbitrary: s)
  case 0
  then show ?case by (intro exI [of _ "mem s"]) simp
next
  case (Suc n)
  let ?s = "(put_out s (outcnt s) (mem s (out s + (outcnt s - d))))\<lparr>outcnt := outcnt s + 1\<rparr>"
  have cnt: "unat (outcnt s + 1) = unat (outcnt s) + 1"
    using Suc.prems(2) unat32_less [of "outlen s"] by (subst unat_add_small) auto
  obtain m where m: "copy_back n d ?s = ?s\<lparr>mem := m, outcnt := outcnt ?s + of_nat n\<rparr>"
    "\<forall>x. x \<notin> writable ?s \<longrightarrow> m x = mem ?s x"
    using Suc.IH [of ?s] Suc.prems cnt by (auto simp: put_out_def)
  have w: "writable ?s = writable s" by (simp add: writable_def put_out_def)
  have "out s + outcnt s \<in> writable s"
    using Suc.prems by (intro writable_offset) auto
  then have "\<forall>x. x \<notin> writable s \<longrightarrow> m x = mem s x"
    using m(2) w by (auto simp: put_out_def)
  then show ?case
    using m(1) by (intro exI [of _ m]) (simp add: put_out_def add.assoc)
qed

lemma stored_copy_eq:
  assumes "out s \<noteq> NIL" "unat (outcnt s) + n \<le> unat (outlen s)"
  shows "\<exists>m. stored_copy n s = s\<lparr>mem := m, outcnt := outcnt s + of_nat n, incnt := incnt s + of_nat n\<rparr> \<and>
    (\<forall>x. x \<notin> writable s \<longrightarrow> m x = mem s x)"
  using assms
proof (induction n arbitrary: s)
  case 0
  then show ?case by (intro exI [of _ "mem s"]) simp
next
  case (Suc n)
  let ?s = "(put_out s (outcnt s) (in_byte s (incnt s)))\<lparr>outcnt := outcnt s + 1, incnt := incnt s + 1\<rparr>"
  have cnt: "unat (outcnt s + 1) = unat (outcnt s) + 1"
    using Suc.prems(2) unat32_less [of "outlen s"] by (subst unat_add_small) auto
  obtain m where m: "stored_copy n ?s = ?s\<lparr>mem := m, outcnt := outcnt ?s + of_nat n, incnt := incnt ?s + of_nat n\<rparr>"
    "\<forall>x. x \<notin> writable ?s \<longrightarrow> m x = mem ?s x"
    using Suc.IH [of ?s] Suc.prems cnt by (auto simp: put_out_def)
  have w: "writable ?s = writable s" by (simp add: writable_def put_out_def)
  have "out s + outcnt s \<in> writable s"
    using Suc.prems by (intro writable_offset) auto
  then have "\<forall>x. x \<notin> writable s \<longrightarrow> m x = mem s x"
    using m(2) w by (auto simp: put_out_def)
  then show ?case
    using m(1) by (intro exI [of _ m]) (simp add: put_out_def add.assoc)
qed

lemma literal_safe:
  assumes "sinv s"
  shows "post (\<lambda>r s'. frame s s' \<and> bounds s' \<and>
      (r = Inl 1 \<or> r = Inr sy \<and> sinv s' \<and> bits_left s' = bits_left s)) (jumped s) (literal sy s)"
proof -
  have "outcnt s \<noteq> outlen s \<Longrightarrow> out s \<noteq> NIL \<Longrightarrow> outcnt s + 1 \<le> outlen s"
    using assms incnt_step [of "outcnt s" "outlen s"] by (auto simp: sinv_def bounds_def)
  moreover have "outcnt s \<noteq> outlen s \<Longrightarrow> out s \<noteq> NIL \<Longrightarrow> out s + outcnt s \<in> writable s"
    using assms by (intro writable_offset) (auto simp: sinv_def bounds_def word_le_nat_alt word_unat_eq_iff)
  ultimately show ?thesis
    using assms
    by (auto simp: literal_def put_out_def frame_def sinv_def bounds_def wf_bits_def bits_left_def)
qed

lemma lens_lext:
  assumes "0 \<le> sy" "sy < 29"
  shows "\<exists>b e. aref lens sy = Some b \<and> aref lext sy = Some (int e) \<and> 3 \<le> b \<and> b \<le> 258 \<and> e \<le> 5"
proof -
  have "list_all (\<lambda>i. 3 \<le> lens ! i \<and> lens ! i \<le> 258 \<and> 0 \<le> lext ! i \<and> lext ! i \<le> 5) [0..<29]"
    by code_simp
  then have "3 \<le> lens ! nat sy \<and> lens ! nat sy \<le> 258 \<and> 0 \<le> lext ! nat sy \<and> lext ! nat sy \<le> 5"
    using assms by (simp add: list_all_iff)
  moreover have "length lens = 29" "length lext = 29" by (simp_all add: lens_def lext_def)
  ultimately show ?thesis
    using assms by (intro exI [of _ "lens ! nat sy"] exI [of _ "nat (lext ! nat sy)"]) (auto simp: aref_def)
qed

lemma dists_dext:
  assumes "0 \<le> sy" "sy < 30"
  shows "\<exists>b e. aref dists sy = Some b \<and> aref dext sy = Some (int e) \<and> 1 \<le> b \<and> b \<le> 24577 \<and> e \<le> 13"
proof -
  have "list_all (\<lambda>i. 1 \<le> dists ! i \<and> dists ! i \<le> 24577 \<and> 0 \<le> dext ! i \<and> dext ! i \<le> 13) [0..<30]"
    by code_simp
  then have "1 \<le> dists ! nat sy \<and> dists ! nat sy \<le> 24577 \<and> 0 \<le> dext ! nat sy \<and> dext ! nat sy \<le> 13"
    using assms by (simp add: list_all_iff)
  moreover have "length dists = 30" "length dext = 30" by (simp_all add: dists_def dext_def)
  ultimately show ?thesis
    using assms by (intro exI [of _ "dists ! nat sy"] exI [of _ "nat (dext ! nat sy)"]) (auto simp: aref_def)
qed

lemma unopt_simps [simp]:
  "unopt (Some x) s = (Inr x, s)" "unopt None s = (Inl OutOfBounds, s)"
  by (simp_all add: unopt_def)

lemma room_for:
  assumes "bounds s" "out s \<noteq> NIL" "n < 2 ^ 16" "\<not> outcnt s + of_nat n > outlen s"
  shows "unat (outcnt s) + n \<le> unat (outlen s)" "outcnt s + of_nat n \<le> outlen s"
proof -
  have "unat (of_nat n :: u32) = n" using assms(3) by (simp add: unat_of_nat take_bit_nat_eq_self)
  moreover from this have "unat (outcnt s + of_nat n) = unat (outcnt s) + n"
    using assms(1-3) by (subst unat_add_small) (auto simp: bounds_def size_ok_def word_le_nat_alt)
  ultimately show "unat (outcnt s) + n \<le> unat (outlen s)" "outcnt s + of_nat n \<le> outlen s"
    using assms(4) by (auto simp: word_less_nat_alt word_le_nat_alt)
qed

lemma copy_back_safe:
  assumes "sinv s" "out s \<noteq> NIL" "n < 2 ^ 16" "\<not> outcnt s + of_nat n > outlen s"
  shows "frame s (copy_back n d s) \<and> sinv (copy_back n d s) \<and> bits_left (copy_back n d s) = bits_left s"
proof -
  note r = room_for [OF sinvD [OF assms(1)] assms(2-4)]
  obtain m where "copy_back n d s = s\<lparr>mem := m, outcnt := outcnt s + of_nat n\<rparr>"
    "\<forall>x. x \<notin> writable s \<longrightarrow> m x = mem s x"
    using copy_back_eq [OF assms(2) r(1)] by blast
  then show ?thesis
    using r(2) assms(1)
    by (auto simp: frame_def sinv_def bounds_def wf_bits_def bits_left_def)
qed

definition match_ok :: "state \<Rightarrow> int + int \<Rightarrow> state \<Rightarrow> bool" where
  "match_ok s r s' \<longleftrightarrow> frame s s' \<and> bounds s' \<and>
     (r \<in> Inl ` {1, - 10, - 11} \<or>
      (\<exists>d. r = Inr d \<and> 0 \<le> d \<and> d < 30 \<and> sinv s' \<and> bits_left s' \<le> bits_left s))"

lemma match_ok_trans: "frame s t \<Longrightarrow> bits_left t \<le> bits_left s \<Longrightarrow> match_ok t r u \<Longrightarrow> match_ok s r u"
  by (auto simp: match_ok_def intro: frame_trans)

lemma copy_match_safe:
  assumes "sinv s" "0 \<le> len" "len < 2 ^ 16" "0 \<le> d" "d < 30"
  shows "post (match_ok s) (jumped s) (copy_match d len dist s)"
proof -
  have small: "nat len < 2 ^ 16" and len: "word_of_int len = (of_nat (nat len) :: u32)"
    using assms(2,3) by auto
  have nil: "sinv (s\<lparr>outcnt := x\<rparr>) \<and> frame s (s\<lparr>outcnt := x\<rparr>) \<and> bits_left (s\<lparr>outcnt := x\<rparr>) = bits_left s"
    if "out s = NIL" for x
    using that assms(1) by (auto simp: sinv_def bounds_def wf_bits_def bits_left_def frame_def)
  show ?thesis
    using assms copy_back_safe [OF assms(1) _ small] nil
    unfolding copy_match_def len by (auto simp: match_ok_def)
qed

lemma read_dist_safe:
  assumes "sinv s" "table_ok distcode 30" "0 \<le> len" "len < 2 ^ 16"
  shows "post (match_ok s) (jumped s) (read_dist distcode len s)"
  unfolding read_dist_def post_bindE
proof (rule post_mono [OF decode_safe [OF assms(1,2)]])
  fix d :: int and s2 :: state
  assume d: "frame s s2 \<and> bounds s2 \<and>
    (d = - 10 \<or> 0 \<le> d \<and> d < 30 \<and> sinv s2 \<and> bits_left s2 < bits_left s)"
  show "post (match_ok s) (jumped s) (if d < 0 then (Inr (Inl d), s2)
       else
         bindE (unopt (aref dists d) s2) (\<lambda>base s.
         bindE (unopt (aref dext d) s) (\<lambda>ext s.
         bindE (bits s ext) (\<lambda>b s. copy_match d len (word_of_int (base + b)) s))))"
  proof (cases "d < 0")
    case True
    then show ?thesis using d by (auto simp: match_ok_def)
  next
    case False
    then have d': "0 \<le> d" "d < 30" "sinv s2" using d by auto
    obtain db de where dd: "aref dists d = Some db" "aref dext d = Some (int de)"
      using dists_dext [OF d'(1,2)] by auto
    have "de \<le> 24" using dists_dext [OF d'(1,2)] dd by auto
    have "post (\<lambda>v s3. post (match_ok s) (jumped s) (copy_match d len (word_of_int (db + v)) s3))
        (jumped s) (bits s2 (int de))"
    proof (rule post_mono [OF bits_safe [OF d'(3) \<open>de \<le> 24\<close>]])
      fix v :: int and s3 :: state
      assume "0 \<le> v \<and> v < 2 ^ de \<and> sinv s3 \<and> frame s2 s3 \<and> bits_left s3 + de = bits_left s2"
      then have "sinv s3" "frame s s3" "bits_left s3 \<le> bits_left s"
        using d d' False by (auto intro: frame_trans)
      then show "post (match_ok s) (jumped s) (copy_match d len (word_of_int (db + v)) s3)"
        by (intro post_mono [OF copy_match_safe [OF _ assms(3,4) d'(1,2)]])
           (auto intro: match_ok_trans jumped_trans)
    qed (use d in \<open>blast intro: jumped_trans\<close>)
    then show ?thesis using False dd by simp
  qed
qed

lemma length_dist_safe:
  assumes "sinv s" "table_ok distcode 30" "256 < sy"
  shows "post (match_ok s) (jumped s) (length_dist distcode sy s)"
proof (cases "sy - 257 \<ge> 29")
  case True
  then show ?thesis using assms(1) by (auto simp: length_dist_def match_ok_def)
next
  case False
  then obtain b e where be: "aref lens (sy - 257) = Some b" "aref lext (sy - 257) = Some (int e)"
    "3 \<le> b" "b \<le> 258" "e \<le> 5"
    using lens_lext [of "sy - 257"] assms(3) by auto
  have "(2 :: int) ^ e \<le> 2 ^ 5" using be(5) by (intro power_increasing) auto
  then have "post (\<lambda>v s1. post (match_ok s) (jumped s) (read_dist distcode (b + v) s1)) (jumped s) (bits s (int e))"
    using be
    by (intro post_mono [OF bits_safe [OF assms(1), of e]] post_mono [OF read_dist_safe [OF _ assms(2)]])
       (auto intro: match_ok_trans jumped_trans)
  then show ?thesis using False be by (simp add: length_dist_def)
qed

lemma codes_loop_safe:
  assumes "sinv s" "table_ok lencode m" "table_ok distcode 30" "bits_left s < fuel"
  shows "ok_run {0, 1, - 10, - 11} s (codes_loop fuel lencode distcode s)"
  using assms(1,4)
proof (induction fuel arbitrary: s)
  case (Suc fuel)
  let ?ok = "\<lambda>err s'. frame s s' \<and> bounds s' \<and> err \<in> {0, 1, - 10, - 11} \<and>
    (err = 0 \<longrightarrow> sinv s' \<and> bits_left s' < bits_left s)"
  let ?rest = "\<lambda>res s. case res of Inl err \<Rightarrow> (Inr err, s)
     | Inr sy \<Rightarrow> if sy \<noteq> 256 then codes_loop fuel lencode distcode s else (Inr 0, s)"
  have rest: "post ?ok (jumped s) (?rest res s2)"
    if s2: "frame s s2" "bounds s2" "res \<in> Inl ` {1, - 10, - 11} \<or> sinv s2 \<and> bits_left s2 < bits_left s \<and> (\<exists>v. res = Inr v)"
    for res s2
  proof (cases res)
    case (Inl e)
    then show ?thesis using s2 by auto
  next
    case (Inr v)
    then have i: "sinv s2" "bits_left s2 < bits_left s" using s2 by auto
    have "ok_run {0, 1, - 10, - 11} s (codes_loop fuel lencode distcode s2)"
      using Suc.IH [of s2] i Suc.prems by (intro ok_run_trans [OF _ s2(1)]) auto
    then have "post ?ok (jumped s) (codes_loop fuel lencode distcode s2)"
      by (simp add: ok_run_def)
    then show ?thesis using Inr i s2 by auto
  qed
  show ?case
    unfolding ok_run_def codes_loop.simps post_bindE
  proof (rule post_mono [OF decode_safe [OF Suc.prems(1) assms(2)]])
    fix sy :: int and s1 :: state
    assume d: "frame s s1 \<and> bounds s1 \<and> (sy = - 10 \<or> 0 \<le> sy \<and> sy < m \<and> sinv s1 \<and> bits_left s1 < bits_left s)"
    show "post ?ok (jumped s) (if sy < 0 then (Inr sy, s1)
       else bindE (if sy < 256 then literal sy s1
                else if sy > 256 then length_dist distcode sy s1
                else (Inr (Inr sy), s1)) ?rest)"
    proof (cases "sy < 0")
      case True
      then show ?thesis using d by auto
    next
      case False
      then have i: "sinv s1" "bits_left s1 < bits_left s" "frame s s1" using d by auto
      have "post (\<lambda>res s2. post ?ok (jumped s) (?rest res s2)) (jumped s)
        (if sy < 256 then literal sy s1
                else if sy > 256 then length_dist distcode sy s1
                else (Inr (Inr sy), s1))"
      proof -
        have "post (\<lambda>res s2. post ?ok (jumped s) (?rest res s2)) (jumped s) (literal sy s1)"
          using i by (intro post_mono [OF literal_safe [OF i(1)]] rest) (auto intro: frame_trans jumped_trans)
        moreover have "post (\<lambda>res s2. post ?ok (jumped s) (?rest res s2)) (jumped s) (length_dist distcode sy s1)"
          if "256 < sy"
          using i by (intro post_mono [OF length_dist_safe [OF i(1) assms(3) that]] rest)
            (auto simp: match_ok_def intro: frame_trans jumped_trans)
        moreover have "post ?ok (jumped s) (?rest (Inr 256) s1)"
          using i d by (intro rest) auto
        ultimately show ?thesis by auto
      qed
      then show ?thesis using False by simp
    qed
  qed auto
qed simp

lemma codes_safe:
  assumes "sinv s" "table_ok lencode m" "table_ok distcode 30"
  shows "ok_run {0, 1, - 10, - 11} s (codes lencode distcode s)"
  unfolding codes_def using assms by (intro codes_loop_safe) auto

subsection \<open>Stored and fixed blocks\<close>

lemma in_room:
  assumes "i \<le> n" "size_ok n" "unat k < 2 ^ 16" "\<not> i + k > (n :: u32)"
  shows "unat (i + k) = unat i + unat k" "unat i + unat k \<le> unat n"
proof -
  show "unat (i + k) = unat i + unat k"
    using assms(1-3) by (subst unat_add_small) (auto simp: size_ok_def word_le_nat_alt)
  with assms(4) show "unat i + unat k \<le> unat n"
    by (simp add: word_less_nat_alt not_less)
qed

lemma stored_len_bound:
  "unat (ucast (a :: u8) OR push_bit 8 (ucast (b :: u8)) :: u32) < 2 ^ 16"
proof -
  have ab: "uint a < 2 ^ 8" "uint b < 2 ^ 8" using uint_lt2p [of a] uint_lt2p [of b] by simp_all
  have pb: "take_bit 32 (push_bit 8 (uint b)) = push_bit 8 (uint b)" "push_bit 8 (uint b) < 2 ^ 16"
    using ab(2) by (simp_all add: push_bit_eq_mult take_bit_int_eq_self_iff)
  have "uint (ucast a :: u32) = uint a" "uint (ucast b :: u32) = uint b"
    using ab by (simp_all add: unsigned_ucast_eq take_bit_int_eq_self_iff)
  then have "uint (ucast a OR push_bit 8 (ucast b) :: u32) = uint a OR push_bit 8 (uint b)"
    using pb(1) by (simp add: unsigned_or_eq unsigned_push_bit_eq)
  also have "\<dots> < 2 ^ 16"
    using ab(1) pb(2) by (intro OR_upper) simp_all
  finally have "uint (ucast a OR push_bit 8 (ucast b) :: u32) < int (2 ^ 16)" by simp
  then show ?thesis unfolding unat_eq_nat_uint by (subst nat_less_iff) auto
qed

lemma stored_finish:
  assumes s: "wf_bits s" "bounds s" and len: "unat len < 2 ^ 16"
    and room: "\<not> incnt s + len > inlen s"
    and t: "t = s\<lparr>mem := m, outcnt := outcnt s + len, incnt := incnt s + len\<rparr>"
    and out: "out s \<noteq> NIL \<Longrightarrow> outcnt s + len \<le> outlen s"
    and m: "\<forall>x. x \<notin> writable s \<longrightarrow> m x = mem s x"
  shows "frame s t \<and> sinv t \<and> bits_left t \<le> bits_left s"
proof -
  note r = in_room [OF _ _ len room]
  have "unat (inlen s - (incnt s + len)) \<le> unat (inlen s - incnt s)"
    using s r room by (simp add: bounds_def unat_sub word_le_nat_alt)
  moreover have "incnt s + len \<le> inlen s" using room by simp
  ultimately show ?thesis
    using s t out m by (auto simp: frame_def sinv_def bounds_def wf_bits_def bits_left_def writable_def)
qed

lemma stored_data_cases:
  assumes "s4 = s\<lparr>incnt := incnt s + 2\<rparr>"
  shows "stored_data len s = (Inr (- 2), s\<lparr>incnt := incnt s + 1\<rparr>) \<or> stored_data len s = (Inr (- 2), s4) \<or>
    stored_data len s =
     (if incnt s4 + len > inlen s4 then (Inr 2, s4)
      else if out s4 \<noteq> NIL then
        if outcnt s4 + len > outlen s4 then (Inr 1, s4) else (Inr 0, stored_copy (unat len) s4)
      else (Inr 0, s4\<lparr>outcnt := outcnt s4 + len, incnt := incnt s4 + len\<rparr>))"
proof -
  have "s\<lparr>incnt := incnt (s\<lparr>incnt := incnt s + 1\<rparr>) + 1\<rparr> = s4"
    using assms by (simp add: add.assoc)
  then show ?thesis
    unfolding stored_data_def Let_def by simp
qed

lemma stored_safe:
  assumes "sinv s"
  shows "ok_run {0, 1, 2, - 2} s (stored s)"
proof -
  let ?s = "s\<lparr>bitbuf := 0, bitcnt := 0\<rparr>"
  have b: "incnt s \<le> inlen s" "size_ok (inlen s)" and frame: "frame s ?s" "bounds ?s"
    using assms by (auto simp: sinv_def bounds_def frame_def)
  define len where "len = (ucast (in_byte s (incnt s)) OR push_bit 8 (ucast (in_byte s (incnt s + 1))) :: u32)"
  have lenb: "unat len < 2 ^ 16" unfolding len_def by (rule stored_len_bound)
  define s4 where "s4 = ?s\<lparr>incnt := incnt s + 4\<rparr>"
  show ?thesis
  proof (cases "incnt s + 4 > inlen s")
    case True
    then show ?thesis using frame by (simp add: stored_def ok_run_def)
  next
    case False
    have four: "unat (incnt s + 4) = unat (incnt s) + 4" "unat (incnt s) + 4 \<le> unat (inlen s)"
      using in_room [OF b, of 4] False by simp_all
    have three: "unat (incnt s + 3) = unat (incnt s) + 3"
      using four(2) unat32_less [of "inlen s"] by (subst unat_add_small) auto
    have s3: "frame s (?s\<lparr>incnt := incnt s + 3\<rparr>)" "bounds (?s\<lparr>incnt := incnt s + 3\<rparr>)"
      using frame three four by (auto simp: bounds_def frame_def word_le_nat_alt)
    have s4: "frame s s4" "bounds s4" "wf_bits s4" "bits_left s4 < bits_left s"
      using frame four False
      by (auto simp: s4_def bounds_def frame_def wf_bits_def bits_left_def unat_sub word_le_nat_alt)
    have fin: "ok_run {0, 1, 2, - 2} s
       (if incnt s4 + len > inlen s4 then (Inr 2, s4)
        else if out s4 \<noteq> NIL then
          if outcnt s4 + len > outlen s4 then (Inr 1, s4) else (Inr 0, stored_copy (unat len) s4)
        else (Inr 0, s4\<lparr>outcnt := outcnt s4 + len, incnt := incnt s4 + len\<rparr>))"
    proof -
      have done0: "ok_run {0, 1, 2, - 2} s (Inr 0, t)"
        if "frame s4 t \<and> sinv t \<and> bits_left t \<le> bits_left s4" for t
        using that s4 by (auto simp: ok_run_def intro: frame_trans)
      have "ok_run {0, 1, 2, - 2} s (Inr 0, stored_copy (unat len) s4)"
        if c: "\<not> incnt s4 + len > inlen s4" "out s4 \<noteq> NIL" "\<not> outcnt s4 + len > outlen s4"
      proof -
        note r = room_for [OF s4(2) c(2) lenb, simplified, OF c(3)]
        obtain m where "stored_copy (unat len) s4 = s4\<lparr>mem := m, outcnt := outcnt s4 + len, incnt := incnt s4 + len\<rparr>"
          "\<forall>x. x \<notin> writable s4 \<longrightarrow> m x = mem s4 x"
          using stored_copy_eq [OF c(2) r(1)] by auto
        then show ?thesis
          using r(2) by (intro done0 stored_finish [OF s4(3,2) lenb c(1)]) auto
      qed
      moreover have "ok_run {0, 1, 2, - 2} s (Inr 0, s4\<lparr>outcnt := outcnt s4 + len, incnt := incnt s4 + len\<rparr>)"
        if c: "\<not> incnt s4 + len > inlen s4" "out s4 = NIL"
        using c by (intro done0 stored_finish [OF s4(3,2) lenb c(1), where m = "mem s4"]) auto
      ultimately show ?thesis using s4(1,2) by (auto simp: ok_run_def)
    qed
    have two: "stored s = stored_data len (?s\<lparr>incnt := incnt s + 2\<rparr>)"
      using False by (simp add: stored_def Let_def in_byte_def len_def add.assoc)
    have bad: "ok_run {0, 1, 2, - 2} s (Inr (- 2), ?s\<lparr>incnt := incnt s + 3\<rparr>)" "ok_run {0, 1, 2, - 2} s (Inr (- 2), s4)"
      using s3 s4 by (simp_all add: ok_run_def)
    let ?s2 = "?s\<lparr>incnt := incnt s + 2\<rparr>"
    have eqs: "s4 = ?s2\<lparr>incnt := incnt ?s2 + 2\<rparr>" "?s2\<lparr>incnt := incnt ?s2 + 1\<rparr> = ?s\<lparr>incnt := incnt s + 3\<rparr>"
      by (simp_all add: s4_def add.assoc)
    show ?thesis
      unfolding two using stored_data_cases [OF eqs(1), of len, unfolded eqs(2)]
      by (elim disjE) (simp_all only: bad fin)
  qed
qed

lemma fixed_safe:
  assumes "sinv s"
  shows "ok_run {0, 1, - 10, - 11} s (fixed s)"
proof -
  obtain f where f: "fixed_build = Some f" "\<not> virgin f" "table_ok (lencode_st f) 288" "table_ok (distcode_st f) 30"
    using fixed_build_ok by blast
  have go: "ok_run {0, 1, - 10, - 11} t (codes (lencode_st (fx t)) (distcode_st (fx t)) t)"
    if "sinv t" "fx t = f" for t
    using codes_safe [OF that(1)] f that by auto
  show ?thesis
  proof (cases "virgin (fx s)")
    case True
    let ?t = "s\<lparr>fx := f\<rparr>"
    have t: "sinv ?t" "frame s ?t" "bits_left ?t = bits_left s"
      using assms f by (auto simp: sinv_def bounds_def wf_bits_def frame_def bits_left_def)
    show ?thesis
      using True ok_run_trans [OF go [OF t(1)] t(2)] t(3) by (simp add: fixed_def f(1))
  next
    case False
    then have "fx s = f" using assms by (auto simp: sinv_def bounds_def f(1))
    with False go [OF assms] show ?thesis by (simp add: fixed_def)
  qed
qed

subsection \<open>Dynamic blocks\<close>

definition in_order :: "nat \<Rightarrow> int list \<Rightarrow> bool" where
  "in_order i ls \<longleftrightarrow> length ls = MAXCODES \<and> (\<forall>j<i. ls ! nat (order ! j) \<in> {0..15})"

lemma order_perm: "i < 19 \<Longrightarrow> 0 \<le> order ! i \<and> order ! i < 19"
  "j < 19 \<Longrightarrow> \<exists>i<19. order ! i = int j"
  "i < 19 \<Longrightarrow> i' < 19 \<Longrightarrow> order ! i = order ! i' \<longleftrightarrow> i = i'"
proof -
  have all: "distinct order" "length order = 19" "list_all (\<lambda>k. 0 \<le> k \<and> k < 19) order"
    "list_all (\<lambda>j. int j \<in> set order) [0..<19]"
    by (simp_all add: order_def upt_rec)
  show "i < 19 \<Longrightarrow> 0 \<le> order ! i \<and> order ! i < 19" "j < 19 \<Longrightarrow> \<exists>i<19. order ! i = int j"
    using all nth_mem [of i order] by (auto simp: list_all_iff in_set_conv_nth)
  show "i < 19 \<Longrightarrow> i' < 19 \<Longrightarrow> order ! i = order ! i' \<longleftrightarrow> i = i'"
    using all by (simp add: nth_eq_iff_index_eq)
qed

lemma set_order:
  assumes "in_order i ls" "i < 19" "v \<in> {0..15}"
  shows "aref order (int i) = Some (order ! i)" "\<exists>ls'. aset ls (order ! i) v = Some ls' \<and> in_order (Suc i) ls'"
proof -
  have len: "length order = 19" by (simp add: order_def)
  show "aref order (int i) = Some (order ! i)" using assms(2) len by simp
  have "aset ls (order ! i) v = Some (ls[nat (order ! i) := v])"
    using assms(1) order_perm(1) [OF assms(2)] by (auto simp: aset_def in_order_def)
  moreover have "ls[nat (order ! i) := v] ! nat (order ! j) = (if j = i then v else ls ! nat (order ! j))" if "j < Suc i" for j
    using that assms(1,2) order_perm(1) [of i] order_perm(1) [of j] order_perm(3) [of i j]
    by (auto simp: in_order_def nth_list_update eq_nat_nat_iff)
  then have "in_order (Suc i) (ls[nat (order ! i) := v])"
    using assms by (auto simp: in_order_def less_Suc_eq)
  ultimately show "\<exists>ls'. aset ls (order ! i) v = Some ls' \<and> in_order (Suc i) ls'" by blast
qed

lemma read_code_lengths_safe:
  assumes "sinv s" "in_order i ls" "i + n \<le> 19"
  shows "post (\<lambda>ls' s'. in_order (i + n) ls' \<and> sinv s' \<and> frame s s' \<and> bits_left s' \<le> bits_left s)
    (jumped s) (read_code_lengths n i ls s)"
  using assms
proof (induction n arbitrary: i ls s)
  case (Suc n)
  have "post (\<lambda>v t. post (\<lambda>ls' s'. in_order (i + Suc n) ls' \<and> sinv s' \<and> frame s s' \<and> bits_left s' \<le> bits_left s)
      (jumped s) (bindE (unopt (aref order (int i)) t) (\<lambda>k s.
        bindE (unopt (aset ls k v) s) (\<lambda>ls s. read_code_lengths n (i + 1) ls s)))) (jumped s) (bits s (int 3))"
  proof (rule post_mono [OF bits_safe [OF Suc.prems(1), of 3]])
    fix v :: int and t :: state
    assume b: "0 \<le> v \<and> v < 2 ^ 3 \<and> sinv t \<and> frame s t \<and> bits_left t + 3 = bits_left s"
    obtain ls' where ls': "aset ls (order ! i) v = Some ls'" "in_order (Suc i) ls'" "aref order (int i) = Some (order ! i)"
      using set_order [OF Suc.prems(2), of v] b Suc.prems(3) by auto
    have "post (\<lambda>ls' s'. in_order (i + Suc n) ls' \<and> sinv s' \<and> frame s s' \<and> bits_left s' \<le> bits_left s)
      (jumped s) (read_code_lengths n (Suc i) ls' t)"
      using b Suc.prems(3) by (intro post_mono [OF Suc.IH [OF _ ls'(2)]]) (auto intro: frame_trans jumped_trans)
    with ls' show "post (\<lambda>ls' s'. in_order (i + Suc n) ls' \<and> sinv s' \<and> frame s s' \<and> bits_left s' \<le> bits_left s)
      (jumped s) (bindE (unopt (aref order (int i)) t) (\<lambda>k s.
        bindE (unopt (aset ls k v) s) (\<lambda>ls s. read_code_lengths n (i + 1) ls s)))"
      by simp
  qed simp_all
  then show ?case by simp
qed simp

lemma clear_lengths:
  assumes "in_order i ls" "i \<le> 19"
  shows "\<exists>ls'. for_each clear_step [i..<19] ls = Some ls' \<and> length ls' = MAXCODES \<and> lens_ok ls' 19"
proof -
  obtain ls' where ls': "for_each clear_step [i..<19] ls = Some ls'" "in_order 19 ls'"
    using for_each_upt_rule [of i 19 in_order ls clear_step] assms set_order [where v = 0]
    by (auto simp: clear_step_def)
  moreover have "lens_ok ls' 19"
    unfolding lens_ok_def
  proof (intro conjI allI impI)
    fix j :: nat assume "j < 19"
    then obtain k where "k < 19" "order ! k = int j" using order_perm(2) by blast
    with ls'(2) show "0 \<le> ls' ! j" "ls' ! j \<le> 15"
      by (auto simp: in_order_def dest!: spec [of _ k])
  qed (use ls'(2) in \<open>auto simp: in_order_def\<close>)
  ultimately show ?thesis by (auto simp: in_order_def)
qed

lemma fill_lengths_spec:
  "i + n \<le> length ls \<Longrightarrow> \<exists>ls'. fill_lengths n (int i) len ls = Some ls' \<and> length ls' = length ls \<and>
     (\<forall>k<length ls. ls' ! k = (if i \<le> k \<and> k < i + n then len else ls ! k))"
proof (induction n arbitrary: i ls)
  case (Suc n)
  from Suc.prems Suc.IH [of "Suc i" "ls[i := len]"] obtain ls' where
    "fill_lengths n (int i + 1) len (ls[i := len]) = Some ls'" "length ls' = length ls"
    "\<forall>k<length ls. ls' ! k = (if Suc i \<le> k \<and> k < Suc i + n then len else ls[i := len] ! k)"
    by (auto simp: add.commute)
  with Suc.prems show ?case by (auto simp: nth_list_update)
qed auto

text \<open>
  The code lengths read so far: the entries below \<open>index\<close> are lengths; the others may still hold
  the code length code lengths or whatever the array held on entry.
\<close>

definition lens_upto :: "int \<Rightarrow> int \<Rightarrow> int list \<Rightarrow> bool" where
  "lens_upto tot index ls \<longleftrightarrow> 0 \<le> index \<and> index \<le> tot \<and> tot \<le> int MAXCODES \<and>
     length ls = MAXCODES \<and> lens_ok ls (nat index)"

definition step_ok :: "state \<Rightarrow> int \<Rightarrow> int \<Rightarrow> int + int \<times> int list \<Rightarrow> state \<Rightarrow> bool" where
  "step_ok s tot index r s' \<longleftrightarrow> frame s s' \<and> bounds s' \<and>
     (case r of Inl e \<Rightarrow> e \<in> {- 5, - 6, - 10}
      | Inr (index', ls) \<Rightarrow> index < index' \<and> lens_upto tot index' ls \<and> sinv s' \<and> bits_left s' \<le> bits_left s)"

lemma lens_upto_fill:
  assumes "lens_upto tot index ls" "0 < rep" "index + rep \<le> tot" "0 \<le> len" "len \<le> 15"
  shows "\<exists>ls'. fill_lengths (nat rep) index len ls = Some ls' \<and> lens_upto tot (index + rep) ls'"
proof -
  have "nat index + nat rep \<le> length ls" using assms by (auto simp: lens_upto_def)
  from fill_lengths_spec [OF this, of len] obtain ls' where
    "fill_lengths (nat rep) index len ls = Some ls'" "length ls' = length ls"
    "\<forall>k<length ls. ls' ! k = (if nat index \<le> k \<and> k < nat index + nat rep then len else ls ! k)"
    using assms(1) by (auto simp: lens_upto_def)
  with assms show ?thesis
    by (auto simp: lens_upto_def lens_ok_def nat_add_distrib)
qed

lemma lens_upto_aset:
  assumes "lens_upto tot index ls" "index < tot" "0 \<le> len" "len \<le> 15"
  shows "\<exists>ls'. aset ls index len = Some ls' \<and> lens_upto tot (index + 1) ls'"
  using lens_upto_fill [OF assms(1), of 1 len] assms by (auto simp: bind_eq_Some_conv)

text \<open>The three ways a repeat count is read.\<close>

lemma repeat_safe:
  assumes "sinv s" "lens_upto tot index ls" "sy = 16 \<Longrightarrow> index \<noteq> 0"
  shows "post (\<lambda>(len, rep) s'. 0 \<le> len \<and> len \<le> 15 \<and> 3 \<le> rep \<and> sinv s' \<and> frame s s' \<and> bits_left s' \<le> bits_left s)
    (jumped s)
    (if sy = 16 then
       bindE (unopt (aref ls (index - 1)) s) (\<lambda>len s. bindE (bits s 2) (\<lambda>b s. (Inr (len, 3 + b), s)))
     else if sy = 17 then bindE (bits s 3) (\<lambda>b s. (Inr (0, 3 + b), s))
     else bindE (bits s 7) (\<lambda>b s. (Inr (0, 11 + b), s)))"
proof -
  have prev: "\<exists>len. aref ls (index - 1) = Some len \<and> 0 \<le> len \<and> len \<le> 15" if "index \<noteq> 0"
    using that assms(2) by (auto simp: lens_upto_def lens_ok_def aref_def)
  have b: "post (\<lambda>v s'. 0 \<le> v \<and> sinv s' \<and> frame s s' \<and> bits_left s' \<le> bits_left s) (jumped s) (bits s (int k))" if "k \<le> 24" for k
    using that by (intro post_mono [OF bits_safe [OF assms(1)]]) auto
  show ?thesis
    using prev assms(3) b [of 2] b [of 3] b [of 7] by (auto elim!: post_mono)
qed

lemma lengths_step_safe:
  assumes "sinv s" "table_ok lencode 19" "lens_upto tot index ls" "index < tot"
  shows "post (step_ok s tot index) (jumped s) (lengths_step lencode tot index ls s)"
  unfolding lengths_step_def post_bindE
proof (rule post_mono [OF decode_safe [OF assms(1,2)]], goal_cases)
  case (1 sy s1)
  show ?case
  proof (cases "sy < 0")
    case True
    with 1 show ?thesis by (auto simp: step_ok_def)
  next
    case False
    then have i: "sinv s1" "frame s s1" "bits_left s1 \<le> bits_left s" "0 \<le> sy" using 1 by auto
    consider "sy < 16" | "sy = 16 \<and> index = 0" | "\<not> sy < 16" "\<not> (sy = 16 \<and> index = 0)" by blast
    then show ?thesis
    proof cases
      case 1
      then show ?thesis
        using i lens_upto_aset [OF assms(3,4), of sy] by (auto simp: step_ok_def)
    next
      case 2
      then show ?thesis using i by (auto simp: step_ok_def)
    next
      case 3
      let ?fin = "\<lambda>(len, rep) s. if index + rep > tot then (Inr (Inl (- 6)), s)
           else bindE (unopt (fill_lengths (nat rep) index len ls) s) (\<lambda>lengths s. (Inr (Inr (index + rep, lengths)), s))"
      have fin: "post (step_ok s tot index) (jumped s) (?fin (len, rep) t)"
        if "0 \<le> len" "len \<le> 15" "3 \<le> rep" "sinv t" "frame s1 t" "bits_left t \<le> bits_left s1" for len rep t
        using that i lens_upto_fill [OF assms(3), of rep len] frame_trans [OF i(2) that(5)] sinvD [OF that(4)]
        by (auto simp: step_ok_def)
      have "post (\<lambda>x t. post (step_ok s tot index) (jumped s) (?fin x t)) (jumped s)
        (if sy = 16 then
           bindE (unopt (aref ls (index - 1)) s1) (\<lambda>len s. bindE (bits s 2) (\<lambda>b s. (Inr (len, 3 + b), s)))
         else if sy = 17 then bindE (bits s1 3) (\<lambda>b s. (Inr (0, 3 + b), s))
         else bindE (bits s1 7) (\<lambda>b s. (Inr (0, 11 + b), s)))"
        using 3(2) fin
        by (intro post_mono [OF repeat_safe [OF i(1) assms(3)]]) (blast, fastforce, blast intro: jumped_trans [OF i(2)])
      with 3 i(4) show ?thesis by (simp only: post_bindE if_False not_less [symmetric])
    qed
  qed
qed simp

definition loop_ok :: "state \<Rightarrow> int \<Rightarrow> int + int list \<Rightarrow> state \<Rightarrow> bool" where
  "loop_ok s tot r s' \<longleftrightarrow> frame s s' \<and> bounds s' \<and>
     (case r of Inl e \<Rightarrow> e \<in> {- 5, - 6, - 10}
      | Inr ls \<Rightarrow> lens_upto tot tot ls \<and> sinv s' \<and> bits_left s' \<le> bits_left s)"

lemma lengths_loop_safe:
  assumes "sinv s" "table_ok lencode 19" "lens_upto tot index ls" "nat (tot - index) < fuel"
  shows "post (loop_ok s tot) (jumped s) (lengths_loop fuel lencode tot index ls s)"
  using assms(1,3,4)
proof (induction fuel arbitrary: index ls s)
  case (Suc fuel)
  show ?case
  proof (cases "index < tot")
    case False
    then show ?thesis using Suc.prems by (auto simp: lens_upto_def loop_ok_def)
  next
    case True
    have go: "post (loop_ok s tot) (jumped s) (lengths_loop fuel lencode tot index' ls' t)"
      if "index < index'" "lens_upto tot index' ls'" "sinv t" "bits_left t \<le> bits_left s" "frame s t" for index' ls' t
    proof (rule post_mono [OF Suc.IH [OF that(3,2)]])
      show "nat (tot - index') < fuel" using that Suc.prems by (auto simp: lens_upto_def)
    qed (use that in \<open>auto simp: loop_ok_def split: sum.splits intro: frame_trans jumped_trans\<close>)
    have "post (\<lambda>r t. post (loop_ok s tot) (jumped s)
        (case r of Inl e \<Rightarrow> (Inr (Inl e), t) | Inr (index, ls) \<Rightarrow> lengths_loop fuel lencode tot index ls t))
      (jumped s) (lengths_step lencode tot index ls s)"
      by (rule post_mono [OF lengths_step_safe [OF Suc.prems(1) assms(2) Suc.prems(2) True]])
         (auto simp: step_ok_def loop_ok_def go split: sum.splits)
    with True show ?thesis by simp
  qed
qed simp

lemma bad_code_nonneg: "\<not> bad_code err h n \<Longrightarrow> 0 \<le> err"
  by (auto simp: bad_code_def)

lemma dynamic_codes_safe:
  assumes "sinv s" "lens_upto (nlen + ndist) (nlen + ndist) ls" "257 \<le> nlen" "nlen \<le> 286" "1 \<le> ndist" "ndist \<le> 30"
    and "286 \<le> length (symbol lencode)" "30 \<le> length (symbol distcode)"
  shows "ok_run {0, 1, - 7, - 8, - 9, - 10, - 11} s (dynamic_codes lencode distcode nlen ndist ls s)"
proof -
  have ls: "lens_ok ls (nat nlen)" "lens_ok (drop (nat nlen) ls) (nat ndist)" "256 < length ls"
    using assms(2-6) by (auto simp: lens_upto_def lens_ok_def nat_add_distrib)
  have room: "nat nlen \<le> length (symbol lencode)" "nat ndist \<le> length (symbol distcode)"
    using assms(3-8) by linarith+
  obtain e1 h1 where 1: "construct lencode ls (nat nlen) = Some (e1, h1)" "construct_post ls (nat nlen) lencode e1 h1"
    using construct_spec [OF ls(1) room(1)] by blast
  obtain e2 h2 where 2: "construct distcode (drop (nat nlen) ls) (nat ndist) = Some (e2, h2)"
     "construct_post (drop (nat nlen) ls) (nat ndist) distcode e2 h2"
    using construct_spec [OF ls(2) room(2)] by blast
  have "table_ok h1 nlen" if "0 \<le> e1"
    using construct_table_ok [OF ls(1) room(1) 1(2) that] assms(3) by simp
  moreover have "table_ok h2 30" if "0 \<le> e2"
    using construct_table_ok [OF ls(2) room(2) 2(2) that] assms(5,6) by (auto simp: table_ok_def)
  ultimately have "ok_run {0, 1, - 7, - 8, - 9, - 10, - 11} s (codes h1 h2 s)"
    if "\<not> bad_code e1 h1 nlen" "\<not> bad_code e2 h2 ndist"
    using that by (intro ok_run_trans [OF codes_safe [OF assms(1), of h1 nlen h2]]) (auto dest: bad_code_nonneg)
  then show ?thesis
    using assms(1) ls(3) by (auto simp: dynamic_codes_def 1(1) 2(1) ok_run_def)
qed

abbreviation dyn_codes :: "int set" where
  "dyn_codes \<equiv> {0, 1, - 3, - 4, - 5, - 6, - 7, - 8, - 9, - 10, - 11}"

lemma after_lengths_safe:
  assumes "sinv t" "frame s t" "bits_left t \<le> bits_left s" "length ls = MAXCODES" "lens_ok ls 19"
    and "257 \<le> nlen" "nlen \<le> 286" "1 \<le> ndist" "ndist \<le> 30"
    and "286 \<le> length (symbol lencode)" "30 \<le> length (symbol distcode)"
  shows "ok_run dyn_codes s
    (bindE (unopt (construct lencode ls 19) t) (\<lambda>(err, lencode) s.
        if err \<noteq> 0 then (Inr (- 4), s)
        else
          bindE (lengths_loop (MAXCODES + 1) lencode (nlen + ndist) 0 ls s) (\<lambda>res s.
            case res of
              Inl err \<Rightarrow> (Inr err, s)
            | Inr lengths \<Rightarrow> dynamic_codes lencode distcode nlen ndist lengths s)))"
proof -
  have n: "19 \<le> length (symbol lencode)" using assms(10) by simp
  obtain err h where c: "construct lencode ls 19 = Some (err, h)" "construct_post ls 19 lencode err h"
    using construct_spec [OF assms(5) n] by blast
  show ?thesis
  proof (cases "err = 0")
    case False
    then show ?thesis using assms(1,2) by (auto simp: c(1) ok_run_def)
  next
    case True
    then have tab: "table_ok h 19" using construct_table_ok [OF assms(5) n c(2)] by simp
    have len: "length (symbol h) = length (symbol lencode)" using c(2) by (simp add: construct_post_def)
    have ini: "lens_upto (nlen + ndist) 0 ls" "nat (nlen + ndist - 0) < MAXCODES + 1"
      using assms by (auto simp: lens_upto_def lens_ok_def)
    have "ok_run dyn_codes t (bindE (lengths_loop (MAXCODES + 1) h (nlen + ndist) 0 ls t) (\<lambda>res s.
            case res of
              Inl err \<Rightarrow> (Inr err, s)
            | Inr lengths \<Rightarrow> dynamic_codes h distcode nlen ndist lengths s))"
      unfolding ok_run_def post_bindE
    proof (rule post_mono [OF lengths_loop_safe [OF assms(1) tab ini]], goal_cases)
      case (1 r u)
      show ?case
      proof (cases r)
        case (Inl e)
        with 1 show ?thesis by (auto simp: loop_ok_def)
      next
        case (Inr ls')
        then have u: "sinv u" "frame t u" "bits_left u \<le> bits_left t" "lens_upto (nlen + ndist) (nlen + ndist) ls'"
          using 1 by (auto simp: loop_ok_def)
        have "ok_run dyn_codes t (dynamic_codes h distcode nlen ndist ls' u)"
          using assms len by (intro ok_run_trans [OF dynamic_codes_safe [OF u(1,4)] u(2,3)]) auto
        with Inr show ?thesis by (simp add: ok_run_def)
      qed
    qed
    then show ?thesis
      using ok_run_trans [OF _ assms(2,3)] True by (simp add: c(1))
  qed
qed

lemma dynamic_lengths_safe:
  assumes "sinv s" "length ls = MAXCODES" "257 \<le> nlen" "1 \<le> ndist" "4 \<le> nc" "nc \<le> 19"
    and "286 \<le> length (symbol lencode)" "30 \<le> length (symbol distcode)"
  shows "ok_run dyn_codes s (dynamic_lengths lencode distcode ls nlen ndist nc s)"
proof (cases "nlen > 286 \<or> ndist > 30")
  case True
  then show ?thesis using assms(1) by (auto simp: dynamic_lengths_def ok_run_def)
next
  case False
  have ini: "in_order 0 ls" using assms(2) by (simp add: in_order_def)
  have "post (\<lambda>ls t. ok_run dyn_codes s (bindE (unopt (for_each clear_step [nat nc..<19] ls) t) (\<lambda>lengths s.
        bindE (unopt (construct lencode lengths 19) s) (\<lambda>(err, lencode) s.
        if err \<noteq> 0 then (Inr (- 4), s)
        else
          bindE (lengths_loop (MAXCODES + 1) lencode (nlen + ndist) 0 lengths s) (\<lambda>res s.
            case res of
              Inl err \<Rightarrow> (Inr err, s)
            | Inr lengths \<Rightarrow> dynamic_codes lencode distcode nlen ndist lengths s)))))
     (jumped s) (read_code_lengths (nat nc) 0 ls s)"
  proof (rule post_mono [OF read_code_lengths_safe [OF assms(1) ini, of "nat nc"]], goal_cases)
    case (2 ls1 t)
    then obtain ls2 where "for_each clear_step [nat nc..<19] ls1 = Some ls2" "length ls2 = MAXCODES" "lens_ok ls2 19"
      using clear_lengths [of "nat nc" ls1] assms(6) by (auto simp: nat_le_iff)
    with 2 show ?case
      using False assms after_lengths_safe [of t s ls2 nlen ndist lencode distcode] by simp
  qed (use assms(6) in auto)
  then show ?thesis
    using False by (simp add: dynamic_lengths_def ok_run_def)
qed

lemma dynamic_safe:
  assumes "sinv s"
  shows "ok_run dyn_codes s (dynamic s)"
proof -
  have rd: "post Q (jumped s) (bits t (int n))"
    if "sinv t" "frame s t" "bits_left t \<le> bits_left s" "n \<le> 24"
      "\<And>v u. 0 \<le> v \<Longrightarrow> v < 2 ^ n \<Longrightarrow> sinv u \<Longrightarrow> frame s u \<Longrightarrow> bits_left u \<le> bits_left s \<Longrightarrow> Q v u"
    for Q t n
    by (rule post_mono [OF bits_safe [OF that(1,4)]])
       (use that(2,3) in \<open>auto intro!: that(5) intro: frame_trans jumped_trans\<close>)
  have fin: "ok_run dyn_codes s (dynamic_lengths \<lparr>count = replicate 16 0, symbol = map (stk s) [0..<286]\<rparr>
       \<lparr>count = replicate 16 0, symbol = map (stk s) [0..<30]\<rparr> (map (stk s) [0..<316]) (a + 257) (b + 1) (c + 4) t)"
    if "sinv t" "frame s t" "bits_left t \<le> bits_left s" "0 \<le> a" "0 \<le> b" "0 \<le> c" "c < 2 ^ 4" for a b c t
    using that by (intro ok_run_trans [OF dynamic_lengths_safe that(2,3)]) auto
  show ?thesis
    unfolding dynamic_def Let_def ok_run_def post_bindE of_nat_numeral [symmetric, where 'a = int]
    by (intro rd order.refl frame_refl assms) (simp_all add: fin [unfolded ok_run_def, simplified])
qed

subsection \<open>The whole decoder\<close>

abbreviation puff_codes :: "int set" where
  "puff_codes \<equiv> {- 11..2}"

lemma block_safe:
  assumes "sinv s"
  shows "ok_run puff_codes s (block type s)"
proof -
  have "ok_run puff_codes s (Inr (- 1), s)" using assms by (auto simp: ok_run_def)
  then show ?thesis
    unfolding block_def
    by (auto intro: ok_run_trans [OF stored_safe [OF assms]] ok_run_trans [OF fixed_safe [OF assms]]
        ok_run_trans [OF dynamic_safe [OF assms]])
qed

lemma blocks_loop_safe:
  assumes "sinv s" "bits_left s < fuel"
  shows "ok_run puff_codes s (blocks_loop fuel s)"
  using assms
proof (induction fuel arbitrary: s)
  case (Suc fuel)
  have fin: "ok_run puff_codes s (if err \<noteq> 0 then (Inr err, u) else if last = 0 then blocks_loop fuel u else (Inr 0, u))"
    if u: "frame s t" "bits_left t < bits_left s" "frame t u" "bounds u" "err \<in> puff_codes"
      "err = 0 \<longrightarrow> sinv u \<and> bits_left u < bits_left t" for err last t u
  proof -
    have su: "frame s u" using u by (auto intro: frame_trans)
    have "ok_run puff_codes s (blocks_loop fuel u)" if "err = 0"
      using that u Suc.prems(2) by (intro ok_run_trans [OF Suc.IH su]) auto
    moreover have "ok_run puff_codes s (Inr err, u)"
      using u su by (auto simp: ok_run_def)
    ultimately show ?thesis by auto
  qed
  have blk: "ok_run puff_codes s (bindE (block type t) (\<lambda>err u.
        if err \<noteq> 0 then (Inr err, u) else if last = 0 then blocks_loop fuel u else (Inr 0, u)))"
    if t: "sinv t" "frame s t" "bits_left t < bits_left s" for type last t
    unfolding ok_run_def post_bindE
  proof (rule post_mono [OF block_safe [OF t(1), unfolded ok_run_def]], goal_cases)
    case (1 err u)
    then show ?case by (intro fin [unfolded ok_run_def, OF t(2,3)]) blast+
  next
    case (2 e u)
    then show ?case by (rule jumped_trans [OF t(2)])
  qed
  have rd: "post Q (jumped s) (bits t (int n))"
    if "sinv t" "frame s t" "bits_left t \<le> bits_left s" "n \<le> 24"
      "\<And>v u. sinv u \<Longrightarrow> frame s u \<Longrightarrow> bits_left u + n = bits_left t \<Longrightarrow> Q v u"
    for Q t n
    by (rule post_mono [OF bits_safe [OF that(1,4)]])
       (use that(2,3) in \<open>auto intro!: that(5) intro: frame_trans jumped_trans\<close>)
  show ?case
    unfolding blocks_loop.simps ok_run_def post_bindE
    by (intro rd [of _ 1, simplified] rd [of _ 2, simplified] blk [unfolded ok_run_def, simplified post_bindE])
       (use Suc.prems(1) in simp_all)
qed simp

lemma init_sinv:
  assumes "size_ok sourcelen" "dest \<noteq> NIL \<longrightarrow> size_ok destlen" "virgin (fx w) \<or> fixed_build = Some (fx w)"
  shows "sinv (init_state w dest destlen source sourcelen)"
  using assms by (auto simp: sinv_def bounds_def wf_bits_def init_state_def)

text \<open>The static tables of \<open>fixed()\<close> are untouched or completely built, between any two calls.\<close>

definition statics_ok :: "world \<Rightarrow> bool" where
  "statics_ok w \<longleftrightarrow> virgin (fx w) \<or> fixed_build = Some (fx w)"

definition out_area :: "u32 \<Rightarrow> u32 \<Rightarrow> u32 set" where
  "out_area dest destlen = (if dest = NIL then {} else region dest (unat destlen))"

lemma puff_run_safe:
  assumes "size_ok sourcelen" "dest \<noteq> NIL \<longrightarrow> size_ok destlen" "statics_ok w"
  shows "\<exists>err n k w'. puff w dest destlen source sourcelen = (Inr (err, n, k), w') \<and>
    - 11 \<le> err \<and> err \<le> 2 \<and> k \<le> sourcelen \<and> (dest \<noteq> NIL \<longrightarrow> n \<le> destlen) \<and>
    (\<forall>x. x \<notin> out_area dest destlen \<longrightarrow> mem w' x = mem w x) \<and> statics_ok w' \<and> stk w' = stk w"
proof -
  let ?s = "init_state w dest destlen source sourcelen"
  have "sinv ?s" using assms by (intro init_sinv) (auto simp: statics_ok_def)
  then have run: "ok_run puff_codes ?s (blocks_loop (bits_left ?s + 1) ?s)"
    by (rule blocks_loop_safe) simp
  obtain r s where rs: "blocks_loop (bits_left ?s + 1) ?s = (r, s)" by fastforce
  have run': "ok_run puff_codes ?s (r, s)" using run unfolding rs .
  have fb: "frame ?s s" "bounds s"
    using run' by (cases r; auto simp: ok_run_def jumped_def)+
  have w: "\<forall>x. x \<notin> out_area dest destlen \<longrightarrow> mem s x = mem w x" "statics_ok (world_of s)" "stk s = stk w"
    "incnt s \<le> sourcelen" "dest \<noteq> NIL \<longrightarrow> outcnt s \<le> destlen"
    using fb by (auto simp: frame_def bounds_def writable_def out_area_def init_state_def statics_ok_def world_of_def)
  show ?thesis
  proof (cases r)
    case (Inl e)
    then have "e = Longjmp" using run' by (simp add: ok_run_def jumped_def)
    with Inl w show ?thesis unfolding puff_def Let_def rs by (simp add: world_of_def)
  next
    case (Inr err)
    then have "- 11 \<le> err" "err \<le> 2" using run' by (auto simp: ok_run_def)
    with Inr w show ?thesis unfolding puff_def Let_def rs by (simp add: world_of_def)
  qed
qed

text \<open>
  C1. \<open>puff()\<close> is memory safe and terminates: on every input, well-formed or not, of up to 4 GB
  less 64 KB (and a buffer of that size, \<open>size_ok\<close>), it returns
  (no array index outside its bounds, no endless loop) with a code between -11 and 2; it writes
  nothing outside the \<open>destlen\<close> bytes at \<open>dest\<close> (nothing at all for \<open>dest = NIL\<close>); the counts it
  stores through \<open>destlen\<close> and \<open>sourcelen\<close> do not exceed the sizes it was given; and it leaves the
  static tables of \<open>fixed()\<close> fit for the next call.
\<close>

theorem puff_safe:
  assumes "size_ok sourcelen" "dest \<noteq> NIL \<longrightarrow> size_ok destlen" "statics_ok w"
  shows "\<exists>err n k w'. puff w dest destlen source sourcelen = (Inr (err, n, k), w') \<and>
    - 11 \<le> err \<and> err \<le> 2 \<and> k \<le> sourcelen \<and> (dest \<noteq> NIL \<longrightarrow> n \<le> destlen) \<and>
    (\<forall>x. x \<notin> out_area dest destlen \<longrightarrow> mem w' x = mem w x) \<and> statics_ok w' \<and> stk w' = stk w"
  using puff_run_safe [OF assms] .

theorem puff_safe_witness:
  "\<exists>err n k w'. puff \<lparr>mem = (\<lambda>x. ucast x), fx = fixed_init, stk = (\<lambda>i. int i)\<rparr> 0x1000 300 0x2000 77 = (Inr (err, n, k), w') \<and>
    - 11 \<le> err \<and> err \<le> 2 \<and> k \<le> 77 \<and> n \<le> 300 \<and>
    (\<forall>x. x \<notin> region 0x1000 300 \<longrightarrow> mem w' x = ucast x)"
proof -
  have "size_ok 77" "size_ok 300" "statics_ok \<lparr>mem = (\<lambda>x. ucast x), fx = fixed_init, stk = (\<lambda>i. int i)\<rparr>"
    by (simp_all add: size_ok_def statics_ok_def fixed_init_def)
  with puff_safe [of 77 "0x1000" 300 "\<lparr>mem = (\<lambda>x. ucast x), fx = fixed_init, stk = (\<lambda>i. int i)\<rparr>" "0x2000"]
  show ?thesis by (auto simp: out_area_def)
qed

end
