(* ===== verification/CString.thy ===== *)
theory CString
  imports Prelude
begin

text \<open>
  C strings and the library functions BBoot calls on them. A string is what a pointer to it
  reads: the function from the index to the byte there. \<open>at m a\<close> is the string at address \<open>a\<close> of
  memory \<open>m\<close> (addresses wrap), \<open>lit\<close> a string literal. The loops run until they meet the
  terminating NUL, so they are partial functions: no NUL means no result. \<open>strspn\<close> and \<open>strcspn\<close>
  are the repository's own (\<open>libc/string.c\<close>); the others follow the C library's contract, which
  the assembly in \<open>libc/string_ppc.S\<close> provides.
\<close>

subsection \<open>Functions\<close>

type_synonym cstr = "nat \<Rightarrow> u8"

definition at :: "mem \<Rightarrow> u32 \<Rightarrow> cstr" where
  "at m a = (\<lambda>i. m (a + of_nat i))"

definition char_byte :: "char \<Rightarrow> u8" where
  "char_byte c = of_nat (of_char c)"

definition lit :: "string \<Rightarrow> cstr" where
  "lit cs = (\<lambda>i. if i < length cs then char_byte (cs ! i) else 0)"

definition in_array :: "u8 list \<Rightarrow> cstr" where
  "in_array xs = (\<lambda>i. if i < length xs then xs ! i else 0)"

partial_function (option) strlen_from :: "cstr \<Rightarrow> nat \<Rightarrow> nat option" where [code]:
  "strlen_from s i = (if s i = 0 then Some i else strlen_from s (i + 1))"

definition strlen :: "cstr \<Rightarrow> nat option" where
  "strlen s = strlen_from s 0"

partial_function (option) strcmp_from :: "cstr \<Rightarrow> cstr \<Rightarrow> nat \<Rightarrow> int option" where [code]:
  "strcmp_from s t i =
     (let d = uint (s i) - uint (t i) in
      if s i = 0 then Some d else if d = 0 then strcmp_from s t (i + 1) else Some d)"

definition strcmp :: "cstr \<Rightarrow> cstr \<Rightarrow> int option" where
  "strcmp s t = strcmp_from s t 0"

fun strncmp_from :: "cstr \<Rightarrow> cstr \<Rightarrow> nat \<Rightarrow> nat \<Rightarrow> int" where
  "strncmp_from s t i 0 = 0"
| "strncmp_from s t i (Suc n) =
     (let d = uint (s i) - uint (t i) in
      if s i = 0 \<or> d \<noteq> 0 then d else strncmp_from s t (i + 1) n)"

definition strncmp :: "cstr \<Rightarrow> cstr \<Rightarrow> nat \<Rightarrow> int" where
  "strncmp s t n = strncmp_from s t 0 n"

text \<open>\<open>strchr\<close> and \<open>strrchr\<close>: the index found, or \<open>None\<close> for \<open>NULL\<close>.\<close>

partial_function (option) strchr_from :: "cstr \<Rightarrow> u8 \<Rightarrow> nat \<Rightarrow> nat option option" where [code]:
  "strchr_from s c i =
     (if s i = c then Some (Some i) else if s i = 0 then Some None else strchr_from s c (i + 1))"

definition strchr :: "cstr \<Rightarrow> u8 \<Rightarrow> nat option option" where
  "strchr s c = strchr_from s c 0"

partial_function (option) strrchr_from :: "cstr \<Rightarrow> u8 \<Rightarrow> nat option \<Rightarrow> nat \<Rightarrow> nat option option" where [code]:
  "strrchr_from s c r i =
     (if s i = 0 then Some r
      else strrchr_from s c (if s i = c then Some i else r) (i + 1))"

definition strrchr :: "cstr \<Rightarrow> u8 \<Rightarrow> nat option option" where
  "strrchr s c = strrchr_from s c None 0"

partial_function (option) strspn_from :: "cstr \<Rightarrow> cstr \<Rightarrow> nat \<Rightarrow> nat option" where [code]:
  "strspn_from s a i =
     (if s i = 0 then Some i
      else Option.bind (strchr a (s i)) (\<lambda>r.
        if r = None then Some i else strspn_from s a (i + 1)))"

definition strspn :: "cstr \<Rightarrow> cstr \<Rightarrow> nat option" where
  "strspn s a = strspn_from s a 0"

partial_function (option) strcspn_from :: "cstr \<Rightarrow> cstr \<Rightarrow> nat \<Rightarrow> nat option" where [code]:
  "strcspn_from s a i =
     (if s i = 0 then Some i
      else Option.bind (strchr a (s i)) (\<lambda>r.
        if r \<noteq> None then Some i else strcspn_from s a (i + 1)))"

definition strcspn :: "cstr \<Rightarrow> cstr \<Rightarrow> nat option" where
  "strcspn s a = strcspn_from s a 0"

text \<open>\<open>memcpy\<close> of areas that do not overlap, and \<open>memmove\<close> of any.\<close>

definition memcpy :: "mem \<Rightarrow> u32 \<Rightarrow> u32 \<Rightarrow> nat \<Rightarrow> mem" where
  "memcpy m d s n = store_bytes m d (bytes m s n)"

partial_function (option) strcpy :: "mem \<Rightarrow> u32 \<Rightarrow> u32 \<Rightarrow> mem option" where [code]:
  "strcpy m d s =
     (let m' = m(d := m s) in if m s = 0 then Some m' else strcpy m' (d + 1) (s + 1))"

subsection \<open>What they compute\<close>

text \<open>\<open>cstring s xs\<close>: the string that \<open>s\<close> points to, up to its NUL, is \<open>xs\<close>.\<close>

definition cstring :: "cstr \<Rightarrow> u8 list \<Rightarrow> bool" where
  "cstring s xs \<longleftrightarrow> (\<forall>i<length xs. s i = xs ! i) \<and> 0 \<notin> set xs \<and> s (length xs) = 0"

definition chars :: "string \<Rightarrow> u8 list" where
  "chars cs = map char_byte cs"

lemma cstringD:
  assumes "cstring s xs"
  shows "i < length xs \<Longrightarrow> s i = xs ! i" "i < length xs \<Longrightarrow> xs ! i \<noteq> 0" "s (length xs) = 0" "0 \<notin> set xs"
  using assms by (auto simp: cstring_def) (metis nth_mem)

lemma cstring_nz: "cstring s xs \<Longrightarrow> i < length xs \<Longrightarrow> s i \<noteq> 0"
  using cstringD by metis

lemma char_byte_inject [simp]: "char_byte c = char_byte d \<longleftrightarrow> c = d"
proof
  have small: "(of_char c :: nat) < 2 ^ 8" for c :: char
    using nat_of_char_less_256 [of c] by simp
  assume "char_byte c = char_byte d"
  then have "unat (char_byte c) = unat (char_byte d)" by simp
  then have "(of_char c :: nat) = of_char d"
    using small by (simp add: char_byte_def unat_of_nat take_bit_nat_eq_self)
  then show "c = d" by (simp add: of_char_eq_iff)
qed simp

lemma char_byte_0: "char_byte (CHR 0x00) = 0"
  by (simp add: char_byte_def)

lemma cstring_lit: "CHR 0x00 \<notin> set cs \<Longrightarrow> cstring (lit cs) (chars cs)"
  by (auto simp: cstring_def lit_def chars_def char_byte_0 [symmetric] simp del: char_byte_0)

lemma cstring_inj:
  assumes "cstring s xs" "cstring s ys"
  shows "xs = ys"
proof -
  have "\<not> length xs < length ys" "\<not> length ys < length xs"
    using assms cstring_nz cstringD(3) by metis+
  then show ?thesis using assms by (auto simp: cstring_def intro!: nth_equalityI)
qed

lemma strlen_cstring:
  assumes "cstring s xs"
  shows "strlen s = Some (length xs)"
proof -
  have "strlen_from s 0 = Some (length xs)"
  proof (rule inc_induct [of 0 "length xs" "\<lambda>i. strlen_from s i = Some (length xs)"])
    fix n assume "n < length xs" "strlen_from s (Suc n) = Some (length xs)"
    then show "strlen_from s n = Some (length xs)"
      using cstring_nz [OF assms] by (simp add: strlen_from.simps [of s n])
  qed (simp_all add: strlen_from.simps cstringD(3) [OF assms])
  then show ?thesis by (simp add: strlen_def)
qed

lemma strlen_from_nul: "strlen_from s i = Some n \<Longrightarrow> s n = 0"
  by (rule strlen_from.raw_induct [where P = "\<lambda>s i n. s n = 0"]) (auto split: if_splits)

lemma nul_cstring: "s k = 0 \<Longrightarrow> \<exists>xs. cstring s xs"
proof -
  assume nul: "s k = 0"
  then obtain n where n: "s n = 0" "\<And>i. i < n \<Longrightarrow> s i \<noteq> 0"
    using exists_least_iff [of "\<lambda>i. s i = 0"] by blast
  have "0 \<notin> set (map s [0..<n])"
  proof
    assume "0 \<in> set (map s [0..<n])"
    then obtain i where "i < n" "s i = 0" by auto
    with n(2) show False by blast
  qed
  then have "cstring s (map s [0..<n])" using n(1) by (simp add: cstring_def)
  then show ?thesis by blast
qed

lemma strlen_exists: "strlen s = Some n \<Longrightarrow> \<exists>xs. cstring s xs \<and> length xs = n"
proof -
  assume n: "strlen s = Some n"
  then have "s n = 0" unfolding strlen_def by (rule strlen_from_nul)
  then obtain xs where "cstring s xs" using nul_cstring by blast
  with n strlen_cstring [OF this] show ?thesis by auto
qed

text \<open>\<open>strcmp()\<close> returns zero exactly on equal strings.\<close>

lemma strcmp_from_cstring:
  assumes "cstring s xs" "cstring t ys" "i \<le> length xs" "i \<le> length ys" "take i xs = take i ys"
  shows "\<exists>d. strcmp_from s t i = Some d \<and> (d = 0 \<longleftrightarrow> xs = ys)"
  using assms(3-5)
proof (induction "length xs - i" arbitrary: i)
  case 0
  then have i: "s i = 0" "xs = take i ys" using cstringD(3) [OF assms(1)] by auto
  have "t i = 0 \<longleftrightarrow> xs = ys"
    using i(2) 0 cstringD(3) [OF assms(2)] cstring_nz [OF assms(2), of i] by (cases "i = length ys") auto
  then show ?case using i(1) by (simp add: strcmp_from.simps [of s t i] uint_0_iff)
next
  case (Suc k)
  then have il: "i < length xs" by simp
  then have i: "s i = xs ! i" "s i \<noteq> 0" using cstringD(1) [OF assms(1)] cstring_nz [OF assms(1)] by auto
  show ?case
  proof (cases "s i = t i")
    case True
    then have iy: "i < length ys" using cstringD(3) [OF assms(2)] i(2) Suc.prems(2) by (cases "i = length ys") auto
    then have "take (Suc i) xs = take (Suc i) ys"
      using True i(1) il Suc.prems(3) cstringD(1) [OF assms(2)] by (simp add: take_Suc_conv_app_nth)
    moreover have "k = length xs - Suc i" using Suc.hyps(2) by simp
    ultimately show ?thesis using Suc.hyps(1) [of "Suc i"] i(2) il iy True
      by (simp add: strcmp_from.simps [of s t i])
  next
    case False
    moreover from False have "uint (s i) - uint (t i) \<noteq> 0" by (simp add: word_uint_eq_iff)
    moreover have "xs \<noteq> ys" using False i(1) il cstringD(1) [OF assms(2)] by auto
    ultimately show ?thesis using i(2) by (simp add: strcmp_from.simps [of s t i])
  qed
qed

lemma strcmp_cstring:
  assumes "cstring s xs" "cstring t ys"
  shows "\<exists>d. strcmp s t = Some d \<and> (d = 0 \<longleftrightarrow> xs = ys)"
  using strcmp_from_cstring [OF assms, of 0] by (simp add: strcmp_def)

lemma strchr_from_cstring:
  assumes "cstring s xs" "c \<noteq> 0" "i \<le> length xs"
  shows "strchr_from s c i =
    Some (if c \<in> set (drop i xs) then Some (i + length (takeWhile (\<lambda>x. x \<noteq> c) (drop i xs))) else None)"
  using assms(3)
proof (induction rule: inc_induct)
  case base
  then show ?case using assms(2) cstringD(3) [OF assms(1)] by (simp add: strchr_from.simps)
next
  case (step n)
  then have "s n = xs ! n" "s n \<noteq> 0" using cstringD(1) cstring_nz assms(1) by blast+
  moreover have "drop n xs = xs ! n # drop (Suc n) xs" using step by (simp add: Cons_nth_drop_Suc)
  ultimately show ?case using step by (auto simp: strchr_from.simps [of s c n])
qed

lemma strchr_cstring:
  "cstring s xs \<Longrightarrow> c \<noteq> 0 \<Longrightarrow>
   strchr s c = Some (if c \<in> set xs then Some (length (takeWhile (\<lambda>x. x \<noteq> c) xs)) else None)"
  using strchr_from_cstring [of s xs c 0] by (simp add: strchr_def)

lemma strspn_from_cstring:
  assumes "cstring s xs" "cstring a as" "i \<le> length xs"
  shows "strspn_from s a i = Some (i + length (takeWhile (\<lambda>c. c \<in> set as) (drop i xs)))"
  using assms(3)
proof (induction rule: inc_induct)
  case base
  then show ?case using cstringD(3) [OF assms(1)] by (simp add: strspn_from.simps)
next
  case (step n)
  then have "s n = xs ! n" "s n \<noteq> 0" using cstringD(1) cstring_nz assms(1) by blast+
  moreover have "drop n xs = xs ! n # drop (Suc n) xs" using step by (simp add: Cons_nth_drop_Suc)
  ultimately show ?case using step strchr_cstring [OF assms(2)] by (simp add: strspn_from.simps [of s a n])
qed

lemma strcspn_from_cstring:
  assumes "cstring s xs" "cstring a as" "i \<le> length xs"
  shows "strcspn_from s a i = Some (i + length (takeWhile (\<lambda>c. c \<notin> set as) (drop i xs)))"
  using assms(3)
proof (induction rule: inc_induct)
  case base
  then show ?case using cstringD(3) [OF assms(1)] by (simp add: strcspn_from.simps)
next
  case (step n)
  then have "s n = xs ! n" "s n \<noteq> 0" using cstringD(1) cstring_nz assms(1) by blast+
  moreover have "drop n xs = xs ! n # drop (Suc n) xs" using step by (simp add: Cons_nth_drop_Suc)
  ultimately show ?case using step strchr_cstring [OF assms(2)] by (simp add: strcspn_from.simps [of s a n])
qed

lemma strspn_cstring:
  "cstring s xs \<Longrightarrow> cstring a as \<Longrightarrow> strspn s a = Some (length (takeWhile (\<lambda>c. c \<in> set as) xs))"
  using strspn_from_cstring [of s xs a as 0] by (simp add: strspn_def)

lemma strcspn_cstring:
  "cstring s xs \<Longrightarrow> cstring a as \<Longrightarrow> strcspn s a = Some (length (takeWhile (\<lambda>c. c \<notin> set as) xs))"
  using strcspn_from_cstring [of s xs a as 0] by (simp add: strcspn_def)

text \<open>\<open>strcpy()\<close> between areas that do not overlap.\<close>

lemma cstring_at_Cons:
  "cstring (at m a) (x # xs) \<longleftrightarrow> m a = x \<and> x \<noteq> 0 \<and> cstring (at m (a + 1)) xs"
proof -
  have shift: "at m (a + 1) i = at m a (Suc i)" for i by (simp add: at_def ac_simps)
  have a0: "at m a 0 = m a" by (simp add: at_def)
  have all: "(\<forall>i<Suc (length xs). at m a i = (x # xs) ! i) \<longleftrightarrow>
      m a = x \<and> (\<forall>i<length xs. at m a (Suc i) = xs ! i)"
    using a0 by (auto simp: less_Suc_eq_0_disj)
  show ?thesis
    unfolding cstring_def shift by (auto simp: all)
qed

lemma cstring_at_Nil: "cstring (at m a) [] \<longleftrightarrow> m a = 0"
  by (simp add: cstring_def at_def)

lemma cstring_at_cong:
  assumes "cstring (at m a) xs" "\<And>x. x \<in> region a (Suc (length xs)) \<Longrightarrow> m' x = m x"
  shows "cstring (at m' a) xs"
proof -
  have "at m' a i = at m a i" if "i \<le> length xs" for i
    using assms(2) [of "a + of_nat i"] region_offset [of i "Suc (length xs)" a] that by (simp add: at_def)
  then show ?thesis using assms(1) by (simp add: cstring_def)
qed

lemma strcpy_spec:
  "cstring (at m s) xs \<Longrightarrow> apart d (Suc (length xs)) s (Suc (length xs)) \<Longrightarrow>
   strcpy m d s = Some (store_bytes m d (xs @ [0]))"
proof (induction xs arbitrary: m d s)
  case Nil
  then show ?case by (simp add: strcpy.simps cstring_at_Nil fun_upd_def)
next
  case (Cons x xs)
  let ?n = "Suc (length xs)"
  have sub: "region (a + 1) ?n \<subseteq> region a (Suc ?n)" for a
    using region_shift [of a 1 ?n] by simp
  have disj: "region d (Suc ?n) \<inter> region s (Suc ?n) = {}" using Cons.prems(2) by (simp add: apart_def)
  have ap: "apart (d + 1) ?n (s + 1) ?n"
    unfolding apart_def using disj sub [of d] sub [of s] by blast
  have "d \<in> region d (Suc ?n)" using region_offset [of 0 "Suc ?n" d] by simp
  then have d: "d \<notin> region (s + 1) ?n" using disj sub [of s] by blast
  have "cstring (at m (s + 1)) xs" using Cons.prems(1) by (simp only: cstring_at_Cons)
  then have "cstring (at (m(d := m s)) (s + 1)) xs"
    by (rule cstring_at_cong) (use d in auto)
  from Cons.IH [OF this ap] show ?case
    using Cons.prems(1) by (auto simp: strcpy.simps [of m d s] cstring_at_Cons fun_upd_def)
qed

lemma cstring_store:
  assumes "0 \<notin> set xs" "Suc (length xs) \<le> 2 ^ 32"
  shows "cstring (at (store_bytes m d (xs @ [0])) d) xs"
  using assms store_bytes_nth [of "xs @ [0]" _ m d]
  by (auto simp: cstring_def at_def nth_append)

end
