(* ===== verification/Zip.thy ===== *)
theory Zip
  imports Puff_Safety CString
begin

text \<open>
  The zip reader of \<open>zip/zip.c\<close> with the headers of \<open>zip/junzip.h\<close>. The archive lies in memory
  and every header field is read from there when the code reads it, as a big-endian machine
  loads it; \<open>LE16\<close>/\<open>LE32\<close> swap the bytes. \<open>zip_t\<close> holds pointers into the archive, with 0 for
  \<open>NULL\<close>; the functions get a pointer to a \<open>zip_t\<close> that the callers own, so it is never \<open>NULL\<close>
  here, and return the updated structure.
\<close>

subsection \<open>junzip.h\<close>

record JZLocalFileHeader =
  lfh_signature :: u32
  lfh_versionNeededToExtract :: u16
  lfh_generalPurposeBitFlag :: u16
  lfh_compressionMethod :: u16
  lfh_lastModFileTime :: u16
  lfh_lastModFileDate :: u16
  lfh_crc32 :: u32
  lfh_compressedSize :: u32
  lfh_uncompressedSize :: u32
  lfh_fileNameLength :: u16
  lfh_extraFieldLength :: u16

record JZGlobalFileHeader =
  gfh_signature :: u32
  gfh_versionMadeBy :: u16
  gfh_versionNeededToExtract :: u16
  gfh_generalPurposeBitFlag :: u16
  gfh_compressionMethod :: u16
  gfh_lastModFileTime :: u16
  gfh_lastModFileDate :: u16
  gfh_crc32 :: u32
  gfh_compressedSize :: u32
  gfh_uncompressedSize :: u32
  gfh_fileNameLength :: u16
  gfh_extraFieldLength :: u16
  gfh_fileCommentLength :: u16
  gfh_diskNumberStart :: u16
  gfh_internalFileAttributes :: u16
  gfh_externalFileAttributes :: u32
  gfh_relativeOffsetOflocalHeader :: u32

record JZEndRecord =
  er_signature :: u32
  er_diskNumber :: u16
  er_centralDirectoryDiskNumber :: u16
  er_numEntriesThisDisk :: u16
  er_numEntries :: u16
  er_centralDirectorySize :: u32
  er_centralDirectoryOffset :: u32
  er_zipCommentLength :: u16

abbreviation sizeof_LocalFileHeader :: u32 where "sizeof_LocalFileHeader \<equiv> 30"
abbreviation sizeof_GlobalFileHeader :: u32 where "sizeof_GlobalFileHeader \<equiv> 46"
abbreviation sizeof_EndRecord :: u32 where "sizeof_EndRecord \<equiv> 22"

text \<open>The packed structures as they are loaded through a pointer.\<close>

definition lfh_at :: "mem \<Rightarrow> u32 \<Rightarrow> JZLocalFileHeader" where
  "lfh_at m a =
     \<lparr>lfh_signature = get_be32 m a, lfh_versionNeededToExtract = get_be16 m (a + 4),
      lfh_generalPurposeBitFlag = get_be16 m (a + 6), lfh_compressionMethod = get_be16 m (a + 8),
      lfh_lastModFileTime = get_be16 m (a + 10), lfh_lastModFileDate = get_be16 m (a + 12),
      lfh_crc32 = get_be32 m (a + 14), lfh_compressedSize = get_be32 m (a + 18),
      lfh_uncompressedSize = get_be32 m (a + 22), lfh_fileNameLength = get_be16 m (a + 26),
      lfh_extraFieldLength = get_be16 m (a + 28)\<rparr>"

definition gfh_at :: "mem \<Rightarrow> u32 \<Rightarrow> JZGlobalFileHeader" where
  "gfh_at m a =
     \<lparr>gfh_signature = get_be32 m a, gfh_versionMadeBy = get_be16 m (a + 4),
      gfh_versionNeededToExtract = get_be16 m (a + 6), gfh_generalPurposeBitFlag = get_be16 m (a + 8),
      gfh_compressionMethod = get_be16 m (a + 10), gfh_lastModFileTime = get_be16 m (a + 12),
      gfh_lastModFileDate = get_be16 m (a + 14), gfh_crc32 = get_be32 m (a + 16),
      gfh_compressedSize = get_be32 m (a + 20), gfh_uncompressedSize = get_be32 m (a + 24),
      gfh_fileNameLength = get_be16 m (a + 28), gfh_extraFieldLength = get_be16 m (a + 30),
      gfh_fileCommentLength = get_be16 m (a + 32), gfh_diskNumberStart = get_be16 m (a + 34),
      gfh_internalFileAttributes = get_be16 m (a + 36), gfh_externalFileAttributes = get_be32 m (a + 38),
      gfh_relativeOffsetOflocalHeader = get_be32 m (a + 42)\<rparr>"

definition er_at :: "mem \<Rightarrow> u32 \<Rightarrow> JZEndRecord" where
  "er_at m a =
     \<lparr>er_signature = get_be32 m a, er_diskNumber = get_be16 m (a + 4),
      er_centralDirectoryDiskNumber = get_be16 m (a + 6), er_numEntriesThisDisk = get_be16 m (a + 8),
      er_numEntries = get_be16 m (a + 10), er_centralDirectorySize = get_be32 m (a + 12),
      er_centralDirectoryOffset = get_be32 m (a + 16), er_zipCommentLength = get_be16 m (a + 20)\<rparr>"

subsection \<open>zip.c\<close>

record zip_t =
  z_data :: u32
  z_len :: u32
  z_er :: u32
  z_gfh :: u32

abbreviation Z_OK :: int where "Z_OK \<equiv> 0"
abbreviation Z_ERROR :: int where "Z_ERROR \<equiv> - 1"

function zip_findLen_loop :: "mem \<Rightarrow> u32 \<Rightarrow> u32 \<Rightarrow> u32 \<Rightarrow> u32" where
  "zip_findLen_loop m zipdata i maxlen =
     (if i < maxlen then
        if get_be32 m zipdata = 0x504b0506 then i + sizeof_EndRecord
        else zip_findLen_loop m (zipdata + 1) (i + 1) maxlen
      else 0)"
  by pat_completeness auto
termination
  by (relation "measure (\<lambda>(m, zipdata, i, maxlen). unat (maxlen - i))") (simp_all add: unat_diff_Suc)

declare zip_findLen_loop.simps [simp del]

definition zip_findLen :: "mem \<Rightarrow> u32 \<Rightarrow> u32 \<Rightarrow> u32" where
  "zip_findLen m zipdata maxlen =
     (if zipdata \<noteq> 0 \<and> get_be32 m zipdata = 0x504b0304 then
        zip_findLen_loop m (zipdata + sizeof_LocalFileHeader) sizeof_LocalFileHeader maxlen
      else 0)"

text \<open>
  The search for the end record. The loop variable \<open>i\<close> is a signed \<open>long\<close>; \<open>n\<close> is \<open>i + 1\<close>, 0 when
  the loop ends with \<open>i < 0\<close>.
\<close>

fun zip_find_er :: "mem \<Rightarrow> u32 \<Rightarrow> nat \<Rightarrow> u32 option" where
  "zip_find_er m zipdata 0 = None"
| "zip_find_er m zipdata (Suc i) =
     (if er_signature (er_at m (zipdata + of_nat i)) = 0x504B0506 then Some (zipdata + of_nat i)
      else zip_find_er m zipdata i)"

definition zip_openBuffer :: "mem \<Rightarrow> zip_t \<Rightarrow> u32 \<Rightarrow> u32 \<Rightarrow> int \<times> zip_t" where
  "zip_openBuffer m z zipdata ziplen =
     (if ziplen \<le> sizeof_EndRecord then (Z_ERROR, z)
      else
        case zip_find_er m zipdata (nat (sint (ziplen - sizeof_EndRecord) + 1)) of
          None \<Rightarrow> (Z_ERROR, z)
        | Some er \<Rightarrow>
            let e = er_at m er in
            if er_diskNumber e \<noteq> 0 \<or> er_centralDirectoryDiskNumber e \<noteq> 0 \<or>
               er_numEntries e \<noteq> er_numEntriesThisDisk e
            then (Z_ERROR, z)
            else (Z_OK, z\<lparr>z_data := zipdata, z_len := ziplen, z_er := er, z_gfh := 0\<rparr>))"

definition zip_numEntries :: "mem \<Rightarrow> zip_t \<Rightarrow> u32" where
  "zip_numEntries m z = ucast (LE16 (er_numEntries (er_at m (z_er z))))"

definition zip_readdir :: "mem \<Rightarrow> zip_t \<Rightarrow> int \<times> zip_t" where
  "zip_readdir m z =
     (if z_er z = 0 then (Z_ERROR, z)
      else
        let offs =
          (if z_gfh z = 0 then LE32 (er_centralDirectoryOffset (er_at m (z_er z)))
           else
             let g = gfh_at m (z_gfh z) in
             z_gfh z - z_data z + sizeof_GlobalFileHeader + ucast (LE16 (gfh_fileNameLength g))
               + ucast (LE16 (gfh_extraFieldLength g))) in
        if offs \<ge> z_len z then (Z_ERROR, z)
        else
          let z = z\<lparr>z_gfh := z_data z + offs\<rparr> in
          if gfh_signature (gfh_at m (z_gfh z)) \<noteq> 0x504B0102 then (Z_ERROR, z\<lparr>z_gfh := 0\<rparr>)
          else (Z_OK, z))"

definition zip_file_compressedSize :: "mem \<Rightarrow> zip_t \<Rightarrow> u32" where
  "zip_file_compressedSize m z = LE32 (gfh_compressedSize (gfh_at m (z_gfh z)))"

definition zip_file_uncompressedSize :: "mem \<Rightarrow> zip_t \<Rightarrow> u32" where
  "zip_file_uncompressedSize m z = LE32 (gfh_uncompressedSize (gfh_at m (z_gfh z)))"

definition zip_file_fileNameLength :: "mem \<Rightarrow> zip_t \<Rightarrow> u32" where
  "zip_file_fileNameLength m z = ucast (LE16 (gfh_fileNameLength (gfh_at m (z_gfh z))))"

text \<open>
  \<open>zip_file_get_name\<close>: the result code and what the buffer holds, name and NUL. The buffer of
  its only caller is the local array \<open>fnbuf\<close>.
\<close>

definition zip_file_get_name :: "mem \<Rightarrow> zip_t \<Rightarrow> int \<times> u8 list" where
  "zip_file_get_name m z =
     (if z_gfh z = 0 then (Z_ERROR, [])
      else (Z_OK, bytes m (z_gfh z + sizeof_GlobalFileHeader) (unat (zip_file_fileNameLength m z)) @ [0]))"

fun zip_file_find_loop :: "mem \<Rightarrow> nat \<Rightarrow> zip_t \<Rightarrow> cstr \<Rightarrow> u32 \<Rightarrow> (int \<times> zip_t) option" where
  "zip_file_find_loop m 0 z name len = Some (Z_ERROR, z)"
| "zip_file_find_loop m (Suc n) z name len =
     (case zip_readdir m z of (err, z) \<Rightarrow>
        if err \<noteq> 0 then Some (Z_ERROR, z)
        else
          let fnlen = zip_file_fileNameLength m z in
          if fnlen > 256 - 1 then Some (Z_ERROR, z)
          else if fnlen = len then
            Option.bind (strcmp (in_array (snd (zip_file_get_name m z))) name) (\<lambda>d.
              if d = 0 then Some (Z_OK, z) else zip_file_find_loop m n z name len)
          else zip_file_find_loop m n z name len)"

definition zip_file_find :: "mem \<Rightarrow> zip_t \<Rightarrow> cstr \<Rightarrow> (int \<times> zip_t) option" where
  "zip_file_find m z name =
     (if z_er z = 0 then Some (Z_ERROR, z)
      else
        let z = z\<lparr>z_gfh := 0\<rparr> in
        Option.bind (strlen name) (\<lambda>len.
          zip_file_find_loop m (unat (zip_numEntries m z)) z name (of_nat len)))"

text \<open>
  \<open>zip_file_extract\<close> changes memory only; \<open>puff\<close> may be undefined (it is not, for sizes it can
  handle: \<open>puff_safe\<close>), which is passed on.
\<close>

definition zip_file_extract :: "world \<Rightarrow> zip_t \<Rightarrow> u32 \<Rightarrow> (puff_exn + int) \<times> world" where
  "zip_file_extract w z buffer =
     (if z_gfh z = 0 \<or> buffer = 0 then (Inr Z_ERROR, w)
      else
        let m = mem w;
            g = gfh_at m (z_gfh z);
            lfh = z_data z + LE32 (gfh_relativeOffsetOflocalHeader g);
            l = lfh_at m lfh in
        if lfh_signature l \<noteq> 0x504B0304 then (Inr Z_ERROR, w)
        else
          let bits = lfh + sizeof_LocalFileHeader + ucast (LE16 (lfh_fileNameLength l))
                + ucast (LE16 (lfh_extraFieldLength l));
              method = LE16 (lfh_compressionMethod l) in
          if method = 0 then
            if gfh_compressedSize g \<noteq> gfh_uncompressedSize g then (Inr Z_ERROR, w)
            else (Inr Z_OK, w\<lparr>mem := memcpy m buffer bits (unat (LE32 (gfh_uncompressedSize g)))\<rparr>)
          else if method = 8 then
            let dstlen = LE32 (gfh_uncompressedSize g); srclen = LE32 (gfh_compressedSize g) in
            case puff w buffer dstlen bits srclen of
              (Inl e, w) \<Rightarrow> (Inl e, w)
            | (Inr (err, _, _), w) \<Rightarrow> (Inr (if err \<noteq> 0 then Z_ERROR else Z_OK), w)
          else (Inr Z_ERROR, w))"

subsection \<open>Finding and opening an archive\<close>

definition er_sig :: "mem \<Rightarrow> u32 \<Rightarrow> nat \<Rightarrow> bool" where
  "er_sig m a i \<longleftrightarrow> get_be32 m (a + of_nat i) = 0x504B0506"

lemma zip_findLen_loop_spec:
  assumes "unat i \<le> unat maxlen"
  shows "if \<exists>k. unat i \<le> k \<and> k < unat maxlen \<and> get_be32 m (p + of_nat k - i) = 0x504b0506
    then \<exists>k. unat i \<le> k \<and> k < unat maxlen \<and> get_be32 m (p + of_nat k - i) = 0x504b0506 \<and>
      (\<forall>j. unat i \<le> j \<and> j < k \<longrightarrow> get_be32 m (p + of_nat j - i) \<noteq> 0x504b0506) \<and>
      zip_findLen_loop m p i maxlen = of_nat k + 22
    else zip_findLen_loop m p i maxlen = 0"
  using assms
proof (induction m p i maxlen rule: zip_findLen_loop.induct)
  case (1 m p i maxlen)
  let ?sig = "\<lambda>k. get_be32 m (p + of_nat k - i) = 0x504b0506"
  consider "unat i = unat maxlen" | "unat i < unat maxlen" "?sig (unat i)" | "unat i < unat maxlen" "\<not> ?sig (unat i)"
    using "1.prems" by linarith
  then show ?case
  proof cases
    case 1
    then have "\<not> i < maxlen" by (simp add: word_less_nat_alt)
    with 1 show ?thesis by (auto simp: zip_findLen_loop.simps [of m p i])
  next
    case 2
    then have "zip_findLen_loop m p i maxlen = i + 22"
      by (simp add: zip_findLen_loop.simps [of m p i] word_less_nat_alt)
    with 2 show ?thesis by (auto intro!: exI [of _ "unat i"])
  next
    case 3
    have less: "i < maxlen" using 3 by (simp add: word_less_nat_alt)
    have Suc: "unat (i + 1) = Suc (unat i)"
      using 3(1) unat32_less [of maxlen] by (subst unat_add_small) auto
    have step: "zip_findLen_loop m p i maxlen = zip_findLen_loop m (p + 1) (i + 1) maxlen"
      using 3 less by (simp add: zip_findLen_loop.simps [of m p i])
    have le: "unat i \<le> k \<and> P k \<longleftrightarrow> Suc (unat i) \<le> k \<and> P k" if "\<not> P (unat i)" for k P
      using that by (auto simp: le_eq_less_or_eq)
    have *: "p + 1 + of_nat k - (i + 1) = p + of_nat k - i" for k by simp
    have nosig: "get_be32 m p \<noteq> 0x504b0506" using 3(2) by simp
    have IH: "if \<exists>k. Suc (unat i) \<le> k \<and> k < unat maxlen \<and> ?sig k
      then \<exists>k. Suc (unat i) \<le> k \<and> k < unat maxlen \<and> ?sig k \<and>
        (\<forall>j. Suc (unat i) \<le> j \<and> j < k \<longrightarrow> \<not> ?sig j) \<and> zip_findLen_loop m p i maxlen = of_nat k + 22
      else zip_findLen_loop m p i maxlen = 0"
      using "1.IH" [OF less nosig] 3(1) unfolding Suc * step by simp
    show ?thesis
    proof (cases "\<exists>k. Suc (unat i) \<le> k \<and> k < unat maxlen \<and> ?sig k")
      case True
      with IH obtain k where k: "Suc (unat i) \<le> k" "k < unat maxlen" "?sig k"
        "\<forall>j. Suc (unat i) \<le> j \<and> j < k \<longrightarrow> \<not> ?sig j" "zip_findLen_loop m p i maxlen = of_nat k + 22" by auto
      then have "\<forall>j. unat i \<le> j \<and> j < k \<longrightarrow> \<not> ?sig j"
        using 3(2) by (metis Suc_leI le_neq_implies_less)
      with k show ?thesis by (auto intro!: exI [of _ k])
    next
      case False
      then have "\<not> (\<exists>k. unat i \<le> k \<and> k < unat maxlen \<and> ?sig k)"
        using 3(2) by (metis Suc_leI le_neq_implies_less)
      with False IH show ?thesis by auto
    qed
  qed
qed

lemma zip_find_er_cases:
  "zip_find_er m a n = None \<and> (\<forall>i<n. \<not> er_sig m a i) \<or>
   (\<exists>i<n. zip_find_er m a n = Some (a + of_nat i) \<and> er_sig m a i \<and> (\<forall>j. i < j \<and> j < n \<longrightarrow> \<not> er_sig m a j))"
proof (induction n)
  case (Suc n)
  show ?case
  proof (cases "er_sig m a n")
    case True
    then show ?thesis by (auto simp: er_at_def er_sig_def intro!: exI [of _ n])
  next
    case False
    then have "zip_find_er m a (Suc n) = zip_find_er m a n" by (simp add: er_at_def er_sig_def)
    with Suc False show ?thesis by (auto simp: less_Suc_eq)
  qed
qed simp

lemma sint_nat: "unat (w :: u32) = k \<Longrightarrow> sint w = (if k < 2 ^ 31 then int k else int k - 2 ^ 32)"
proof -
  assume k: "unat w = k"
  then have u: "uint w = int k" by (metis of_nat_unat)
  have b: "k < 2 ^ 32" using k unat32_less by blast
  show ?thesis
  proof (cases "k < 2 ^ 31")
    case True
    then show ?thesis using u unfolding sint_uint by (simp add: signed_take_bit_int_eq_self_iff)
  next
    case False
    then have "(int k - 2 ^ 31) mod 2 ^ 32 = int k - 2 ^ 31"
      using b by (intro mod_pos_pos_trivial) simp_all
    moreover have "(int k - 2 ^ 31 + 2 ^ 32) mod 2 ^ 32 = (int k - 2 ^ 31) mod 2 ^ 32" by (rule mod_add_self2)
    ultimately have "take_bit 32 (int k + 2 ^ 31) = int k - 2 ^ 31"
      by (simp add: take_bit_eq_mod add.commute)
    with False show ?thesis using u unfolding sint_uint by (simp add: signed_take_bit_eq_take_bit_shift)
  qed
qed

lemma sint_len:
  assumes "22 < unat (n :: u32)"
  shows "nat (sint (n - 22) + 1) = (if unat n < 2 ^ 31 + 22 then unat n - 21 else 0)"
proof -
  obtain k where k: "unat n = k + 22" using assms by (metis le_add_diff_inverse2 less_imp_le)
  have "unat (n - 22) = k" using k by (subst unat_sub) (simp_all add: word_le_nat_alt)
  moreover have "k < 2 ^ 32" using k unat32_less [of n] by simp
  ultimately have "sint (n - 22) = (if k < 2 ^ 31 then int k else int k - 2 ^ 32)" "k < 2 ^ 32"
    using sint_nat by blast+
  then show ?thesis using k by (simp add: nat_add_distrib)
qed

definition single_disk :: "JZEndRecord \<Rightarrow> bool" where
  "single_disk e \<longleftrightarrow> er_diskNumber e = 0 \<and> er_centralDirectoryDiskNumber e = 0 \<and>
     er_numEntries e = er_numEntriesThisDisk e"

definition last_er :: "mem \<Rightarrow> u32 \<Rightarrow> u32 \<Rightarrow> nat \<Rightarrow> bool" where
  "last_er m a n i \<longleftrightarrow> i + 22 \<le> unat n \<and> er_sig m a i \<and> (\<forall>j. i < j \<and> j + 22 \<le> unat n \<longrightarrow> \<not> er_sig m a j)"

lemma last_er_unique: "last_er m a n i \<Longrightarrow> last_er m a n j \<Longrightarrow> i = j"
  unfolding last_er_def by (metis linorder_neqE_nat)

lemma zip_find_er_last:
  assumes "22 < unat n" "unat n < 2 ^ 31 + 22"
  shows "zip_find_er m a (nat (sint (n - 22) + 1)) = Some er \<longleftrightarrow> (\<exists>i. last_er m a n i \<and> er = a + of_nat i)"
proof -
  have n: "nat (sint (n - 22) + 1) = unat n - 21" using sint_len [OF assms(1)] assms(2) by simp
  have le: "i < unat n - 21 \<longleftrightarrow> i + 22 \<le> unat n" for i using assms(1) by linarith
  have "zip_find_er m a (unat n - 21) = None \<and> (\<forall>i. \<not> last_er m a n i) \<or>
    (\<exists>i. zip_find_er m a (unat n - 21) = Some (a + of_nat i) \<and> last_er m a n i)"
    using zip_find_er_cases [of m a "unat n - 21"] unfolding le last_er_def by blast
  then show ?thesis
    unfolding n using last_er_unique by (metis option.distinct(1) option.inject)
qed

lemma zip_openBuffer_ok:
  assumes "22 < unat n" "unat n < 2 ^ 31 + 22" "last_er m a n i" "single_disk (er_at m (a + of_nat i))"
  shows "zip_openBuffer m z a n = (Z_OK, z\<lparr>z_data := a, z_len := n, z_er := a + of_nat i, z_gfh := 0\<rparr>)"
proof -
  have "zip_find_er m a (nat (sint (n - 22) + 1)) = Some (a + of_nat i)"
    using zip_find_er_last [OF assms(1,2)] assms(3) by blast
  moreover have "\<not> n \<le> 22" using assms(1) by (simp add: word_le_nat_alt)
  ultimately show ?thesis
    using assms(4) by (simp add: zip_openBuffer_def single_disk_def Let_def)
qed

text \<open>
  C10. \<open>zip_openBuffer()\<close> accepts a buffer exactly if it is longer than an end record (and below
  2GB, where the signed loop counter works), an end record signature lies in it with a whole
  record behind it, and the last such record describes a single-file archive; it then points
  \<open>er\<close> to that last record. Otherwise it returns \<open>Z_ERROR\<close> and leaves the structure alone.
\<close>

theorem zip_openBuffer_spec:
  "zip_openBuffer m z zipdata ziplen =
     (if 22 < unat ziplen \<and> unat ziplen < 2 ^ 31 + 22 \<and>
         (\<exists>i. last_er m zipdata ziplen i \<and> single_disk (er_at m (zipdata + of_nat i)))
      then (Z_OK, z\<lparr>z_data := zipdata, z_len := ziplen,
              z_er := zipdata + of_nat (THE i. last_er m zipdata ziplen i), z_gfh := 0\<rparr>)
      else (Z_ERROR, z))"
proof (cases "22 < unat ziplen \<and> unat ziplen < 2 ^ 31 + 22")
  case False
  then show ?thesis
    using sint_len [of ziplen] by (auto simp: zip_openBuffer_def word_le_nat_alt)
next
  case True
  show ?thesis
  proof (cases "\<exists>i. last_er m zipdata ziplen i \<and> single_disk (er_at m (zipdata + of_nat i))")
    case ex: True
    then obtain i where i: "last_er m zipdata ziplen i" "single_disk (er_at m (zipdata + of_nat i))" by blast
    moreover have "(THE i. last_er m zipdata ziplen i) = i"
      using i(1) last_er_unique by (intro the_equality) blast+
    ultimately show ?thesis using True zip_openBuffer_ok [of ziplen m zipdata i z] by auto
  next
    case no: False
    have "\<not> ziplen \<le> 22" using True by (simp add: word_le_nat_alt)
    moreover have "\<not> single_disk (er_at m er)"
      if "zip_find_er m zipdata (nat (sint (ziplen - 22) + 1)) = Some er" for er
      using that no zip_find_er_last [of ziplen m zipdata er] True by blast
    ultimately show ?thesis
      using no by (auto simp: zip_openBuffer_def single_disk_def Let_def split: option.split)
  qed
qed

lemma zip_findLen_first:
  assumes "zip_findLen m a maxlen = n" "n \<noteq> 0" "unat maxlen < 2 ^ 31"
  shows "\<exists>i. 30 \<le> i \<and> i < unat maxlen \<and> unat n = i + 22 \<and> er_sig m a i \<and> (\<forall>j. 30 \<le> j \<and> j < i \<longrightarrow> \<not> er_sig m a j)"
proof -
  have loop: "zip_findLen_loop m (a + 30) 30 maxlen = n"
    using assms(1,2) by (auto simp: zip_findLen_def split: if_splits)
  have max: "unat (30 :: u32) \<le> unat maxlen"
  proof (rule ccontr)
    assume "\<not> unat (30 :: u32) \<le> unat maxlen"
    then have "zip_findLen_loop m (a + 30) 30 maxlen = 0"
      by (simp add: zip_findLen_loop.simps word_less_nat_alt)
    with loop assms(2) show False by simp
  qed
  have *: "a + 30 + of_nat k - 30 = a + of_nat k" for k by simp
  obtain k where k: "30 \<le> k" "k < unat maxlen" "er_sig m a k" "\<forall>j. 30 \<le> j \<and> j < k \<longrightarrow> \<not> er_sig m a j"
    "n = of_nat k + 22"
    using zip_findLen_loop_spec [OF max, of m "a + 30"] assms(2) loop
    unfolding er_sig_def * by (auto split: if_splits)
  have "unat n = k + 22"
    using k(2,5) assms(3) by (simp add: unat_add_small unat_of_nat take_bit_nat_eq_self)
  with k show ?thesis by blast
qed

text \<open>
  C11. The length that \<open>zip_findLen()\<close> guesses for an archive of unknown size (\<open>boot_aos_zipkick\<close>
  searches 16MB) ends right behind the first end record signature after the first local header;
  \<open>zip_openBuffer()\<close> on that length takes exactly that record.
\<close>

theorem zip_findLen_openBuffer:
  assumes "zip_findLen m a maxlen = n" "n \<noteq> 0" "unat maxlen < 2 ^ 31"
  shows "er_signature (er_at m (a + n - 22)) = 0x504B0506 \<and> 52 \<le> unat n \<and> unat n < unat maxlen + 22 \<and>
    (\<forall>j. 30 \<le> j \<and> j + 22 < unat n \<longrightarrow> er_signature (er_at m (a + of_nat j)) \<noteq> 0x504B0506) \<and>
    zip_openBuffer m z a n =
      (if single_disk (er_at m (a + n - 22))
       then (Z_OK, z\<lparr>z_data := a, z_len := n, z_er := a + n - 22, z_gfh := 0\<rparr>) else (Z_ERROR, z))"
proof -
  obtain i where i: "30 \<le> i" "i < unat maxlen" "unat n = i + 22" "er_sig m a i"
    "\<forall>j. 30 \<le> j \<and> j < i \<longrightarrow> \<not> er_sig m a j"
    using zip_findLen_first [OF assms] by blast
  have n: "n = of_nat i + 22" using arg_cong [OF i(3), of "of_nat :: nat \<Rightarrow> u32"] by simp
  have er: "a + n - 22 = a + of_nat i" by (simp add: n)
  have rng: "22 < unat n" "unat n < 2 ^ 31 + 22" using i assms(3) by auto
  have last: "last_er m a n i" using i by (simp add: last_er_def)
  have "zip_openBuffer m z a n =
      (if single_disk (er_at m (a + of_nat i))
       then (Z_OK, z\<lparr>z_data := a, z_len := n, z_er := a + of_nat i, z_gfh := 0\<rparr>) else (Z_ERROR, z))"
  proof (cases "single_disk (er_at m (a + of_nat i))")
    case True
    then show ?thesis using zip_openBuffer_ok [OF rng last] by simp
  next
    case False
    moreover have "zip_find_er m a (nat (sint (n - 22) + 1)) = Some (a + of_nat i)"
      using zip_find_er_last [OF rng] last by blast
    ultimately show ?thesis by (simp add: zip_openBuffer_def single_disk_def Let_def)
  qed
  then show ?thesis
    unfolding er using i by (auto simp: er_at_def er_sig_def)
qed

theorem zip_findLen_openBuffer_witness:
  "let m = store_bytes (store_bytes (\<lambda>_. 0) 0x1000 [0x50, 0x4b, 3, 4]) 0x101e [0x50, 0x4b, 5, 6] in
   zip_findLen m 0x1000 0x1000000 = 52 \<and>
   zip_openBuffer m \<lparr>z_data = 0, z_len = 0, z_er = 0, z_gfh = 0\<rparr> 0x1000 52 =
     (Z_OK, \<lparr>z_data = 0x1000, z_len = 52, z_er = 0x101e, z_gfh = 0\<rparr>)"
proof -
  let ?m = "store_bytes (store_bytes (\<lambda>_. 0) 0x1000 [0x50, 0x4b, 3, 4]) 0x101e [0x50, 0x4b, 5, 6]"
  have len: "zip_findLen ?m 0x1000 0x1000000 = 52"
    by (simp add: zip_findLen_def zip_findLen_loop.simps get_be32_def)
  have "single_disk (er_at ?m (0x1000 + 52 - 22))"
    by (simp add: single_disk_def er_at_def get_be16_def)
  with zip_findLen_openBuffer [OF len, of "\<lparr>z_data = 0, z_len = 0, z_er = 0, z_gfh = 0\<rparr>"] len
  show ?thesis by (simp add: Let_def)
qed

subsection \<open>The directory\<close>

text \<open>
  The abstract view of the directory: the structure after each successful \<open>zip_readdir()\<close>, and
  the name of the entry it points to.
\<close>

fun dir_from :: "mem \<Rightarrow> nat \<Rightarrow> zip_t \<Rightarrow> zip_t list" where
  "dir_from m 0 z = []"
| "dir_from m (Suc n) z = (case zip_readdir m z of (err, z') \<Rightarrow> if err \<noteq> 0 then [] else z' # dir_from m n z')"

definition entry_name :: "mem \<Rightarrow> zip_t \<Rightarrow> u8 list" where
  "entry_name m z = bytes m (z_gfh z + 46) (unat (zip_file_fileNameLength m z))"

definition zip_entries :: "mem \<Rightarrow> zip_t \<Rightarrow> zip_t list" where
  "zip_entries m z = dir_from m (unat (zip_numEntries m z)) (z\<lparr>z_gfh := 0\<rparr>)"

definition no_wrap :: "zip_t \<Rightarrow> bool" where
  "no_wrap z \<longleftrightarrow> z_data z \<noteq> 0 \<and> z_er z \<noteq> 0 \<and> unat (z_data z) + unat (z_len z) \<le> 2 ^ 32"

lemma zip_readdir_ok:
  assumes "zip_readdir m z = (0, z')" "no_wrap z"
  shows "no_wrap z' \<and> z_gfh z' \<noteq> 0 \<and> gfh_signature (gfh_at m (z_gfh z')) = 0x504B0102 \<and>
    z' = z\<lparr>z_gfh := z_gfh z'\<rparr> \<and> (\<exists>offs < z_len z. z_gfh z' = z_data z + offs)"
proof -
  obtain offs where o: "offs < z_len z" "z' = z\<lparr>z_gfh := z_data z + offs\<rparr>"
    "gfh_signature (gfh_at m (z_data z + offs)) = 0x504B0102"
    using assms(1) by (auto simp: zip_readdir_def Let_def not_le split: if_splits)
  have "unat (z_data z + offs) = unat (z_data z) + unat offs"
    using assms(2) o(1) by (intro unat_add_small) (auto simp: no_wrap_def word_less_nat_alt)
  moreover have "unat (z_data z) > 0" using assms(2) unat_gt_0 [of "z_data z"] by (simp add: no_wrap_def)
  ultimately have "z_data z + offs \<noteq> 0" by (metis add_gr_0 unat_0 less_numeral_extra(3))
  with o assms(2) show ?thesis by (auto simp: no_wrap_def)
qed

lemma strcmp_name:
  assumes "cstring name xs" "length ys = length xs"
  shows "\<exists>d. strcmp (in_array (ys @ [0])) name = Some d \<and> (d = 0 \<longleftrightarrow> ys = xs)"
proof -
  let ?zs = "takeWhile (\<lambda>c. c \<noteq> 0) ys"
  have "cstring (in_array (ys @ [0])) ?zs"
    unfolding cstring_def
  proof (intro conjI allI impI)
    show "0 \<notin> set ?zs" by (auto dest: set_takeWhileD)
    show "in_array (ys @ [0]) i = ?zs ! i" if "i < length ?zs" for i
      using that length_takeWhile_le [of "\<lambda>c. c \<noteq> 0" ys] by (simp add: in_array_def nth_append takeWhile_nth)
    show "in_array (ys @ [0]) (length ?zs) = 0"
    proof (cases "length ?zs < length ys")
      case True
      then show ?thesis using nth_length_takeWhile [OF True] by (simp add: in_array_def nth_append)
    next
      case False
      then have "length ?zs = length ys" using length_takeWhile_le [of "\<lambda>c. c \<noteq> 0" ys] by simp
      then show ?thesis by (simp add: in_array_def nth_append)
    qed
  qed
  from strcmp_cstring [OF this assms(1)] obtain d where
    d: "strcmp (in_array (ys @ [0])) name = Some d" "d = 0 \<longleftrightarrow> ?zs = xs" by blast
  have "?zs = xs \<longleftrightarrow> ys = xs"
  proof
    assume "?zs = xs"
    then show "ys = xs" using assms(2) by (metis takeWhile_eq_take take_all_iff length_take min.absorb2 order_refl)
  next
    assume "ys = xs"
    then show "?zs = xs" using cstringD(4) [OF assms(1)] by (auto simp: takeWhile_eq_all_conv)
  qed
  with d show ?thesis by blast
qed

lemma zip_file_find_loop_spec:
  assumes "cstring name xs" "length xs < 2 ^ 32" "no_wrap z"
  shows "case find (\<lambda>e. entry_name m e = xs) (takeWhile (\<lambda>e. length (entry_name m e) \<le> 255) (dir_from m n z)) of
      None \<Rightarrow> \<exists>z'. zip_file_find_loop m n z name (of_nat (length xs)) = Some (Z_ERROR, z')
    | Some e \<Rightarrow> zip_file_find_loop m n z name (of_nat (length xs)) = Some (Z_OK, e)"
  using assms(3)
proof (induction n arbitrary: z)
  case (Suc n)
  obtain err z' where rd: "zip_readdir m z = (err, z')" by fastforce
  show ?case
  proof (cases "err = 0")
    case False
    then show ?thesis by (simp add: rd)
  next
    case True
    then have z': "no_wrap z'" "z_gfh z' \<noteq> 0" using zip_readdir_ok [of m z z'] rd Suc.prems by auto
    define fl where "fl = zip_file_fileNameLength m z'"
    have len: "length (entry_name m z') = unat fl" by (simp add: entry_name_def fl_def)
    have small: "fl > 255 \<longleftrightarrow> \<not> length (entry_name m z') \<le> 255"
      unfolding len by (simp add: word_less_nat_alt not_le)
    have eq: "fl = of_nat (length xs) \<longleftrightarrow> length (entry_name m z') = length xs"
      using eq_of_nat32 [OF assms(2)] unfolding len .
    have nm: "snd (zip_file_get_name m z') = entry_name m z' @ [0]"
      using z'(2) by (simp add: zip_file_get_name_def entry_name_def)
    show ?thesis
    proof (cases "fl > 255")
      case True
      then show ?thesis using rd \<open>err = 0\<close> small by (simp add: fl_def [symmetric])
    next
      case ok: False
      have step: "zip_file_find_loop m (Suc n) z name (of_nat (length xs)) =
        (if entry_name m z' = xs then Some (Z_OK, z') else zip_file_find_loop m n z' name (of_nat (length xs)))"
      proof (cases "length (entry_name m z') = length xs")
        case True
        obtain d where d: "strcmp (in_array (entry_name m z' @ [0])) name = Some d" "d = 0 \<longleftrightarrow> entry_name m z' = xs"
          using strcmp_name [OF assms(1) True] by blast
        show ?thesis
          unfolding zip_file_find_loop.simps rd
          using \<open>err = 0\<close> ok eq True nm d(2) by (simp add: fl_def [symmetric] d(1))
      next
        case False
        then show ?thesis
          unfolding zip_file_find_loop.simps rd
          using \<open>err = 0\<close> ok eq by (auto simp: fl_def [symmetric])
      qed
      have dir: "takeWhile (\<lambda>e. length (entry_name m e) \<le> 255) (dir_from m (Suc n) z) =
          z' # takeWhile (\<lambda>e. length (entry_name m e) \<le> 255) (dir_from m n z')"
        using rd \<open>err = 0\<close> ok small by simp
      show ?thesis unfolding step dir using Suc.IH [OF z'(1)] by simp
    qed
  qed
qed simp

lemma find_run_spec:
  assumes "cstring name xs" "length xs < 2 ^ 32" "no_wrap z"
  shows "case find (\<lambda>e. entry_name m e = xs) (takeWhile (\<lambda>e. length (entry_name m e) \<le> 255) (zip_entries m z)) of
      None \<Rightarrow> \<exists>z'. zip_file_find m z name = Some (Z_ERROR, z')
    | Some e \<Rightarrow> zip_file_find m z name = Some (Z_OK, e)"
proof -
  have "no_wrap (z\<lparr>z_gfh := 0\<rparr>)" using assms(3) by (simp add: no_wrap_def)
  moreover have "zip_numEntries m (z\<lparr>z_gfh := 0\<rparr>) = zip_numEntries m z" by (simp add: zip_numEntries_def)
  ultimately have "zip_file_find m z name =
      zip_file_find_loop m (unat (zip_numEntries m z)) (z\<lparr>z_gfh := 0\<rparr>) name (of_nat (length xs))"
    using assms(3) by (simp add: zip_file_find_def strlen_cstring [OF assms(1)] no_wrap_def Let_def)
  then show ?thesis
    using zip_file_find_loop_spec [OF assms(1,2), of "z\<lparr>z_gfh := 0\<rparr>" m "unat (zip_numEntries m z)"] assms(3)
    by (simp only: zip_entries_def) (simp add: no_wrap_def)
qed

text \<open>
  C12. \<open>zip_file_find()\<close> returns the first directory entry with exactly the given name: it walks the
  entries the end record announces, stops at the first unreadable one or at a name too long for
  its buffer, and reports \<open>Z_ERROR\<close> if no entry before that matches. It always terminates on a
  NUL-terminated name.
\<close>

theorem zip_file_find_spec:
  assumes "cstring name xs" "length xs < 2 ^ 32" "no_wrap z"
  shows "case find (\<lambda>e. entry_name m e = xs) (takeWhile (\<lambda>e. length (entry_name m e) \<le> 255) (zip_entries m z)) of
      None \<Rightarrow> \<exists>z'. zip_file_find m z name = Some (Z_ERROR, z')
    | Some e \<Rightarrow> zip_file_find m z name = Some (Z_OK, e)"
  using find_run_spec [OF assms] .

theorem zip_file_find_spec_witness:
  "let z = \<lparr>z_data = 0x1000, z_len = 100, z_er = 0x1050, z_gfh = 0\<rparr>; xs = chars ''Kickstart/Kicklayout'' in
   case find (\<lambda>e. entry_name (\<lambda>_. 0) e = xs)
       (takeWhile (\<lambda>e. length (entry_name (\<lambda>_. 0) e) \<le> 255) (zip_entries (\<lambda>_. 0) z)) of
      None \<Rightarrow> \<exists>z'. zip_file_find (\<lambda>_. 0) z (lit ''Kickstart/Kicklayout'') = Some (Z_ERROR, z')
    | Some e \<Rightarrow> zip_file_find (\<lambda>_. 0) z (lit ''Kickstart/Kicklayout'') = Some (Z_OK, e)"
  unfolding Let_def
  by (rule zip_file_find_spec [OF cstring_lit]) (simp_all add: chars_def no_wrap_def)

subsection \<open>Extraction\<close>

lemma memcpy_frame: "x \<notin> region d n \<Longrightarrow> memcpy m d s n x = m x"
  by (simp add: memcpy_def store_bytes_frame)

lemma bytes_memcpy: "n \<le> 2 ^ 32 \<Longrightarrow> bytes (memcpy m d s n) d n = bytes m s n"
  using bytes_store_bytes [of "bytes m s n" m d] by (simp add: memcpy_def)

text \<open>
  C13. \<open>zip_file_extract()\<close> is safe on an archive with any other contents, damaged ones included, whose entry gives two sizes
  that are not within 64 KB of 4 GB (\<open>size_ok\<close>: the decoder adds up to 64 KB to its counts, which must not wrap around): it
  returns \<open>Z_OK\<close> or \<open>Z_ERROR\<close> and changes no byte outside the \<open>uncompressedSize\<close> bytes at the buffer.
\<close>

theorem zip_file_extract_safe:
  assumes "statics_ok w" "size_ok (zip_file_compressedSize (mem w) z)" "size_ok (zip_file_uncompressedSize (mem w) z)"
  shows "\<exists>r w'. zip_file_extract w z buffer = (Inr r, w') \<and> (r = Z_OK \<or> r = Z_ERROR) \<and> statics_ok w' \<and>
    (\<forall>x. x \<notin> region buffer (unat (zip_file_uncompressedSize (mem w) z)) \<longrightarrow> mem w' x = mem w x)"
proof -
  let ?u = "LE32 (gfh_uncompressedSize (gfh_at (mem w) (z_gfh z)))"
  let ?c = "LE32 (gfh_compressedSize (gfh_at (mem w) (z_gfh z)))"
  have "\<exists>err n k w'. puff w buffer ?u bits ?c = (Inr (err, n, k), w') \<and> statics_ok w' \<and>
      (\<forall>x. x \<notin> region buffer (unat ?u) \<longrightarrow> mem w' x = mem w x)" for bits
    using puff_run_safe [of ?c buffer ?u w bits] assms
    by (auto simp: zip_file_compressedSize_def zip_file_uncompressedSize_def out_area_def split: if_splits)
  moreover have "statics_ok (w\<lparr>mem := m\<rparr>)" for m using assms(1) by (simp add: statics_ok_def)
  ultimately show ?thesis
    using assms(1) unfolding zip_file_extract_def Let_def zip_file_uncompressedSize_def
    by (auto simp: memcpy_frame split: prod.splits sum.splits) (metis Inl_Inr_False Pair_inject Inr_inject)+
qed

theorem zip_file_extract_safe_witness:
  "let w = \<lparr>mem = (\<lambda>_. 0), fx = fixed_init, stk = (\<lambda>_. 0)\<rparr>;
       z = \<lparr>z_data = 0x1000, z_len = 100, z_er = 0x1050, z_gfh = 0x1020\<rparr> in
   \<exists>r w'. zip_file_extract w z 0x8000 = (Inr r, w') \<and> (r = Z_OK \<or> r = Z_ERROR) \<and> statics_ok w' \<and>
    (\<forall>x. x \<notin> region 0x8000 (unat (zip_file_uncompressedSize (\<lambda>_. 0) z)) \<longrightarrow> mem w' x = 0)"
  unfolding Let_def
  using zip_file_extract_safe [of "\<lparr>mem = (\<lambda>_. 0), fx = fixed_init, stk = (\<lambda>_. 0)\<rparr>"
      "\<lparr>z_data = 0x1000, z_len = 100, z_er = 0x1050, z_gfh = 0x1020\<rparr>" "0x8000"]
  by (simp add: statics_ok_def fixed_init_def size_ok_def zip_file_compressedSize_def
      zip_file_uncompressedSize_def gfh_at_def get_be32_def LE32_def)

end
