(* ===== verification/Puff_Inflate.thy ===== *)
theory Puff_Inflate
  imports Puff_Safety
begin

text \<open>
  The decoder inverts DEFLATE (RFC 1951). A compressed stream is a list of blocks: stored bytes, or
  literals and matches coded with the fixed codes or with codes that the block itself describes.
  \<open>encodes\<close> relates a list of blocks to the bits that stand for it, with every freedom the format gives
  to a compressor; \<open>expand\<close> gives the bytes that the blocks stand for. \<open>puff()\<close> on the bits returns 0 and
  leaves these bytes in the output buffer.
\<close>

subsection \<open>The state while inflating\<close>

text \<open>
  From \<open>s0\<close> to \<open>s\<close> the bytes \<open>ys\<close> have been written, and \<open>bs\<close> is what remains of the input, which does not
  overlap the output.
\<close>

definition disjoint_buffers :: "state \<Rightarrow> bool" where
  "disjoint_buffers s \<longleftrightarrow> out s \<noteq> NIL \<and> region (inp s) (unat (inlen s)) \<inter> writable s = {}"

definition inflating :: "state \<Rightarrow> bool list \<Rightarrow> u8 list \<Rightarrow> state \<Rightarrow> bool" where
  "inflating s0 bs ys s \<longleftrightarrow> disjoint_buffers s0 \<and> sinv s \<and> frame s0 s \<and> stream s = bs \<and> unat (outcnt s) = length ys \<and>
     bytes (mem s) (out s) (length ys) = ys"

lemma inflatingD:
  assumes "inflating s0 bs ys s"
  shows "sinv s" "wf_bits s" "bounds s" "stream s = bs" "out s = out s0" "outlen s = outlen s0" "out s \<noteq> NIL"
    "unat (outcnt s) = length ys" "outcnt s = of_nat (length ys)" "length ys \<le> unat (outlen s)"
proof -
  show s: "sinv s" "stream s = bs" "out s = out s0" "outlen s = outlen s0" "out s \<noteq> NIL" "unat (outcnt s) = length ys"
    using assms by (auto simp: inflating_def frame_def disjoint_buffers_def)
  have "length ys < 2 ^ 32" using s(6) unat32_less [of "outcnt s"] by simp
  then show "outcnt s = of_nat (length ys)" using s(6) by (simp only: eq_of_nat32)
  show "wf_bits s" "bounds s" "length ys \<le> unat (outlen s)" using s by (auto simp: sinv_def bounds_def word_le_nat_alt)
qed

lemma inflating_bytes: "inflating s0 bs ys s \<Longrightarrow> bytes (mem s) (out s) (length ys) = ys"
  by (simp add: inflating_def)

lemma inflating_input:
  assumes "inflating s0 bs ys s" "input_step s s'" "wf_bits s'"
  shows "inflating s0 (stream s') ys s'"
proof -
  have "frame s s'" "bounds s'" using input_step_frame [OF assms(2)] inflatingD [OF assms(1)] by simp_all
  moreover have "mem s' = mem s" "outcnt s' = outcnt s" "out s' = out s" 
    using assms(2) by (cases s; cases s'; simp add: input_step_def)+
  ultimately show ?thesis using assms by (auto simp: inflating_def sinv_def intro: frame_trans)
qed

lemma bits_inflating:
  assumes "inflating s0 (buf_bits v n @ bs) ys s" "0 \<le> v" "v < 2 ^ n" "n \<le> 24"
  shows "\<exists>s'. bits s (int n) = (Inr v, s') \<and> inflating s0 bs ys s'"
proof -
  note d = inflatingD [OF assms(1)]
  have "val_of (take n (stream s)) = v" using d(4) assms(2,3) by (simp add: val_of_buf_bits take_bit_int_eq_self)
  then show ?thesis using bits_spec [OF d(2) assms(4)] d(4) inflating_input [OF assms(1)] by auto
qed

lemma stream_cong:
  assumes "disjoint_buffers s0" "frame s0 s" "bounds s" "\<forall>x. x \<notin> writable s0 \<longrightarrow> m x = mem s x"
  shows "stream (s\<lparr>mem := m, outcnt := n\<rparr>) = stream s"
proof -
  have "unat (incnt s) + unat (inlen s - incnt s) = unat (inlen s)"
    using assms(3) by (simp add: bounds_def unat_sub word_le_nat_alt)
  then have "region (inp s + incnt s) (unat (inlen s - incnt s)) \<subseteq> region (inp s) (unat (inlen s))"
    using region_shift [of "inp s" "unat (incnt s)" "unat (inlen s - incnt s)"] by simp
  moreover have "inp s = inp s0" "inlen s = inlen s0" using assms(2) by (simp_all add: frame_def)
  ultimately have "bytes m (inp s + incnt s) (unat (inlen s - incnt s)) = bytes (mem s) (inp s + incnt s) (unat (inlen s - incnt s))"
    using assms(1,4) by (intro bytes_cong) (auto simp: disjoint_buffers_def)
  then show ?thesis by (simp add: stream_def rest_bits_def)
qed

text \<open>Appending one byte to the output.\<close>

lemma append_inflating:
  assumes "inflating s0 bs ys s" "length ys < unat (outlen s)"
  shows "inflating s0 bs (ys @ [b]) ((put_out s (outcnt s) b)\<lparr>outcnt := outcnt s + 1\<rparr>)"
proof -
  note d = inflatingD [OF assms(1)]
  have df: "disjoint_buffers s0" "frame s0 s" using assms(1) by (simp_all add: inflating_def)
  let ?m = "(mem s)(out s + outcnt s := b)" and ?n = "outcnt s + 1"
  have cnt: "unat ?n = length ys + 1"
    using assms(2) d(8) unat32_less [of "outlen s"] by (subst unat_add_small) auto
  have w: "out s + outcnt s \<in> writable s" "writable s = writable s0"
    using assms(2) d(5-8) writable_offset [of s "outcnt s"] by (simp_all add: writable_def)
  then have m: "\<forall>x. x \<notin> writable s0 \<longrightarrow> ?m x = mem s x" by auto
  have fr: "frame s0 (s\<lparr>mem := ?m, outcnt := ?n\<rparr>)" using assms(1) m by (auto simp: inflating_def frame_def)
  have "stream (s\<lparr>mem := ?m, outcnt := ?n\<rparr>) = bs"
    using stream_cong [OF df d(3) m, of ?n] d(4) by (simp only:)
  moreover have "sinv (s\<lparr>mem := ?m, outcnt := ?n\<rparr>)"
    using d(1) cnt assms(2) d(8) by (auto simp: sinv_def bounds_def wf_bits_def word_le_nat_alt)
  moreover have "bytes ?m (out s) (length ys) = ys"
  proof -
    have "bytes ?m (out s) (length ys) = bytes (mem s) (out s) (length ys)"
    proof (rule bytes_cong)
      fix x assume "x \<in> region (out s) (length ys)"
      then have "unat (x - out s) < length ys" using d(8) unat32_less [of "outcnt s"] by (subst region_iff [symmetric]) auto
      then show "?m x = mem s x" using d(8) by auto
    qed
    then show ?thesis using assms(1) by (simp add: inflating_def)
  qed
  ultimately show ?thesis
    using fr cnt assms(1) d(9) by (simp add: inflating_def put_out_def bytes_snoc)
qed

subsection \<open>Literals and matches\<close>

text \<open>
  A match is given by its length symbol less 257 and its distance symbol, each with the value of the
  extra bits. The tables of RFC 1951, 3.2.5, by their rule of construction.
\<close>

datatype token = Literal u8 | Match nat nat nat nat

definition length_extra :: "nat \<Rightarrow> nat" where
  "length_extra i = (if i < 8 \<or> i = 28 then 0 else i div 4 - 1)"

definition length_base :: "nat \<Rightarrow> nat" where
  "length_base i = (if i < 8 then 3 + i else if i = 28 then 258 else 3 + (4 + i mod 4) * 2 ^ length_extra i)"

definition dist_extra :: "nat \<Rightarrow> nat" where
  "dist_extra j = (if j < 4 then 0 else j div 2 - 1)"

definition dist_base :: "nat \<Rightarrow> nat" where
  "dist_base j = (if j < 4 then 1 + j else 1 + (2 + j mod 2) * 2 ^ dist_extra j)"

lemma length_tables:
  assumes "i < 29"
  shows "aref lens (int i) = Some (int (length_base i))" "aref lext (int i) = Some (int (length_extra i))"
    "3 \<le> length_base i" "length_base i \<le> 258" "length_extra i \<le> 5"
proof -
  have "list_all (\<lambda>i. lens ! i = int (length_base i) \<and> lext ! i = int (length_extra i) \<and>
      3 \<le> length_base i \<and> length_base i \<le> 258 \<and> length_extra i \<le> 5) [0..<29]"
    by code_simp
  moreover have "i \<in> set [0..<29]" "length lens = 29" "length lext = 29" using assms by (simp_all add: lens_def lext_def)
  ultimately show "aref lens (int i) = Some (int (length_base i))" "aref lext (int i) = Some (int (length_extra i))"
    "3 \<le> length_base i" "length_base i \<le> 258" "length_extra i \<le> 5"
    using assms by (auto simp only: list_all_iff aref_int if_True)
qed

lemma dist_tables:
  assumes "j < 30"
  shows "aref dists (int j) = Some (int (dist_base j))" "aref dext (int j) = Some (int (dist_extra j))"
    "1 \<le> dist_base j" "dist_base j \<le> 24577" "dist_extra j \<le> 13"
proof -
  have "list_all (\<lambda>j. dists ! j = int (dist_base j) \<and> dext ! j = int (dist_extra j) \<and>
      1 \<le> dist_base j \<and> dist_base j \<le> 24577 \<and> dist_extra j \<le> 13) [0..<30]"
    by (simp add: upt_rec dists_def dext_def dist_base_def dist_extra_def)
  moreover have "j \<in> set [0..<30]" "length dists = 30" "length dext = 30" using assms by (simp_all add: dists_def dext_def)
  ultimately show "aref dists (int j) = Some (int (dist_base j))" "aref dext (int j) = Some (int (dist_extra j))"
    "1 \<le> dist_base j" "dist_base j \<le> 24577" "dist_extra j \<le> 13"
    using assms by (auto simp only: list_all_iff aref_int if_True)
qed

text \<open>Copying from \<open>d\<close> bytes back, byte by byte, so that a match may overlap what it produces.\<close>

primrec copy_from :: "nat \<Rightarrow> nat \<Rightarrow> u8 list \<Rightarrow> u8 list" where
  "copy_from 0 d ys = ys"
| "copy_from (Suc n) d ys = copy_from n d (ys @ [ys ! (length ys - d)])"

lemma length_copy_from [simp]: "length (copy_from n d ys) = length ys + n"
  by (induction n arbitrary: ys) simp_all

primrec token_bytes :: "token \<Rightarrow> u8 list \<Rightarrow> u8 list option" where
  "token_bytes (Literal b) ys = Some (ys @ [b])"
| "token_bytes (Match i x j y) ys =
     (let d = dist_base j + y in if d \<le> length ys then Some (copy_from (length_base i + x) d ys) else None)"

fun expand :: "token list \<Rightarrow> u8 list \<Rightarrow> u8 list option" where
  "expand [] ys = Some ys"
| "expand (t # ts) ys = Option.bind (token_bytes t ys) (expand ts)"

text \<open>The bits of a token for the code lengths \<open>ls\<close> of literals and lengths and \<open>ds\<close> of distances.\<close>

definition code_for :: "int list \<Rightarrow> nat \<Rightarrow> bool list" where
  "code_for ls i = code_bits (canonical_code ls (length ls) i) (nat (ls ! i))"

definition coded :: "int list \<Rightarrow> nat \<Rightarrow> bool" where
  "coded ls i \<longleftrightarrow> i < length ls \<and> 0 < ls ! i"

primrec token_bits :: "int list \<Rightarrow> int list \<Rightarrow> token \<Rightarrow> bool list" where
  "token_bits ls ds (Literal b) = code_for ls (unat b)"
| "token_bits ls ds (Match i x j y) =
     code_for ls (257 + i) @ buf_bits (int x) (length_extra i) @ code_for ds j @ buf_bits (int y) (dist_extra j)"

primrec wf_token :: "int list \<Rightarrow> int list \<Rightarrow> token \<Rightarrow> bool" where
  "wf_token ls ds (Literal b) \<longleftrightarrow> coded ls (unat b)"
| "wf_token ls ds (Match i x j y) \<longleftrightarrow> i < 29 \<and> coded ls (257 + i) \<and> x < 2 ^ length_extra i \<and> j < 30 \<and> coded ds j \<and> y < 2 ^ dist_extra j"

text \<open>A table that \<open>construct()\<close> has built for some lengths decodes their codes.\<close>

definition table_for :: "int list \<Rightarrow> huffman \<Rightarrow> bool" where
  "table_for ls h \<longleftrightarrow> (\<exists>h0 ls' left. construct h0 ls' (length ls) = Some (left, h) \<and> 0 \<le> left \<and> lens_ok ls' (length ls) \<and>
     length ls \<le> length (symbol h0) \<and> take (length ls) ls' = ls)"

lemma syms_take: "take n ls = take n ls' \<Longrightarrow> k \<le> n \<Longrightarrow> syms ls k l = syms ls' k l"
  unfolding syms_def by (intro filter_cong refl) (metis nth_take atLeastLessThan_iff less_le_trans set_upt)

lemma canonical_code_take:
  assumes "take n ls = take n ls'" "i < n"
  shows "canonical_code ls n i = canonical_code ls' n i"
proof -
  have "ls ! i = ls' ! i" using assms by (metis nth_take)
  then show ?thesis using syms_take [OF assms(1)] assms(2) by (simp add: canonical_code_def ncode_def cong: if_cong)
qed

lemma decode_inflating:
  assumes inf: "inflating s0 (code_for ls i @ bs) ys s" and tab: "table_for ls h" and i: "coded ls i"
  shows "\<exists>s'. decode h s = (Inr (int i), s') \<and> inflating s0 bs ys s'"
proof -
  let ?n = "length ls"
  obtain h0 ls' left where c: "construct h0 ls' ?n = Some (left, h)" "0 \<le> left" "lens_ok ls' ?n" "?n \<le> length (symbol h0)"
    and ls: "take ?n ls' = ls" using tab by (auto simp: table_for_def)
  have n: "i < ?n" and "0 < ls ! i" using i by (simp_all add: coded_def)
  moreover have e: "ls ! i = ls' ! i" using n by (subst ls [symmetric]) simp
  ultimately have l: "ls' ! i = int (nat (ls ! i))" "1 \<le> nat (ls ! i)" by simp_all
  have "canonical_code ls ?n i = canonical_code ls' ?n i" using ls n by (intro canonical_code_take) simp_all
  then have "stream s = code_bits (canonical_code ls' ?n i) (nat (ls ! i)) @ bs"
    using inflatingD(4) [OF inf] by (simp add: code_for_def)
  then obtain s' where "decode h s = (Inr (int i), s')" "stream s' = bs" "wf_bits s'" "input_step s s'"
    using huffman_decode [OF c(3,4,1,2) n l inflatingD(2) [OF inf]] by blast
  then show ?thesis using inflating_input [OF inf] by blast
qed

text \<open>One literal, one match.\<close>

lemma literal_inflating:
  assumes "inflating s0 bs ys s" "length ys < unat (outlen s)"
  shows "\<exists>s'. literal (int (unat b)) s = (Inr (Inr (int (unat b))), s') \<and> inflating s0 bs (ys @ [b]) s'"
proof -
  have "outcnt s \<noteq> outlen s" using assms inflatingD(8) [OF assms(1)] by auto
  then show ?thesis using append_inflating [OF assms, of b] inflatingD(7) [OF assms(1)] by (simp add: literal_def)
qed

lemma back_index: "d \<le> n \<Longrightarrow> (of_nat n - of_nat d :: u32) = of_nat (n - d)"
  by (simp add: of_nat_diff)

lemma copy_back_inflating:
  assumes "inflating s0 bs ys s" "1 \<le> d" "d \<le> length ys" "length ys + n \<le> unat (outlen s)"
  shows "inflating s0 bs (copy_from n d ys) (copy_back n (of_nat d) s)"
  using assms
proof (induction n arbitrary: ys s)
  case (Suc n)
  note d = inflatingD [OF Suc.prems(1)]
  let ?b = "mem s (out s + (outcnt s - of_nat d))"
  have "bytes (mem s) (out s) (length ys) ! (length ys - d) = mem s (out s + of_nat (length ys - d))"
    using Suc.prems(2,3) by simp
  then have b: "?b = ys ! (length ys - d)"
    using inflating_bytes [OF Suc.prems(1)] d(9) back_index [OF Suc.prems(3)] by simp
  have step: "inflating s0 bs (ys @ [?b]) ((put_out s (outcnt s) ?b)\<lparr>outcnt := outcnt s + 1\<rparr>)"
    using append_inflating [OF Suc.prems(1), of ?b] Suc.prems(4) by simp
  let ?s = "(put_out s (outcnt s) ?b)\<lparr>outcnt := outcnt s + 1\<rparr>"
  have "inflating s0 bs (copy_from n d (ys @ [?b])) (copy_back n (of_nat d) ?s)"
    using Suc.prems by (intro Suc.IH [OF step]) (simp_all add: put_out_def)
  then show ?case by (simp only: copy_back.simps copy_from.simps b)
qed simp

lemma copy_match_inflating:
  assumes "inflating s0 bs ys s" "1 \<le> d" "d \<le> length ys" "length ys + n \<le> unat (outlen s)"
  shows "\<exists>s'. copy_match sy (int n) (word_of_int (int d)) s = (Inr (Inr sy), s') \<and> inflating s0 bs (copy_from n d ys) s'"
proof -
  note i = inflatingD [OF assms(1)]
  have m: "unat (outlen s) < 2 ^ 32" by (rule unat32_less)
  have "unat (of_nat d :: u32) = d" "unat (of_nat n :: u32) = n" using assms m by (simp_all add: unat_of_nat32)
  moreover have "unat (outcnt s + of_nat n) = length ys + n"
    using assms(4) m calculation i(8) by (subst unat_add_small) auto
  ultimately have "\<not> of_nat d > outcnt s" "\<not> outcnt s + of_nat n > outlen s"
    using assms i(8) by (simp_all add: word_less_nat_alt)
  then show ?thesis
    using copy_back_inflating [OF assms] i(7) by (simp add: copy_match_def)
qed

lemma int_less_power: "x < 2 ^ n \<Longrightarrow> int x < 2 ^ n"
  by (metis of_nat_less_iff of_nat_numeral of_nat_power)

lemma match_inflating:
  assumes inf: "inflating s0 (tl_bits @ bs) ys s" and tl: "tl_bits = buf_bits (int x) (length_extra i) @ code_for ds j @ buf_bits (int y) (dist_extra j)"
    and tab: "table_for ds dh" and wf: "i < 29" "x < 2 ^ length_extra i" "j < 30" "coded ds j" "y < 2 ^ dist_extra j"
    and d: "dist_base j + y \<le> length ys" and room: "length ys + (length_base i + x) \<le> unat (outlen s)"
  shows "\<exists>s'. length_dist dh (int (257 + i)) s = (Inr (Inr (int j)), s') \<and>
    inflating s0 bs (copy_from (length_base i + x) (dist_base j + y) ys) s'"
proof -
  have x: "0 \<le> int x" "int x < 2 ^ length_extra i" and y: "0 \<le> int y" "int y < 2 ^ dist_extra j"
    using wf(2,5) by (simp_all add: int_less_power)
  have extra: "length_extra i \<le> 24" "dist_extra j \<le> 24"
    using length_tables(5) [OF wf(1)] dist_tables(5) [OF wf(3)] by simp_all
  obtain s1 where s1: "bits s (int (length_extra i)) = (Inr (int x), s1)"
    "inflating s0 (code_for ds j @ buf_bits (int y) (dist_extra j) @ bs) ys s1"
    using bits_inflating [OF inf [unfolded tl append_assoc] x extra(1)] by blast
  obtain s2 where s2: "decode dh s1 = (Inr (int j), s2)" "inflating s0 (buf_bits (int y) (dist_extra j) @ bs) ys s2"
    using decode_inflating [OF s1(2) tab wf(4)] by blast
  obtain s3 where s3: "bits s2 (int (dist_extra j)) = (Inr (int y), s3)" "inflating s0 bs ys s3"
    using bits_inflating [OF s2(2) y extra(2)] by blast
  have "unat (outlen s3) = unat (outlen s)" using inflatingD(6) [OF s3(2)] inflatingD(6) [OF inf] by simp
  then obtain s4 where s4: "copy_match (int j) (int (length_base i + x)) (word_of_int (int (dist_base j + y))) s3 = (Inr (Inr (int j)), s4)"
    "inflating s0 bs (copy_from (length_base i + x) (dist_base j + y) ys) s4"
    using copy_match_inflating [OF s3(2) trans_le_add1 [OF dist_tables(3) [OF wf(3)]] d, of "length_base i + x" "int j"] room
    by (metis (no_types))
  have "length_dist dh (int (257 + i)) s = (Inr (Inr (int j)), s4)"
    using s1(1) s2(1) s3(1) s4(1) wf(1,3) length_tables(1,2) [OF wf(1)] dist_tables(1,2) [OF wf(3)]
    by (simp add: length_dist_def read_dist_def del: aref_int)
  then show ?thesis using s4(2) by blast
qed

lemma expand_mono:
  "expand ts ys = Some zs \<Longrightarrow> length ys \<le> length zs"
proof (induction ts arbitrary: ys)
  case (Cons t ts)
  then obtain xs where "token_bytes t ys = Some xs" "expand ts xs = Some zs" by (auto simp: bind_eq_Some_conv)
  moreover from this(1) have "length ys \<le> length xs" by (cases t) (auto simp: Let_def split: if_splits)
  ultimately show ?case using Cons.IH [of xs] by simp
qed simp

subsection \<open>codes()\<close>

text \<open>One round of the loop in \<open>codes()\<close> for one token.\<close>

lemma token_inflating:
  assumes inf: "inflating s0 (token_bits ls ds t @ bs) ys s" and tab: "table_for ls lh" "table_for ds dh"
    and wf: "wf_token ls ds t" and ex: "token_bytes t ys = Some zs" and room: "length zs \<le> unat (outlen s)"
  shows "\<exists>s'. codes_loop (Suc fuel) lh dh s = codes_loop fuel lh dh s' \<and> inflating s0 bs zs s'"
proof (cases t)
  case (Literal b)
  have b: "uint b < 256" using uint_lt2p [of b] by simp
  obtain s1 where s1: "decode lh s = (Inr (int (unat b)), s1)" "inflating s0 bs ys s1"
    using decode_inflating [OF _ tab(1)] inf wf Literal by fastforce
  have zs: "zs = ys @ [b]" using ex Literal by simp
  then have "length ys < unat (outlen s1)" using room inflatingD(6) [OF s1(2)] inflatingD(6) [OF inf] by simp
  then obtain s2 where "literal (int (unat b)) s1 = (Inr (Inr (int (unat b))), s2)" "inflating s0 bs zs s2"
    using literal_inflating [OF s1(2), of b] zs by blast
  then show ?thesis using s1(1) b by (intro exI [of _ s2]) simp
next
  case (Match i x j y)
  have w: "i < 29" "coded ls (257 + i)" "x < 2 ^ length_extra i" "j < 30" "coded ds j" "y < 2 ^ dist_extra j"
    using wf Match by simp_all
  have e: "dist_base j + y \<le> length ys" "zs = copy_from (length_base i + x) (dist_base j + y) ys"
    using ex Match by (simp_all add: Let_def split: if_splits)
  let ?tl = "buf_bits (int x) (length_extra i) @ code_for ds j @ buf_bits (int y) (dist_extra j)"
  obtain s1 where s1: "decode lh s = (Inr (int (257 + i)), s1)" "inflating s0 (?tl @ bs) ys s1"
    using decode_inflating [OF _ tab(1) w(2), of s0 "?tl @ bs" ys s] inf Match by auto
  have "length ys + (length_base i + x) \<le> unat (outlen s1)"
    using room e(2) inflatingD(6) [OF s1(2)] inflatingD(6) [OF inf] by simp
  then obtain s2 where "length_dist dh (int (257 + i)) s1 = (Inr (Inr (int j)), s2)" "inflating s0 bs zs s2"
    using match_inflating [OF s1(2) refl tab(2) w(1,3,4,5,6) e(1)] e(2) by blast
  then show ?thesis using s1(1) w(4) by (intro exI [of _ s2]) simp
qed

lemma codes_loop_inflating:
  assumes tab: "table_for ls lh" "table_for ds dh" and eob: "coded ls 256"
    and "inflating s0 (concat (map (token_bits ls ds) ts) @ code_for ls 256 @ bs) ys s" "list_all (wf_token ls ds) ts"
    "expand ts ys = Some zs" "length zs \<le> unat (outlen s)" "length ts < fuel"
  shows "\<exists>s'. codes_loop fuel lh dh s = (Inr 0, s') \<and> inflating s0 bs zs s'"
  using assms(4-8)
proof (induction ts arbitrary: ys s fuel)
  case Nil
  then obtain s1 where "decode lh s = (Inr (int 256), s1)" "inflating s0 bs ys s1"
    using decode_inflating [OF _ tab(1) eob, of s0 bs ys s] by auto
  then show ?case using Nil by (cases fuel) simp_all
next
  case (Cons t ts)
  then obtain f xs where f: "fuel = Suc f" "token_bytes t ys = Some xs" "expand ts xs = Some zs"
    by (cases fuel) (auto simp: bind_eq_Some_conv)
  have "length xs \<le> unat (outlen s)" using expand_mono [OF f(3)] Cons.prems(4) by simp
  then obtain s1 where s1: "codes_loop fuel lh dh s = codes_loop f lh dh s1"
    "inflating s0 (concat (map (token_bits ls ds) ts) @ code_for ls 256 @ bs) xs s1"
    using token_inflating [OF _ tab _ f(2), of s0 _ s f] Cons.prems(1,2) f(1) by auto
  have "outlen s1 = outlen s" using inflatingD(6) [OF s1(2)] inflatingD(6) [OF Cons.prems(1)] by simp
  then show ?case using Cons.IH [OF s1(2) _ f(3)] Cons.prems f(1) s1(1) by simp
qed

text \<open>A token has at least one bit, so the fuel of \<open>codes()\<close> is enough.\<close>

lemma length_code_for: "coded ls i \<Longrightarrow> 1 \<le> length (code_for ls i)"
  by (simp add: code_for_def coded_def code_bits_def Suc_le_eq)

lemma length_token_bits: "wf_token ls ds t \<Longrightarrow> 1 \<le> length (token_bits ls ds t)"
  using length_code_for by (cases t) fastforce+

lemma length_tokens: "list_all (wf_token ls ds) ts \<Longrightarrow> length ts \<le> length (concat (map (token_bits ls ds) ts))"
proof (induction ts)
  case (Cons t ts)
  then show ?case using length_token_bits [of ls ds t] by simp
qed simp

lemma codes_inflating:
  assumes "table_for ls lh" "table_for ds dh" "coded ls 256"
    and "inflating s0 (concat (map (token_bits ls ds) ts) @ code_for ls 256 @ bs) ys s" "list_all (wf_token ls ds) ts"
    "expand ts ys = Some zs" "length zs \<le> unat (outlen s)"
  shows "\<exists>s'. codes lh dh s = (Inr 0, s') \<and> inflating s0 bs zs s'"
proof -
  have "length ts < bits_left s + 1"
    using length_tokens [OF assms(5)] inflatingD(4) [OF assms(4)] by (simp flip: length_stream)
  then show ?thesis unfolding codes_def by (rule codes_loop_inflating [OF assms])
qed

subsection \<open>Codes a block may use\<close>

text \<open>
  The code words that the lengths leave unused, in units of the longest; the lengths describe a code when
  this is not negative. A code that is not complete is only accepted when all its words have one bit.
\<close>

definition code_left :: "int list \<Rightarrow> int" where
  "code_left ls = cleft (\<lambda>l. if l = 0 \<or> 15 < l then 0 else ncode ls (length ls) l) 15"

definition lengths_ok :: "int list \<Rightarrow> bool" where
  "lengths_ok ls \<longleftrightarrow> list_all (\<lambda>l. 0 \<le> l \<and> l \<le> 15) ls \<and> 0 \<le> code_left ls"

definition usable :: "int list \<Rightarrow> bool" where
  "usable ls \<longleftrightarrow> lengths_ok ls \<and> (code_left ls = 0 \<or> list_all (\<lambda>l. l \<le> 1) ls)"

lemma cleft_back: "0 \<le> cleft c l \<Longrightarrow> nonneg c \<Longrightarrow> k \<le> l \<Longrightarrow> 0 \<le> cleft c k"
proof (induction l)
  case (Suc l)
  then have "0 \<le> c (Suc l)" by (simp add: nonneg_def)
  then have "0 \<le> cleft c l" using Suc.prems(1) by simp
  then show ?case using Suc by (cases "k = Suc l") auto
qed simp

lemma ncode_take:
  "take n ls = take n ls' \<Longrightarrow> ncode ls n l = ncode ls' n l"
  using syms_take [of n ls ls' n l] by (simp add: ncode_def)

lemma construct_table_for:
  assumes ls: "take (length ls) ls' = ls" "lengths_ok ls" and n: "length ls \<le> length (symbol h0)"
  shows "\<exists>left h. construct h0 ls' (length ls) = Some (left, h) \<and> 0 \<le> left \<and> table_for ls h \<and>
    (left = 0 \<or> left = code_left ls) \<and> (\<forall>l<16. count h ! l = ncode ls (length ls) l) \<and>
    length (symbol h) = length (symbol h0)"
proof -
  let ?n = "length ls" and ?c = "\<lambda>l. if l = 0 \<or> 15 < l then 0 else ncode ls (length ls) l"
  have le: "?n \<le> length ls'" using arg_cong [OF ls(1), of length] by simp
  have nth: "ls' ! i = ls ! i" if "i < ?n" for i using that ls(1) by (metis nth_take)
  have "lens_ok ls' ?n" using ls(2) le nth by (auto simp: lens_ok_def lengths_ok_def list_all_length)
  note ok = this n
  have nc: "ncode ls' ?n = ncode ls ?n" using ls(1) ncode_take [of ?n ls' ls] by auto
  have "0 \<le> cleft ?c k" if "k \<le> 15" for k
    using cleft_back [of ?c 15 k] that ls(2) by (auto simp: lengths_ok_def code_left_def nonneg_def)
  then obtain left h where h: "construct h0 ls' ?n = Some (left, h)" "0 \<le> left" "construct_post ls' ?n h0 left h"
    using construct_total [OF ok, unfolded nc] by blast
  have "cnt_of h = ?c" using h(3) nc by (auto simp: construct_post_def cnt_of_def fun_eq_iff)
  then have "left = 0 \<or> left = code_left ls"
    using h(2,3) by (auto simp: construct_post_def code_left_def split: if_splits)
  moreover have "\<forall>l<16. count h ! l = ncode ls ?n l" "length (symbol h) = length (symbol h0)"
    using h(3) nc by (simp_all add: construct_post_def)
  moreover have "table_for ls h" using h(1,2) ok ls(1) by (auto simp: table_for_def)
  ultimately show ?thesis using h(1,2) by blast
qed

lemma not_bad_code:
  assumes "usable ls" "left = 0 \<or> left = code_left ls" "\<forall>l<16. count h ! l = ncode ls (length ls) l" 
  shows "\<not> bad_code left h (int (length ls))"
proof (cases "left = 0")
  case False
  then have one: "list_all (\<lambda>l. l = 0 \<or> l = 1) ls" and "0 \<le> left"
    using assms(1,2) by (auto simp: usable_def lengths_ok_def list_all_iff) (metis int_one_le_iff_zero_less le_less order_antisym)
  have "int (length ls) = ncode ls (length ls) 0 + ncode ls (length ls) 1"
    unfolding ncode_filter using one by (induction ls) auto
  then show ?thesis using assms(3) \<open>0 \<le> left\<close> by (simp add: bad_code_def)
qed (simp add: bad_code_def)

text \<open>
  The fixed codes by RFC 1951, 3.2.6. (Two more distance codes exist there, which no token uses.)
\<close>

definition fixed_len :: "int list" where
  "fixed_len = map (\<lambda>i. if i < 144 then 8 else if i < 256 then 9 else if i < 280 then 7 else 8) [0..<288]"

abbreviation fixed_dist :: "int list" where "fixed_dist \<equiv> replicate 30 5"

lemma fixed_lengths_eq: "fixed_lengths = fixed_len"
  by (rule nth_equalityI) (auto simp: fixed_lengths_def fixed_len_def nth_append)

lemma fixed_lengths_usable: "lengths_ok fixed_lengths" "lengths_ok (replicate MAXDCODES 5)" 
proof -
  have n: "ncode fixed_lengths (length fixed_lengths) l = (if l = 7 then 24 else if l = 8 then 152 else if l = 9 then 112 else 0)" for l
    unfolding ncode_filter by (auto simp: fixed_lengths_def)
  have "code_left fixed_lengths = 0" unfolding code_left_def n by code_simp
  then show "lengths_ok fixed_lengths" by (simp add: lengths_ok_def fixed_lengths_def list_all_iff)
  have n: "ncode (replicate 30 5) (length (replicate 30 (5 :: int))) l = (if l = 5 then 30 else 0)" for l
    by (subst ncode_filter) auto
  have "code_left (replicate 30 5) = 2048" unfolding code_left_def n by code_simp
  then show "lengths_ok (replicate MAXDCODES 5)" by (simp add: lengths_ok_def list_all_iff)
qed

lemma fixed_tables:
  "\<exists>f. fixed_build = Some f \<and> \<not> virgin f \<and> table_for fixed_lengths (lencode_st f) \<and> table_for (replicate MAXDCODES 5) (distcode_st f)"
proof -
  have len: "length fixed_lengths = FIXLCODES" by (simp add: fixed_lengths_def)
  obtain l h where h: "construct \<lparr>count = replicate (MAXBITS + 1) 0, symbol = replicate FIXLCODES 0\<rparr> fixed_lengths FIXLCODES = Some (l, h)"
    "table_for fixed_lengths h"
    using construct_table_for [of fixed_lengths fixed_lengths "\<lparr>count = replicate (MAXBITS + 1) 0, symbol = replicate FIXLCODES 0\<rparr>"]
      fixed_lengths_usable(1) len by auto
  obtain l' h' where h': "construct \<lparr>count = replicate (MAXBITS + 1) 0, symbol = replicate MAXDCODES 0\<rparr> (replicate MAXDCODES 5) MAXDCODES = Some (l', h')"
    "table_for (replicate MAXDCODES 5) h'"
    using construct_table_for [of "replicate MAXDCODES 5" "replicate MAXDCODES 5" "\<lparr>count = replicate (MAXBITS + 1) 0, symbol = replicate MAXDCODES 0\<rparr>"]
      fixed_lengths_usable(2) by auto
  show ?thesis using h h' by (simp add: fixed_build_def)
qed

lemma fx_inflating:
  assumes "inflating s0 bs ys s" "fixed_build = Some f"
  shows "inflating s0 bs ys (s\<lparr>fx := f\<rparr>)"
proof -
  have "stream (s\<lparr>fx := f\<rparr>) = stream s" by (simp add: stream_def rest_bits_def)
  then show ?thesis using assms by (auto simp: inflating_def sinv_def bounds_def wf_bits_def frame_def)
qed

lemma fixed_inflating:
  assumes inf: "inflating s0 (concat (map (token_bits fixed_lengths (replicate MAXDCODES 5)) ts) @ code_for fixed_lengths 256 @ bs) ys s"
    and ts: "list_all (wf_token fixed_lengths (replicate MAXDCODES 5)) ts" "expand ts ys = Some zs" "length zs \<le> unat (outlen s)"
  shows "\<exists>s'. fixed s = (Inr 0, s') \<and> inflating s0 bs zs s'"
proof -
  obtain f where f: "fixed_build = Some f" "table_for fixed_lengths (lencode_st f)" "table_for (replicate MAXDCODES 5) (distcode_st f)"
    using fixed_tables by blast
  have eob: "coded fixed_lengths 256" by (simp add: coded_def fixed_lengths_def nth_append)
  have "virgin (fx s) \<or> fx s = f" using inflatingD(3) [OF inf] by (auto simp: bounds_def f(1))
  then have "fixed s = codes (lencode_st f) (distcode_st f) (s\<lparr>fx := f\<rparr>)"
    by (cases s) (auto simp: fixed_def f(1))
  then show ?thesis
    using codes_inflating [OF f(2,3) eob fx_inflating [OF inf f(1)] ts(1,2)] ts(3) by simp
qed

subsection \<open>stored()\<close>

definition stored_header :: "nat \<Rightarrow> u8 list" where
  "stored_header n = (let lo = of_nat n; hi = of_nat (drop_bit 8 n) in [lo, hi, NOT lo, NOT hi])"

definition bits_of :: "u8 list \<Rightarrow> bool list" where
  "bits_of xs = concat (map byte_bits xs)"

lemma bits_of_simps [simp]: "bits_of [] = []" "bits_of (x # xs) = byte_bits x @ bits_of xs" "bits_of (xs @ ys) = bits_of xs @ bits_of ys"
  by (simp_all add: bits_of_def)

lemma length_bits_of [simp]: "length (bits_of xs) = 8 * length xs"
  by (induction xs) simp_all

lemma bits_aligned: "(32 + (8 * n + k)) mod 8 = (k :: nat) mod 8"
  using mod_mult_self4 [of 8 "n + 4" k] by (simp add: algebra_simps)

lemma byte_bits_inject [simp]: "byte_bits a = byte_bits b \<longleftrightarrow> a = b"
  by (auto simp: byte_bits_def intro!: bit_word_eqI)

lemma stored_len:
  assumes "n < 2 ^ 16"
  shows "ucast (of_nat n :: u8) OR push_bit 8 (ucast (of_nat (drop_bit 8 n) :: u8)) = (of_nat n :: u32)"
proof (rule bit_word_eqI)
  fix i assume "i < LENGTH(32)"
  then show "bit (ucast (of_nat n :: u8) OR push_bit 8 (ucast (of_nat (drop_bit 8 n) :: u8)) :: u32) i = bit (of_nat n :: u32) i"
    using nat_bit_less [OF _ assms, of i] by (auto simp: bit_simps bit_of_nat_iff)
qed

lemma stored_complement:
  fixes a b :: u8
  defines "len \<equiv> ucast a OR push_bit 8 (ucast b) :: u32"
  shows "NOT len AND 0xff = ucast (NOT a)" "drop_bit 8 (NOT len) AND 0xff = ucast (NOT b)"
proof -
  have m: "(0xff :: u32) = mask 8" by (simp add: mask_eq_exp_minus_1)
  show "NOT len AND 0xff = ucast (NOT a)" "drop_bit 8 (NOT len) AND 0xff = ucast (NOT b)"
    unfolding len_def m by (rule bit_word_eqI; auto simp: bit_simps dest: bit_imp_le_length)+
qed

lemma next_byte:
  assumes "inflating s0 (byte_bits x @ bs) ys s" "bitcnt s = 0"
  shows "in_byte s (incnt s) = x" "inflating s0 bs ys (s\<lparr>incnt := incnt s + 1\<rparr>)"
proof -
  note d = inflatingD [OF assms(1)]
  let ?s = "s\<lparr>incnt := incnt s + 1\<rparr>"
  have st: "stream s = rest_bits s" "stream ?s = rest_bits ?s" using assms(2) by (simp_all add: stream_def buf_bits_def)
  have "length (rest_bits s) \<ge> 8" using d(4) st by simp
  then have ne: "incnt s \<noteq> inlen s" by auto
  have "byte_bits (in_byte s (incnt s)) @ rest_bits ?s = byte_bits x @ bs" using d(4) st rest_bits_load [OF ne] by simp
  then have eq: "in_byte s (incnt s) = x" "rest_bits ?s = bs" by simp_all
  show "in_byte s (incnt s) = x" by (rule eq)
  have "incnt s \<le> inlen s" using d(3) by (simp add: bounds_def)
  then have "input_step s ?s" using incnt_step [OF _ ne] by (simp add: input_step_def)
  moreover have "wf_bits ?s" using d(2) by (simp add: wf_bits_def)
  ultimately show "inflating s0 bs ys ?s" using inflating_input [OF assms(1)] eq(2) st by metis
qed

lemma stored_copy_inflating:
  assumes "inflating s0 (bits_of xs @ bs) ys s" "bitcnt s = 0" "length ys + length xs \<le> unat (outlen s)"
  shows "inflating s0 bs (ys @ xs) (stored_copy (length xs) s)"
  using assms
proof (induction xs arbitrary: ys s)
  case (Cons x xs)
  have b: "in_byte s (incnt s) = x" "inflating s0 (bits_of xs @ bs) ys (s\<lparr>incnt := incnt s + 1\<rparr>)"
    using next_byte [of s0 x "bits_of xs @ bs" ys s] Cons.prems by simp_all
  let ?s = "(put_out s (outcnt s) x)\<lparr>outcnt := outcnt s + 1, incnt := incnt s + 1\<rparr>"
  have "?s = (put_out (s\<lparr>incnt := incnt s + 1\<rparr>) (outcnt s) x)\<lparr>outcnt := outcnt s + 1\<rparr>" by (cases s) (simp add: put_out_def)
  then have "inflating s0 (bits_of xs @ bs) (ys @ [x]) ?s"
    using append_inflating [OF b(2), of x] Cons.prems(3) by simp
  then show ?case using Cons.IH [of "ys @ [x]" ?s] Cons.prems b(1) by (simp add: put_out_def)
qed simp

text \<open>\<open>stored()\<close> drops the bits up to the byte boundary.\<close>

lemma align_inflating:
  assumes "inflating s0 (pad @ bs) ys s" "length pad < 8" "length bs mod 8 = 0"
  shows "inflating s0 bs ys (s\<lparr>bitbuf := 0, bitcnt := 0\<rparr>)"
proof -
  note d = inflatingD [OF assms(1)]
  let ?s = "s\<lparr>bitbuf := 0, bitcnt := 0\<rparr>"
  have c: "nat (bitcnt s) < 8" using d(2) by (auto simp: wf_bits_def)
  have "length pad + length bs = 8 * unat (inlen s - incnt s) + nat (bitcnt s)"
    using length_stream [of s] d(4) by (simp add: bits_left_def)
  then have "length pad mod 8 = nat (bitcnt s) mod 8" using assms(3) by (metis mod_add_right_eq add.right_neutral mod_mult_self4)
  then have "nat (bitcnt s) = length pad" using assms(2) c by simp
  then have "bs = rest_bits s" using d(4) by (simp add: stream_def append_eq_append_conv)
  moreover have "rest_bits s = stream ?s" by (simp add: stream_def rest_bits_def buf_bits_def)
  moreover have "input_step s ?s" using d(3) by (simp add: input_step_def bounds_def)
  moreover have "wf_bits ?s" by (simp add: wf_bits_def)
  ultimately show ?thesis using inflating_input [OF assms(1)] by metis
qed

lemma bitcnt_0_room:
  assumes "inflating s0 bs ys s" "bitcnt s = 0" "8 * unat k \<le> length bs"
  shows "\<not> incnt s + k > inlen s"
proof -
  have "unat k \<le> unat (inlen s - incnt s)"
    using assms length_stream [of s] inflatingD(4) [OF assms(1)] by (simp add: bits_left_def)
  moreover have "incnt s \<le> inlen s" using inflatingD(3) [OF assms(1)] by (simp add: bounds_def)
  ultimately show ?thesis
    using unat32_less [of "inlen s"] by (subst word_less_nat_alt, subst unat_add_small) (auto simp: unat_sub word_le_nat_alt)
qed

lemma stored_inflating:
  assumes inf: "inflating s0 (pad @ bits_of (stored_header (length xs) @ xs) @ bs) ys s"
    and len: "length pad < 8" "length bs mod 8 = 0" "length xs < 2 ^ 16" and room: "length ys + length xs \<le> unat (outlen s)"
  shows "\<exists>s'. stored s = (Inr 0, s') \<and> inflating s0 bs (ys @ xs) s'"
proof -
  define lo hi :: u8 where "lo = of_nat (length xs)" and "hi = of_nat (drop_bit 8 (length xs))"
  define len where "len = (ucast lo OR push_bit 8 (ucast hi) :: u32)"
  have len': "len = of_nat (length xs)" "unat len = length xs"
    using stored_len [OF assms(4)] unat_of_nat32 [of "length xs"] assms(4) by (simp_all add: len_def lo_def hi_def)
  let ?s = "s\<lparr>bitbuf := 0, bitcnt := 0\<rparr>"
  have s0: "inflating s0 (byte_bits lo @ byte_bits hi @ byte_bits (NOT lo) @ byte_bits (NOT hi) @ bits_of xs @ bs) ys ?s"
    using align_inflating [OF inf len(1)] len(2) length_bits_of [of "stored_header (length xs) @ xs"]
    by (simp add: stored_header_def lo_def hi_def Let_def bits_aligned)
  have enough: "\<not> incnt s + 4 > inlen s" using bitcnt_0_room [OF s0, of 4] by simp
  note s1 = next_byte [OF s0, simplified]
  note s2 = next_byte [OF s1(2), simplified]
  note s3 = next_byte [OF s2(2), simplified]
  note s4 = next_byte [OF s3(2), simplified]
  define t where "t = ?s\<lparr>incnt := incnt s + 4\<rparr>"
  have t: "inflating s0 (bits_of xs @ bs) ys t" "bitcnt t = 0" using s4(2) by (simp_all add: t_def add.commute)
  have o: "outlen t = outlen s" "out t \<noteq> NIL" using inflatingD(7) [OF t(1)] by (simp_all add: t_def)
  have "\<not> incnt t + len > inlen t" using bitcnt_0_room [OF t, of len] len' by simp
  moreover have "\<not> outcnt t + len > outlen t"
    using room o unat32_less [of "outlen s"] inflatingD(8) [OF t(1)] len'(2)
    by (subst word_less_nat_alt, subst unat_add_small) auto
  ultimately have "stored_data len (?s\<lparr>incnt := incnt s + 2\<rparr>) = (Inr 0, stored_copy (length xs) t)"
    using s3(1) s4(1) o(2) len'(2) stored_complement [of lo hi]
    by (simp add: stored_data_def Let_def len_def [symmetric] t_def add.commute add.left_commute)
  moreover have "stored s = stored_data len (?s\<lparr>incnt := incnt s + 2\<rparr>)"
    using enough s1(1) s2(1) by (simp add: stored_def Let_def len_def add.assoc)
  moreover have "inflating s0 bs (ys @ xs) (stored_copy (length xs) t)"
    using stored_copy_inflating [OF t] room o by simp
  ultimately show ?thesis by simp
qed

subsection \<open>dynamic()\<close>

text \<open>
  The code lengths of a dynamic block are themselves coded: a length, a repetition of the last one, or a
  run of zeros with a short or a long count (RFC 1951, 3.2.7).
\<close>

datatype instr = Len nat | Rep nat | Zeros nat | MoreZeros nat

primrec instr_lengths :: "instr \<Rightarrow> int list \<Rightarrow> int list" where
  "instr_lengths (Len l) ls = ls @ [int l]"
| "instr_lengths (Rep b) ls = ls @ replicate (3 + b) (last ls)"
| "instr_lengths (Zeros b) ls = ls @ replicate (3 + b) 0"
| "instr_lengths (MoreZeros b) ls = ls @ replicate (11 + b) 0"

primrec instr_bits :: "int list \<Rightarrow> instr \<Rightarrow> bool list" where
  "instr_bits cl (Len l) = code_for cl l"
| "instr_bits cl (Rep b) = code_for cl 16 @ buf_bits (int b) 2"
| "instr_bits cl (Zeros b) = code_for cl 17 @ buf_bits (int b) 3"
| "instr_bits cl (MoreZeros b) = code_for cl 18 @ buf_bits (int b) 7"

primrec wf_instr :: "int list \<Rightarrow> int list \<Rightarrow> instr \<Rightarrow> bool" where
  "wf_instr cl ls (Len l) \<longleftrightarrow> l < 16 \<and> coded cl l"
| "wf_instr cl ls (Rep b) \<longleftrightarrow> b < 4 \<and> coded cl 16 \<and> ls \<noteq> []"
| "wf_instr cl ls (Zeros b) \<longleftrightarrow> b < 8 \<and> coded cl 17"
| "wf_instr cl ls (MoreZeros b) \<longleftrightarrow> b < 128 \<and> coded cl 18"

fun run_instrs :: "instr list \<Rightarrow> int list \<Rightarrow> int list" where
  "run_instrs [] ls = ls"
| "run_instrs (i # is) ls = run_instrs is (instr_lengths i ls)"

fun wf_instrs :: "int list \<Rightarrow> instr list \<Rightarrow> int list \<Rightarrow> bool" where
  "wf_instrs cl [] ls \<longleftrightarrow> True"
| "wf_instrs cl (i # is) ls \<longleftrightarrow> wf_instr cl ls i \<and> wf_instrs cl is (instr_lengths i ls)"

lemma length_instr: "length ls < length (instr_lengths i ls)"
  by (cases i) simp_all

lemma length_run_instrs: "length ls + length is \<le> length (run_instrs is ls)"
proof (induction "is" arbitrary: ls)
  case (Cons i "is")
  show ?case using Cons.IH [of "instr_lengths i ls"] length_instr [of ls i] by simp
qed simp

text \<open>The array \<open>lengths\<close> holds the lengths read so far at its start.\<close>

definition holds :: "int list \<Rightarrow> int list \<Rightarrow> bool" where
  "holds ls acc \<longleftrightarrow> length ls = MAXCODES \<and> length acc \<le> MAXCODES \<and> take (length acc) ls = acc"

lemma fill_holds:
  assumes "holds ls acc" "length acc + n \<le> MAXCODES"
  shows "\<exists>ls'. fill_lengths n (int (length acc)) len ls = Some ls' \<and> holds ls' (acc @ replicate n len)"
  using assms
proof (induction n arbitrary: ls acc)
  case (Suc n)
  let ?ls = "ls[length acc := len]"
  have "take (Suc (length acc)) ?ls = acc @ [len]"
    using Suc.prems by (simp add: holds_def take_Suc_conv_app_nth)
  then have "holds ?ls (acc @ [len])" using Suc.prems by (simp add: holds_def)
  from Suc.IH [OF this] show ?case
    using Suc.prems by (simp add: holds_def replicate_app_Cons_same [symmetric] algebra_simps)
qed simp

lemma set_holds:
  assumes "holds ls acc" "length acc < MAXCODES"
  shows "\<exists>ls'. aset ls (int (length acc)) len = Some ls' \<and> holds ls' (acc @ [len])"
  using fill_holds [OF assms(1), of 1 len] assms by (auto simp: bind_eq_Some_conv)

text \<open>One round of the loop that reads the code lengths.\<close>

lemma lengths_step_inflating:
  assumes inf: "inflating s0 (instr_bits cl i @ bs) ys s" and tab: "table_for cl h" and wf: "wf_instr cl acc i"
    and h: "holds ls acc" and tot: "length (instr_lengths i acc) \<le> tot" "tot \<le> MAXCODES"
  shows "\<exists>ls' s'. lengths_step h (int tot) (int (length acc)) ls s =
      (Inr (Inr (int (length (instr_lengths i acc)), ls')), s') \<and> holds ls' (instr_lengths i acc) \<and> inflating s0 bs ys s'"
proof -
  have rep: "\<exists>ls' s'. lengths_step h (int tot) (int (length acc)) ls s = (Inr (Inr (int (length acc) + int r, ls')), s') \<and>
      holds ls' (acc @ replicate r len) \<and> inflating s0 bs ys s'"
    if sy: "coded cl sy" "sy \<in> {16, 17, 18}" and bits: "instr_bits cl i = code_for cl sy @ buf_bits (int b) k" "b < 2 ^ k"
      and r: "r = (if sy = 18 then 11 else 3) + b" "length acc + r \<le> tot" and k: "k = (if sy = 16 then 2 else if sy = 17 then 3 else 7)"
      and len: "len = (if sy = 16 then last acc else 0)" "sy = 16 \<Longrightarrow> acc \<noteq> []" for sy b k r len
  proof -
    have k24: "k \<le> 24" using k by simp
    obtain s1 where s1: "decode h s = (Inr (int sy), s1)" "inflating s0 (buf_bits (int b) k @ bs) ys s1"
      using decode_inflating [OF _ tab sy(1), of s0 "buf_bits (int b) k @ bs" ys s] inf bits(1) by auto
    obtain s2 where s2: "bits s1 (int k) = (Inr (int b), s2)" "inflating s0 bs ys s2"
      using bits_inflating [OF s1(2)] int_less_power [OF bits(2)] k24 by auto
    obtain ls' where ls': "fill_lengths r (int (length acc)) len ls = Some ls'" "holds ls' (acc @ replicate r len)"
      using fill_holds [OF h, of r len] r(2) tot(2) by auto
    have prev: "aref ls (int (length acc) - 1) = Some len" if "sy = 16"
    proof -
      have "int (length acc) - 1 = int (length acc - 1)" using len(2) [OF that] by (cases acc) simp_all
      moreover have "ls ! (length acc - 1) = last acc"
        using h len(2) [OF that] by (metis diff_less holds_def last_conv_nth length_greater_0_conv nth_take zero_less_one)
      moreover have "length acc - 1 < length ls" using h unfolding holds_def by linarith
      ultimately show ?thesis using len(1) that by (simp only: aref_int if_True refl)
    qed
    have "\<not> int (length acc) + int r > int tot" using r(2) by linarith
    note e = s1(1) s2(1) ls'(1) prev r(1) k len this
    have "lengths_step h (int tot) (int (length acc)) ls s = (Inr (Inr (int (length acc) + int r, ls')), s2)"
      using sy(2) e nat_int [of "3 + b"] nat_int [of "11 + b"] by (elim insertE emptyE) (simp_all add: lengths_step_def del: aref_int nat_int)
    then show ?thesis using s2(2) ls'(2) by blast
  qed
  show ?thesis
  proof (cases i)
    case (Len l)
    obtain s1 where "decode h s = (Inr (int l), s1)" "inflating s0 bs ys s1"
      using decode_inflating [OF _ tab, of s0 l bs ys s] inf wf Len by auto
    moreover obtain ls' where "aset ls (int (length acc)) (int l) = Some ls'" "holds ls' (acc @ [int l])"
      using set_holds [OF h, of "int l"] tot Len by auto
    ultimately show ?thesis using wf Len by (simp add: lengths_step_def add.commute del: aset_int)
  next
    case (Rep b)
    then show ?thesis using rep [of 16 b 2 "3 + b" "last acc"] wf tot by (simp add: algebra_simps)
  next
    case (Zeros b)
    then show ?thesis using rep [of 17 b 3 "3 + b" 0] wf tot by (simp add: algebra_simps)
  next
    case (MoreZeros b)
    then show ?thesis using rep [of 18 b 7 "11 + b" 0] wf tot by (simp add: algebra_simps)
  qed
qed

lemma lengths_loop_inflating:
  assumes tab: "table_for cl h" and "inflating s0 (concat (map (instr_bits cl) is) @ bs) ys s" "wf_instrs cl is acc" "holds ls acc"
    and tot: "length (run_instrs is acc) = tot" "tot \<le> MAXCODES" and "length is < fuel"
  shows "\<exists>ls' s'. lengths_loop fuel h (int tot) (int (length acc)) ls s = (Inr (Inr ls'), s') \<and>
    holds ls' (run_instrs is acc) \<and> inflating s0 bs ys s'"
  using assms(2-5,7)
proof (induction "is" arbitrary: acc ls s fuel)
  case Nil
  then show ?case by (cases fuel) simp_all
next
  case (Cons i "is")
  let ?acc = "instr_lengths i acc"
  obtain f where f: "fuel = Suc f" "length is < f" using Cons.prems(5) by (cases fuel) simp_all
  have len: "length ?acc \<le> tot" "length acc < tot"
    using Cons.prems(4) length_run_instrs [of ?acc "is"] length_instr [of acc i] by simp_all
  obtain ls' s1 where s1: "lengths_step h (int tot) (int (length acc)) ls s = (Inr (Inr (int (length ?acc), ls')), s1)"
    "holds ls' ?acc" "inflating s0 (concat (map (instr_bits cl) is) @ bs) ys s1"
    using lengths_step_inflating [OF _ tab _ Cons.prems(3) len(1) tot(2), of s0 "concat (map (instr_bits cl) is) @ bs" ys s]
      Cons.prems(1,2) by auto
  then show ?case
    using Cons.IH [OF s1(3) _ s1(2) _ f(2)] Cons.prems(2,4) len(2) f(1) by simp
qed

text \<open>The lengths of the code length code come in an order of their own (RFC 1951, 3.2.7).\<close>

definition code_length_order :: "nat list" where
  "code_length_order = [16, 17, 18, 0, 8, 7, 9, 6, 10, 5, 11, 4, 12, 3, 13, 2, 14, 1, 15]"

lemma order_rfc:
  assumes "j < 19"
  shows "nat (order ! j) = code_length_order ! j"
proof -
  have o: "order = map int code_length_order" by (simp add: order_def code_length_order_def)
  have "length code_length_order = 19" by (simp add: code_length_order_def)
  then show ?thesis using assms unfolding o by simp
qed

definition order_bits :: "int list \<Rightarrow> nat \<Rightarrow> nat \<Rightarrow> bool list" where
  "order_bits cl i n = concat (map (\<lambda>j. buf_bits (cl ! nat (order ! j)) 3) [i..<i + n])"

definition in_place :: "int list \<Rightarrow> nat \<Rightarrow> int list \<Rightarrow> bool" where
  "in_place cl i ls \<longleftrightarrow> length ls = MAXCODES \<and> (\<forall>j<i. ls ! nat (order ! j) = cl ! nat (order ! j))"

lemma order_bits_simps: "order_bits cl i 0 = []" "order_bits cl i (Suc n) = buf_bits (cl ! nat (order ! i)) 3 @ order_bits cl (i + 1) n"
  by (simp_all add: order_bits_def upt_conv_Cons del: upt_Suc)

lemma aref_order: "i < 19 \<Longrightarrow> aref order (int i) = Some (order ! i)"
  by (simp add: order_def)

lemma set_in_place:
  assumes "in_place cl i ls" "i < 19"
  shows "\<exists>ls'. aset ls (order ! i) (cl ! nat (order ! i)) = Some ls' \<and> in_place cl (Suc i) ls'"
proof -
  have o: "0 \<le> order ! i" "order ! i < 19" using order_perm(1) [OF assms(2)] by simp_all
  have "aset ls (order ! i) (cl ! nat (order ! i)) = Some (ls[nat (order ! i) := cl ! nat (order ! i)])"
    using o assms(1) by (simp add: aset_def in_place_def)
  moreover have "nat (order ! j) \<noteq> nat (order ! i)" if "j < i" for j
    using order_perm(1) [of j] order_perm(3) [of j i] that assms(2) o by auto
  then have "in_place cl (Suc i) (ls[nat (order ! i) := cl ! nat (order ! i)])"
    using o assms(1) by (auto simp: in_place_def less_Suc_eq nth_list_update)
  ultimately show ?thesis by simp
qed

lemma read_code_lengths_inflating:
  assumes "inflating s0 (order_bits cl i n @ bs) ys s" "in_place cl i ls" "i + n \<le> 19" "length cl = 19"
    "list_all (\<lambda>l. 0 \<le> l \<and> l < 8) cl"
  shows "\<exists>ls' s'. read_code_lengths n i ls s = (Inr ls', s') \<and> in_place cl (i + n) ls' \<and> inflating s0 bs ys s'"
  using assms(1-3)
proof (induction n arbitrary: i ls s)
  case 0
  then show ?case by (simp add: order_bits_simps)
next
  case (Suc n)
  let ?v = "cl ! nat (order ! i)"
  have o: "0 \<le> order ! i" "order ! i < 19" using order_perm(1) [of i] Suc.prems(3) by simp_all
  then have v: "0 \<le> ?v" "?v < 2 ^ 3" using assms(4,5) by (auto simp: list_all_length)
  obtain s1 where s1: "bits s 3 = (Inr ?v, s1)" "inflating s0 (order_bits cl (i + 1) n @ bs) ys s1"
    using bits_inflating [OF _ v, of s0 "order_bits cl (i + 1) n @ bs" ys s] Suc.prems(1) by (auto simp: order_bits_simps)
  obtain ls' where "aset ls (order ! i) ?v = Some ls'" "in_place cl (i + 1) ls'"
    using set_in_place [OF Suc.prems(2)] Suc.prems(3) by auto
  then show ?case
    using Suc.IH [OF s1(2), of ls'] s1(1) Suc.prems(3) aref_order [of i] by (simp del: aref_int)
qed

lemma clear_in_place:
  assumes "in_place cl n ls" "n \<le> 19" "length cl = 19" "\<forall>j\<in>{n..<19}. cl ! nat (order ! j) = 0"
  shows "\<exists>ls'. for_each clear_step [n..<19] ls = Some ls' \<and> length ls' = MAXCODES \<and> take 19 ls' = cl"
proof -
  have "\<exists>ls'. clear_step i ls = Some ls' \<and> in_place cl (Suc i) ls'" if "n \<le> i" "i < 19" "in_place cl i ls" for i ls
    using set_in_place [OF that(3,2)] assms(4) that(1,2) aref_order [OF that(2)] by (simp add: clear_step_def del: aref_int)
  then obtain ls' where ls': "for_each clear_step [n..<19] ls = Some ls'" "in_place cl 19 ls'"
    using for_each_upt_rule [of n 19 "in_place cl" ls clear_step] assms(1,2) by blast
  have "take 19 ls' = cl"
  proof (rule nth_equalityI)
    show "length (take 19 ls') = length cl" using ls'(2) assms(3) by (simp add: in_place_def)
    fix j assume "j < length (take 19 ls')"
    then have j: "j < 19" by simp
    then obtain i where "i < 19" "order ! i = int j" using order_perm(2) by blast
    then show "take 19 ls' ! j = cl ! j" using ls'(2) j by (metis in_place_def nat_int nth_take)
  qed
  then show ?thesis using ls' by (auto simp: in_place_def)
qed

text \<open>The end of \<open>dynamic()\<close>: the two codes, then the tokens.\<close>

definition tokens_bits :: "int list \<Rightarrow> int list \<Rightarrow> token list \<Rightarrow> bool list" where
  "tokens_bits ls ds ts = concat (map (token_bits ls ds) ts) @ code_for ls 256"

lemma dynamic_codes_inflating:
  assumes inf: "inflating s0 (tokens_bits ls ds ts @ bs) ys s" and lens: "holds lengths (ls @ ds)"
    and ls: "usable ls" "coded ls 256" "length ls \<le> length (symbol lc)" and ds: "usable ds" "length ds \<le> length (symbol dc)"
    and ts: "list_all (wf_token ls ds) ts" "expand ts ys = Some zs" "length zs \<le> unat (outlen s)"
  shows "\<exists>s'. dynamic_codes lc dc (int (length ls)) (int (length ds)) lengths s = (Inr 0, s') \<and> inflating s0 bs zs s'"
proof -
  have "take (length ls) lengths @ take (length ds) (drop (length ls) lengths) = ls @ ds" "length ls \<le> length lengths"
    using lens by (simp_all add: holds_def take_add)
  then have tl: "take (length ls) lengths = ls" and td: "take (length ds) (drop (length ls) lengths) = ds"
    using append_eq_append_conv [of "take (length ls) lengths" ls] by simp_all
  obtain l1 h1 where h1: "construct lc lengths (length ls) = Some (l1, h1)" "table_for ls h1" "\<not> bad_code l1 h1 (int (length ls))"
    using construct_table_for [OF tl _ ls(3)] not_bad_code [OF ls(1)] ls(1) by (auto simp: usable_def)
  obtain l2 h2 where h2: "construct dc (drop (length ls) lengths) (length ds) = Some (l2, h2)" "table_for ds h2" "\<not> bad_code l2 h2 (int (length ds))"
    using construct_table_for [OF td _ ds(2)] not_bad_code [OF ds(1)] ds(1) by (auto simp: usable_def)
  have "256 < length lengths" "lengths ! 256 = ls ! 256"
    using lens ls(2) tl by (auto simp: holds_def coded_def) (metis nth_take)
  then have e: "aref lengths 256 = Some (ls ! 256)" "ls ! 256 \<noteq> 0" using ls(2) by (auto simp: coded_def)
  obtain s' where "codes h1 h2 s = (Inr 0, s')" "inflating s0 bs zs s'"
    using codes_inflating [OF h1(2) h2(2) ls(2) _ ts] inf by (auto simp: tokens_bits_def)
  then show ?thesis
    using h1(1,3) h2(1,3) e by (intro exI [of _ s']) (simp add: dynamic_codes_def del: aref_numeral)
qed

text \<open>A dynamic block: the three counts, the code length code, the instructions for the lengths and the tokens.\<close>

record dyn =
  dy_nlen :: nat
  dy_ndist :: nat
  dy_ncode :: nat
  dy_clens :: "int list"
  dy_instrs :: "instr list"

definition len_lengths :: "dyn \<Rightarrow> int list" where
  "len_lengths d = take (dy_nlen d) (run_instrs (dy_instrs d) [])"

definition dist_lengths :: "dyn \<Rightarrow> int list" where
  "dist_lengths d = drop (dy_nlen d) (run_instrs (dy_instrs d) [])"

definition dyn_bits :: "dyn \<Rightarrow> bool list" where
  "dyn_bits d = buf_bits (int (dy_nlen d - 257)) 5 @ buf_bits (int (dy_ndist d - 1)) 5 @ buf_bits (int (dy_ncode d - 4)) 4 @
     concat (map (\<lambda>j. buf_bits (dy_clens d ! (code_length_order ! j)) 3) [0..<dy_ncode d]) @
     concat (map (instr_bits (dy_clens d)) (dy_instrs d))"

lemma order_bits_rfc: "n \<le> 19 \<Longrightarrow> concat (map (\<lambda>j. buf_bits (cl ! (code_length_order ! j)) 3) [0..<n]) = order_bits cl 0 n"
  unfolding order_bits_def using order_rfc by (intro arg_cong [of _ _ concat] map_cong) auto

definition wf_dyn :: "dyn \<Rightarrow> bool" where
  "wf_dyn d \<longleftrightarrow> 257 \<le> dy_nlen d \<and> dy_nlen d \<le> MAXLCODES \<and> 1 \<le> dy_ndist d \<and> dy_ndist d \<le> MAXDCODES \<and> 4 \<le> dy_ncode d \<and> dy_ncode d \<le> 19 \<and>
     length (dy_clens d) = 19 \<and> list_all (\<lambda>l. 0 \<le> l \<and> l < 8) (dy_clens d) \<and> code_left (dy_clens d) = 0 \<and>
     list_all (\<lambda>j. dy_clens d ! (code_length_order ! j) = 0) [dy_ncode d..<19] \<and>
     wf_instrs (dy_clens d) (dy_instrs d) [] \<and> length (run_instrs (dy_instrs d) []) = dy_nlen d + dy_ndist d \<and>
     usable (len_lengths d) \<and> usable (dist_lengths d) \<and> coded (len_lengths d) 256"

lemma dynamic_lengths_inflating:
  assumes inf: "inflating s0 (order_bits (dy_clens d) 0 (dy_ncode d) @ concat (map (instr_bits (dy_clens d)) (dy_instrs d)) @
        tokens_bits (len_lengths d) (dist_lengths d) ts @ bs) ys s"
    and wf: "wf_dyn d" and arr: "length ls0 = MAXCODES" "length (symbol lc) = MAXLCODES" "length (symbol dc) = MAXDCODES"
    and ts: "list_all (wf_token (len_lengths d) (dist_lengths d)) ts" "expand ts ys = Some zs" "length zs \<le> unat (outlen s)"
  shows "\<exists>s'. dynamic_lengths lc dc ls0 (int (dy_nlen d)) (int (dy_ndist d)) (int (dy_ncode d)) s = (Inr 0, s') \<and> inflating s0 bs zs s'"
proof -
  let ?cl = "dy_clens d" and ?run = "run_instrs (dy_instrs d) []" and ?tot = "dy_nlen d + dy_ndist d"
  have w: "dy_nlen d \<le> MAXLCODES" "dy_ndist d \<le> MAXDCODES" "dy_ncode d \<le> 19" "length ?cl = 19" "list_all (\<lambda>l. 0 \<le> l \<and> l < 8) ?cl"
    "code_left ?cl = 0" "\<forall>j\<in>{dy_ncode d..<19}. ?cl ! nat (order ! j) = 0" "wf_instrs ?cl (dy_instrs d) []" "length ?run = ?tot"
    using wf by (auto simp: wf_dyn_def list_all_iff order_rfc)
  have run: "len_lengths d @ dist_lengths d = ?run" "length (len_lengths d) = dy_nlen d" "length (dist_lengths d) = dy_ndist d"
    using w(9) by (simp_all add: len_lengths_def dist_lengths_def)
  obtain ls1 s1 where r1: "read_code_lengths (dy_ncode d) 0 ls0 s = (Inr ls1, s1)" "in_place ?cl (0 + dy_ncode d) ls1"
    "inflating s0 (concat (map (instr_bits ?cl) (dy_instrs d)) @ tokens_bits (len_lengths d) (dist_lengths d) ts @ bs) ys s1"
    using read_code_lengths_inflating [OF inf _ _ w(4,5), of ls0] arr(1) w(3) by (auto simp: in_place_def)
  obtain ls2 where r2: "for_each clear_step [dy_ncode d..<19] ls1 = Some ls2" "length ls2 = MAXCODES" "take 19 ls2 = ?cl"
    using clear_in_place [OF _ w(3,4,7)] r1(2) by auto
  have "lengths_ok ?cl" using w(5,6) by (auto simp: lengths_ok_def list_all_iff)
  then obtain h where r3: "construct lc ls2 19 = Some (0, h)" "table_for ?cl h" "length (symbol h) = length (symbol lc)"
    using construct_table_for [of ?cl ls2 lc] r2(3) w(4,6) arr(2) by auto
  have "holds ls2 []" "length (dy_instrs d) < MAXCODES + 1" "?tot \<le> MAXCODES"
    using r2(2) length_run_instrs [of "[]" "dy_instrs d"] w(1,2,9) by (simp_all add: holds_def)
  then obtain ls3 s2 where r4: "lengths_loop (MAXCODES + 1) h (int ?tot) 0 ls2 s1 = (Inr (Inr ls3), s2)" "holds ls3 ?run"
    "inflating s0 (tokens_bits (len_lengths d) (dist_lengths d) ts @ bs) ys s2"
    using lengths_loop_inflating [OF r3(2) r1(3) w(8) _ w(9), of ls2 "MAXCODES + 1"] by auto
  have "outlen s2 = outlen s" using inflatingD(6) [OF r4(3)] inflatingD(6) [OF inf] by simp
  then obtain s' where "dynamic_codes h dc (int (dy_nlen d)) (int (dy_ndist d)) ls3 s2 = (Inr 0, s')" "inflating s0 bs zs s'"
    using dynamic_codes_inflating [OF r4(3) _ _ _ _ _ _ ts(1,2), of ls3 h dc] r4(2) run wf arr r3(3) ts(3)
    by (auto simp: wf_dyn_def)
  then show ?thesis
    using r1(1) r2(1) r3(1) r4(1) w(1,2) by (intro exI [of _ s']) (simp add: dynamic_lengths_def)
qed

lemma dynamic_inflating:
  assumes inf: "inflating s0 (dyn_bits d @ tokens_bits (len_lengths d) (dist_lengths d) ts @ bs) ys s" and wf: "wf_dyn d"
    and ts: "list_all (wf_token (len_lengths d) (dist_lengths d)) ts" "expand ts ys = Some zs" "length zs \<le> unat (outlen s)"
  shows "\<exists>s'. dynamic s = (Inr 0, s') \<and> inflating s0 bs zs s'"
proof -
  let ?rest = "order_bits (dy_clens d) 0 (dy_ncode d) @ concat (map (instr_bits (dy_clens d)) (dy_instrs d)) @
    tokens_bits (len_lengths d) (dist_lengths d) ts @ bs"
  have w: "257 \<le> dy_nlen d" "dy_nlen d - 257 < 2 ^ 5" "1 \<le> dy_ndist d" "dy_ndist d - 1 < 2 ^ 5" "4 \<le> dy_ncode d" "dy_ncode d - 4 < 2 ^ 4" "dy_ncode d \<le> 19"
    using wf by (auto simp: wf_dyn_def)
  obtain s1 where s1: "bits s 5 = (Inr (int (dy_nlen d - 257)), s1)"
    "inflating s0 (buf_bits (int (dy_ndist d - 1)) 5 @ buf_bits (int (dy_ncode d - 4)) 4 @ ?rest) ys s1"
    using bits_inflating [OF inf [unfolded dyn_bits_def order_bits_rfc [OF w(7)] append_assoc] of_nat_0_le_iff int_less_power [OF w(2)]] by auto
  obtain s2 where s2: "bits s1 5 = (Inr (int (dy_ndist d - 1)), s2)" "inflating s0 (buf_bits (int (dy_ncode d - 4)) 4 @ ?rest) ys s2"
    using bits_inflating [OF s1(2) of_nat_0_le_iff int_less_power [OF w(4)]] by auto
  obtain s3 where s3: "bits s2 4 = (Inr (int (dy_ncode d - 4)), s3)" "inflating s0 ?rest ys s3"
    using bits_inflating [OF s2(2) of_nat_0_le_iff int_less_power [OF w(6)]] by auto
  have "length zs \<le> unat (outlen s3)" using inflatingD(6) [OF s3(2)] inflatingD(6) [OF inf] ts(3) by simp
  note go = dynamic_lengths_inflating [OF s3(2) wf _ _ _ ts(1,2) this]
  have n: "int (dy_nlen d - 257) + 257 = int (dy_nlen d)" "int (dy_ndist d - 1) + 1 = int (dy_ndist d)" "int (dy_ncode d - 4) + 4 = int (dy_ncode d)"
    using w(1,3,5) by (simp_all add: of_nat_diff)
  show ?thesis
    unfolding dynamic_def Let_def using s1(1) s2(1) s3(1) n go by (simp del: of_nat_diff)
qed

subsection \<open>puff()\<close>

datatype dblock = Stored "bool list" "u8 list" | Fixed "token list" | Dynamic dyn "token list"

primrec block_bits :: "dblock \<Rightarrow> bool list" where
  "block_bits (Stored pad xs) = buf_bits 0 2 @ pad @ bits_of (stored_header (length xs) @ xs)"
| "block_bits (Fixed ts) = buf_bits 1 2 @ tokens_bits fixed_len fixed_dist ts"
| "block_bits (Dynamic d ts) = buf_bits 2 2 @ dyn_bits d @ tokens_bits (len_lengths d) (dist_lengths d) ts"

text \<open>The number of bits before the block decides how many bits fill up to the next byte in a stored block.\<close>

primrec wf_block :: "nat \<Rightarrow> dblock \<Rightarrow> bool" where
  "wf_block pos (Stored pad xs) \<longleftrightarrow> length pad < 8 \<and> (pos + 3 + length pad) mod 8 = 0 \<and> length xs < 2 ^ 16"
| "wf_block pos (Fixed ts) \<longleftrightarrow> list_all (wf_token fixed_len fixed_dist) ts"
| "wf_block pos (Dynamic d ts) \<longleftrightarrow> wf_dyn d \<and> list_all (wf_token (len_lengths d) (dist_lengths d)) ts"

primrec block_bytes :: "dblock \<Rightarrow> u8 list \<Rightarrow> u8 list option" where
  "block_bytes (Stored pad xs) ys = Some (ys @ xs)"
| "block_bytes (Fixed ts) ys = expand ts ys"
| "block_bytes (Dynamic d ts) ys = expand ts ys"

fun deflate_bits :: "dblock list \<Rightarrow> bool list" where
  "deflate_bits [] = []"
| "deflate_bits (b # bs) = (bs = []) # block_bits b @ deflate_bits bs"

fun wf_blocks :: "nat \<Rightarrow> dblock list \<Rightarrow> bool" where
  "wf_blocks pos [] \<longleftrightarrow> True"
| "wf_blocks pos (b # bs) \<longleftrightarrow> wf_block pos b \<and> wf_blocks (pos + 1 + length (block_bits b)) bs"

fun inflate_bytes :: "dblock list \<Rightarrow> u8 list \<Rightarrow> u8 list option" where
  "inflate_bytes [] ys = Some ys"
| "inflate_bytes (b # bs) ys = Option.bind (block_bytes b ys) (inflate_bytes bs)"

lemma block_inflating:
  assumes inf: "inflating s0 (block_bits b @ bs) ys s" and wf: "wf_block pos b" and pos: "(pos + 1 + length (block_bits b @ bs)) mod 8 = 0"
    and bb: "block_bytes b ys = Some zs" "length zs \<le> unat (outlen s)"
  shows "\<exists>t s1 s'. bits s 2 = (Inr t, s1) \<and> block t s1 = (Inr 0, s') \<and> inflating s0 bs zs s'"
proof (cases b)
  case (Stored pad xs)
  let ?r = "pad @ bits_of (stored_header (length xs) @ xs) @ bs"
  obtain s1 where s1: "bits s 2 = (Inr 0, s1)" "inflating s0 ?r ys s1"
    using bits_inflating [of s0 0 2 ?r ys s] inf Stored by auto
  have "length bs mod 8 = 0"
  proof -
    have "pos + 1 + length (block_bits b @ bs) = (pos + 3 + length pad) + (8 * (4 + length xs) + length bs)"
      by (simp add: Stored stored_header_def Let_def)
    then show ?thesis using pos wf Stored by (metis (no_types, lifting) mod_add_eq add_0 mod_mult_self4 mod_mod_trivial wf_block.simps(1))
  qed
  moreover have "length ys + length xs \<le> unat (outlen s1)"
    using bb Stored inflatingD(6) [OF s1(2)] inflatingD(6) [OF inf] by auto
  ultimately show ?thesis
    using stored_inflating [OF s1(2)] wf bb Stored s1(1) by (auto simp: block_def)
next
  case (Fixed ts)
  let ?r = "concat (map (token_bits fixed_lengths (replicate MAXDCODES 5)) ts) @ code_for fixed_lengths 256 @ bs"
  obtain s1 where s1: "bits s 2 = (Inr 1, s1)" "inflating s0 ?r ys s1"
    using bits_inflating [of s0 1 2 ?r ys s] inf Fixed by (auto simp: tokens_bits_def fixed_lengths_eq)
  moreover have "length zs \<le> unat (outlen s1)" using bb inflatingD(6) [OF s1(2)] inflatingD(6) [OF inf] by simp
  ultimately show ?thesis
    using fixed_inflating [OF s1(2)] wf bb(1) Fixed by (auto simp: block_def fixed_lengths_eq)
next
  case (Dynamic d ts)
  let ?r = "dyn_bits d @ tokens_bits (len_lengths d) (dist_lengths d) ts @ bs"
  obtain s1 where s1: "bits s 2 = (Inr 2, s1)" "inflating s0 ?r ys s1"
    using bits_inflating [of s0 2 2 ?r ys s] inf Dynamic by auto
  moreover have "length zs \<le> unat (outlen s1)" using bb inflatingD(6) [OF s1(2)] inflatingD(6) [OF inf] by simp
  ultimately show ?thesis
    using dynamic_inflating [OF s1(2)] wf bb(1) Dynamic by (auto simp: block_def)
qed

lemma block_bytes_mono: "block_bytes b ys = Some zs \<Longrightarrow> length ys \<le> length zs"
  using expand_mono by (cases b) auto

lemma inflate_bytes_mono: "inflate_bytes bs ys = Some zs \<Longrightarrow> length ys \<le> length zs"
proof (induction bs arbitrary: ys)
  case (Cons b bs)
  then obtain xs where xs: "block_bytes b ys = Some xs" "inflate_bytes bs xs = Some zs" by (auto simp: bind_eq_Some_conv)
  show ?case using block_bytes_mono [OF xs(1)] Cons.IH [OF xs(2)] by simp
qed simp

lemma blocks_loop_inflating:
  assumes "inflating s0 (deflate_bits bs @ rest) ys s" "bs \<noteq> []" "wf_blocks pos bs" "(pos + length (deflate_bits bs @ rest)) mod 8 = 0"
    "inflate_bytes bs ys = Some zs" "length zs \<le> unat (outlen s)" "length bs \<le> fuel"
  shows "\<exists>s'. blocks_loop fuel s = (Inr 0, s') \<and> inflating s0 rest zs s'"
  using assms
proof (induction bs arbitrary: ys s pos fuel)
  case (Cons b bs)
  then obtain f xs where f: "fuel = Suc f" "block_bytes b ys = Some xs" "inflate_bytes bs xs = Some zs"
    by (cases fuel) (auto simp: bind_eq_Some_conv)
  let ?r = "block_bits b @ deflate_bits bs @ rest"
  obtain s1 where s1: "bits s 1 = (Inr (of_bool (bs = [])), s1)" "inflating s0 ?r ys s1"
    using bits_inflating [of s0 "of_bool (bs = [])" 1 ?r ys s] Cons.prems(1)
    by (cases "bs = []") (auto simp: buf_bits_def bit_0)
  have o: "outlen s1 = outlen s" using inflatingD(6) [OF s1(2)] inflatingD(6) [OF Cons.prems(1)] by simp
  then have "length xs \<le> unat (outlen s1)" using inflate_bytes_mono [OF f(3)] Cons.prems(6) by simp
  then obtain t s2 s3 where s3: "bits s1 2 = (Inr t, s2)" "block t s2 = (Inr 0, s3)" "inflating s0 (deflate_bits bs @ rest) xs s3"
    using block_inflating [OF s1(2) _ _ f(2), of pos] Cons.prems(3,4) by auto
  have "outlen s3 = outlen s" using inflatingD(6) [OF s3(3)] inflatingD(6) [OF Cons.prems(1)] by simp
  then show ?case
    using Cons.IH [OF s3(3), of "pos + 1 + length (block_bits b)" f] Cons.prems s1(1) s3 f by (cases "bs = []") (auto simp: ac_simps)
qed simp

text \<open>A block has at least two bits after its flag, so the fuel of the loop over the blocks is enough.\<close>

lemma length_deflate_bits: "length bs \<le> length (deflate_bits bs)"
  by (induction bs) simp_all

lemma start_inflating:
  assumes "size_ok sourcelen" "size_ok destlen" "statics_ok w" "dest \<noteq> NIL" "region source (unat sourcelen) \<inter> region dest (unat destlen) = {}"
  defines "s \<equiv> init_state w dest destlen source sourcelen"
  shows "inflating s (bits_of (bytes (mem w) source (unat sourcelen))) [] s"
proof -
  have "sinv s" unfolding s_def using assms by (intro init_sinv) (auto simp: statics_ok_def)
  moreover have "stream s = bits_of (bytes (mem w) source (unat sourcelen))"
    by (simp add: s_def stream_def rest_bits_def init_state_def buf_bits_def bits_of_def)
  moreover have "disjoint_buffers s" using assms by (simp add: disjoint_buffers_def writable_def init_state_def)
  ultimately show ?thesis by (simp add: inflating_def s_def init_state_def)
qed

lemma consumed_bytes:
  assumes "inflating s0 rest ys s" "inlen s0 = inlen s" "8 * unat (inlen s) = n + length rest"
  shows "unat (incnt s) = (n + 7) div 8"
proof -
  note d = inflatingD [OF assms(1)]
  have "length rest = 8 * unat (inlen s - incnt s) + nat (bitcnt s)" using length_stream [of s] d(4) by (simp add: bits_left_def)
  moreover have "nat (bitcnt s) < 8" using d(2) by (auto simp: wf_bits_def)
  moreover have "unat (inlen s - incnt s) = unat (inlen s) - unat (incnt s)" "unat (incnt s) \<le> unat (inlen s)"
    using d(3) by (auto simp: bounds_def unat_sub word_le_nat_alt)
  ultimately show ?thesis using assms(3) by linarith
qed

lemma puff_inflate_run:
  assumes "size_ok sourcelen" "size_ok destlen" "statics_ok w" "dest \<noteq> NIL"
    and "region source (unat sourcelen) \<inter> region dest (unat destlen) = {}"
    and "bs \<noteq> []" "wf_blocks 0 bs" "bits_of (bytes (mem w) source (unat sourcelen)) = deflate_bits bs @ rest"
    and "inflate_bytes bs [] = Some zs" "length zs \<le> unat destlen"
  shows "\<exists>k w'. puff w dest destlen source sourcelen = (Inr (0, of_nat (length zs), k), w') \<and>
    bytes (mem w') dest (length zs) = zs \<and> unat k = (length (deflate_bits bs) + 7) div 8"
proof -
  let ?s = "init_state w dest destlen source sourcelen"
  have inf: "inflating ?s (deflate_bits bs @ rest) [] ?s" using start_inflating [OF assms(1-5)] assms(8) by simp
  have len: "8 * unat sourcelen = length (deflate_bits bs) + length rest" using arg_cong [OF assms(8), of length] by simp
  then have a: "(0 + length (deflate_bits bs @ rest)) mod 8 = 0" by (metis add_0 length_append mod_mult_self1_is_0)
  have b: "length zs \<le> unat (outlen ?s)" using assms(10) by (simp add: init_state_def)
  have "length bs \<le> bits_left ?s + 1"
    using length_stream [of ?s] inflatingD(4) [OF inf] length_deflate_bits [of bs] by simp
  then obtain s' where s': "blocks_loop (bits_left ?s + 1) ?s = (Inr 0, s')" "inflating ?s rest zs s'"
    using blocks_loop_inflating [OF inf assms(6,7) a assms(9) b] by blast
  have "inlen s' = inlen ?s" using s'(2) by (simp add: inflating_def frame_def)
  then have "unat (incnt s') = (length (deflate_bits bs) + 7) div 8"
    using consumed_bytes [OF s'(2)] len by (simp add: init_state_def)
  moreover have "bytes (mem s') dest (length zs) = zs" "outcnt s' = of_nat (length zs)"
    using inflating_bytes [OF s'(2)] inflatingD(5,9) [OF s'(2)] by (simp_all add: init_state_def)
  ultimately show ?thesis
    using s'(1) unfolding puff_def Let_def by (simp add: world_of_def)
qed

text \<open>
  C6. \<open>puff()\<close> inverts DEFLATE: let the input hold, from its first bit on, a sequence of blocks in the format of
  RFC 1951, stored, with the fixed codes or with codes described in the block, in any way the format
  leaves to the compressor. When the blocks stand for the bytes \<open>zs\<close>, these fit the output buffer and the
  buffers do not overlap, then \<open>puff()\<close> returns 0, the buffer starts with \<open>zs\<close>, \<open>*destlen\<close> is their number and \<open>*sourcelen\<close>
  the number of bytes the blocks take up.
\<close>

theorem puff_inflates:
  assumes "size_ok sourcelen" "size_ok destlen" "statics_ok w" "dest \<noteq> NIL"
    and "region source (unat sourcelen) \<inter> region dest (unat destlen) = {}"
    and "bs \<noteq> []" "wf_blocks 0 bs" "bits_of (bytes (mem w) source (unat sourcelen)) = deflate_bits bs @ rest"
    and "inflate_bytes bs [] = Some zs" "length zs \<le> unat destlen"
  shows "\<exists>k w'. puff w dest destlen source sourcelen = (Inr (0, of_nat (length zs), k), w') \<and>
    bytes (mem w') dest (length zs) = zs \<and> unat k = (length (deflate_bits bs) + 7) div 8"
  by (rule puff_inflate_run [OF assms])

text \<open>A stream with a stored block, a dynamic one and a fixed one, in this order.\<close>

definition example_dyn :: dyn where
  "example_dyn = \<lparr>dy_nlen = 257, dy_ndist = 1, dy_ncode = 18, dy_clens = [2, 2, 0, 0, 0, 0, 0, 0, 0, 0, 0, 0, 0, 0, 0, 0, 0, 0, 1],
     dy_instrs = [MoreZeros 86, Len 1, MoreZeros 127, MoreZeros 9, Len 1, Len 0]\<rparr>"

definition example_blocks :: "dblock list" where
  "example_blocks = [Stored [False, False, False, False, False] [0x48, 0x69], Dynamic example_dyn [Literal 97], Fixed [Match 0 0 0 0]]"

definition example_deflated :: "u8 list" where
  "example_deflated = [0, 2, 0, 253, 255, 72, 105, 4, 192, 129, 8, 0, 0, 0, 0, 32, 214, 253, 37, 206, 1, 1, 0]"

text \<open>The code words of the example; lists of equal lengths are counted as a whole.\<close>

lemma length_syms: "i \<le> length ls \<Longrightarrow> length (syms ls i l) = length (filter (\<lambda>x. x = int l) (take i ls))"
  by (induction i) (simp_all add: syms_Suc take_Suc_conv_app_nth)

lemma code_for_count:
  assumes "\<And>l. l \<noteq> 0 \<Longrightarrow> l \<le> 15 \<Longrightarrow> ncode ls (length ls) l = c l" "\<And>l. l = 0 \<or> 15 < l \<Longrightarrow> c l = 0" "i \<le> length ls" "ls ! i = int n"
  shows "code_for ls i = code_bits (cfirst c n + int (length (filter (\<lambda>x. x = int n) (take i ls)))) n"
proof -
  have "(\<lambda>l. if l = 0 \<or> 15 < l then 0 else ncode ls (length ls) l) = c" using assms(1,2) by fastforce
  then show ?thesis using length_syms [OF assms(3), of n] assms(4) by (simp add: code_for_def canonical_code_def)
qed

lemma example_len_lengths:
  "len_lengths example_dyn = replicate 97 0 @ [1] @ replicate 158 0 @ [1]" "dist_lengths example_dyn = [0]"
  by (simp_all add: len_lengths_def dist_lengths_def example_dyn_def flip: replicate_add) 

lemma example_len_count: "ncode (len_lengths example_dyn) (length (len_lengths example_dyn)) l = (if l = 1 then 2 else if l = 0 then 255 else 0)"
  unfolding ncode_filter example_len_lengths by auto

lemma example_len_codes: "code_for (len_lengths example_dyn) 97 = [False]" "code_for (len_lengths example_dyn) 256 = [True]"
proof -
  note c = code_for_count [of "len_lengths example_dyn" "\<lambda>l. if l = 1 then 2 else 0" _ 1, OF example_len_count [THEN trans]]
  show "code_for (len_lengths example_dyn) 97 = [False]" "code_for (len_lengths example_dyn) 256 = [True]"
    by (subst c; (simp add: example_len_lengths nth_append code_bits_def bit_0; fail)?; auto)+
qed

lemma fixed_len_count:
  "ncode fixed_lengths (length fixed_lengths) l = (if l = 7 then 24 else if l = 8 then 152 else if l = 9 then 112 else 0)"
  unfolding ncode_filter by (auto simp: fixed_lengths_def)

lemma fixed_len_first: "cfirst (\<lambda>l. if l = 7 then 24 else if l = 8 then 152 else if l = 9 then 112 else 0) 7 = 0"
  by code_simp

lemma example_fixed_codes: "code_for fixed_lengths 256 = [False, False, False, False, False, False, False]" "code_for fixed_lengths 257 = [False, False, False, False, False, False, True]"
proof -
  note c = code_for_count [of fixed_lengths "\<lambda>l. if l = 7 then 24 else if l = 8 then 152 else if l = 9 then 112 else 0" _ 7, OF fixed_len_count]
  have n: "fixed_lengths ! 256 = int 7" "fixed_lengths ! 257 = int 7" "256 \<le> length fixed_lengths" "257 \<le> length fixed_lengths"
    "length (filter (\<lambda>x. x = int 7) (take 256 fixed_lengths)) = 0" "length (filter (\<lambda>x. x = int 7) (take 257 fixed_lengths)) = 1"
    by (simp_all add: fixed_lengths_def nth_append)
  show "code_for fixed_lengths 256 = [False, False, False, False, False, False, False]"
    by (subst c) (use n in \<open>auto simp: fixed_len_first code_bits_def upt_rec\<close>)
  show "code_for fixed_lengths 257 = [False, False, False, False, False, False, True]"
    by (subst c) (use n in \<open>auto simp: fixed_len_first code_bits_def upt_rec bit_1_iff\<close>)
qed

lemma example_dist_code: "code_for (replicate MAXDCODES 5) 0 = [False, False, False, False, False]"
  by code_simp

lemma example_deflate_bits:
  "deflate_bits example_blocks = False # (buf_bits 0 2 @ [False, False, False, False, False] @ bits_of (stored_header (length [0x48, 0x69 :: u8]) @ [0x48, 0x69])) @
     False # (buf_bits 2 2 @ dyn_bits example_dyn @ [False, True]) @ True # buf_bits 1 2 @ [False, False, False, False, False, False, True] @
     [False, False, False, False, False] @ [False, False, False, False, False, False, False]"
  unfolding example_blocks_def deflate_bits.simps block_bits.simps tokens_bits_def
  by (simp add: example_len_codes example_fixed_codes [unfolded fixed_lengths_eq] example_dist_code length_extra_def dist_extra_def buf_bits_def [of _ 0] del: replicate.simps)

lemma example_bits: "bits_of example_deflated = deflate_bits example_blocks @ [False, False, False]"
  unfolding example_deflate_bits by code_simp

lemma example_length: "length (deflate_bits example_blocks) = 181"
  using arg_cong [OF example_bits, of length] by (simp add: example_deflated_def)

lemma example_inflates: "inflate_bytes example_blocks [] = Some [0x48, 0x69, 97, 97, 97, 97]"
  by code_simp

lemma example_usable: "usable (len_lengths example_dyn)" "usable (dist_lengths example_dyn)" "coded (len_lengths example_dyn) 256"
proof -
  have "code_left (len_lengths example_dyn) = 0" unfolding code_left_def example_len_count by code_simp
  then show "usable (len_lengths example_dyn)" by (auto simp: usable_def lengths_ok_def example_len_lengths list_all_iff)
  show "usable (dist_lengths example_dyn)" unfolding example_len_lengths by code_simp
  show "coded (len_lengths example_dyn) 256" by (simp add: example_len_lengths coded_def nth_append)
qed

lemma example_dyn_wf: "wf_dyn example_dyn"
proof -
  have "length (run_instrs (dy_instrs example_dyn) []) = 258" by (simp add: example_dyn_def)
  moreover have "wf_instrs (dy_clens example_dyn) (dy_instrs example_dyn) []" "code_left (dy_clens example_dyn) = 0"
    "list_all (\<lambda>j. dy_clens example_dyn ! (code_length_order ! j) = 0) [dy_ncode example_dyn..<19]"
    by code_simp+
  ultimately show ?thesis using example_usable unfolding wf_dyn_def by (simp add: example_dyn_def)
qed

lemma example_tokens:
  "list_all (wf_token (len_lengths example_dyn) (dist_lengths example_dyn)) [Literal 97]"
  "list_all (wf_token fixed_len fixed_dist) [Match 0 0 0 0]"
  by code_simp+

lemma example_blocks_wf: "wf_blocks 0 example_blocks"
  using example_dyn_wf example_tokens by (simp add: example_blocks_def)

theorem puff_inflates_witness:
  "\<exists>k w'. puff \<lparr>mem = store_bytes (\<lambda>_. 0) 0x1000 example_deflated, fx = fixed_init, stk = (\<lambda>i. int i)\<rparr> 0x2000 16 0x1000 23 = (Inr (0, 6, k), w') \<and>
    bytes (mem w') 0x2000 6 = [0x48, 0x69, 97, 97, 97, 97] \<and> unat k = 23"
proof -
  let ?w = "\<lparr>mem = store_bytes (\<lambda>_. 0) 0x1000 example_deflated, fx = fixed_init, stk = (\<lambda>i. int i)\<rparr>"
  have len: "length example_deflated = 23" by (simp add: example_deflated_def)
  have "bytes (mem ?w) 0x1000 23 = example_deflated"
    using bytes_store_bytes [of example_deflated "\<lambda>_. 0" "0x1000"] len by simp
  then have "bits_of (bytes (mem ?w) 0x1000 (unat (23 :: u32))) = deflate_bits example_blocks @ [False, False, False]"
    using example_bits by simp
  moreover have "region 0x1000 (unat (23 :: u32)) \<inter> region 0x2000 (unat (16 :: u32)) = {}"
    using apart_unat [of "0x1000" 23 "0x2000" 16] by (simp add: apart_def)
  moreover have "size_ok 23" "size_ok 16" "statics_ok ?w" "example_blocks \<noteq> []"
    by (simp_all add: size_ok_def statics_ok_def fixed_init_def example_blocks_def)
  moreover have "length [0x48, 0x69, 97, 97, 97, 97 :: u8] = 6" by simp
  ultimately show ?thesis
    using puff_inflates [of 23 16 ?w "0x2000" "0x1000" example_blocks "[False, False, False]", OF _ _ _ _ _ _ example_blocks_wf _ example_inflates]
      example_length by (simp del: list.size)
qed

end
