(* ===== verification/Zip_Image.thy ===== *)
theory Zip_Image
  imports Zip Puff_Inflate
begin

text \<open>
  Archives as a packer lays them out (local headers with names and data, the central directory,
  the end record), and the round trip: from an archive that lies in memory, the reader of
  \<open>Zip\<close> finds every file and extracts its contents, stored or deflated.
\<close>

subsection \<open>Layout of an archive\<close>

record zentry =
  zname :: "u8 list"
  zmethod :: nat
  zpayload :: "u8 list"
  zdata :: "u8 list"
  zcrc :: nat

definition le16 :: "nat \<Rightarrow> u8 list" where
  "le16 n = [of_nat n, of_nat (drop_bit 8 n)]"

definition le32 :: "nat \<Rightarrow> u8 list" where
  "le32 n = [of_nat n, of_nat (drop_bit 8 n), of_nat (drop_bit 16 n), of_nat (drop_bit 24 n)]"

definition lfh_bytes :: "zentry \<Rightarrow> u8 list" where
  "lfh_bytes e = [0x50, 0x4b, 3, 4, 20, 0, 0, 0] @ le16 (zmethod e) @ [0, 0, 0, 0] @ le32 (zcrc e)
     @ le32 (length (zpayload e)) @ le32 (length (zdata e)) @ le16 (length (zname e)) @ [0, 0]"

definition local_entry :: "zentry \<Rightarrow> u8 list" where
  "local_entry e = lfh_bytes e @ zname e @ zpayload e"

definition gfh_bytes :: "zentry \<Rightarrow> nat \<Rightarrow> u8 list" where
  "gfh_bytes e off = [0x50, 0x4b, 1, 2, 20, 0, 20, 0, 0, 0] @ le16 (zmethod e) @ [0, 0, 0, 0] @ le32 (zcrc e)
     @ le32 (length (zpayload e)) @ le32 (length (zdata e)) @ le16 (length (zname e))
     @ [0, 0, 0, 0, 0, 0, 0, 0, 0, 0, 0, 0] @ le32 off"

definition central_entry :: "zentry \<Rightarrow> nat \<Rightarrow> u8 list" where
  "central_entry e off = gfh_bytes e off @ zname e"

definition locals :: "zentry list \<Rightarrow> u8 list" where
  "locals es = concat (map local_entry es)"

text \<open>The central directory of the entries \<open>es\<close>, the first of which is stored at \<open>off\<close>.\<close>

fun central :: "zentry list \<Rightarrow> nat \<Rightarrow> u8 list" where
  "central [] off = []"
| "central (e # es) off = central_entry e off @ central es (off + length (local_entry e))"

definition er_bytes :: "nat \<Rightarrow> nat \<Rightarrow> nat \<Rightarrow> u8 list" where
  "er_bytes n sz off = [0x50, 0x4b, 5, 6, 0, 0, 0, 0] @ le16 n @ le16 n @ le32 sz @ le32 off @ [0, 0]"

definition zip_image :: "zentry list \<Rightarrow> u8 list" where
  "zip_image es = locals es @ central es 0 @
     er_bytes (length es) (length (central es 0)) (length (locals es))"

definition entry_ok :: "zentry \<Rightarrow> bool" where
  "entry_ok e \<longleftrightarrow> length (zname e) \<le> 255 \<and> 0 \<notin> set (zname e) \<and>
     length (zpayload e) < 2 ^ 32 \<and> length (zdata e) < 2 ^ 32 \<and>
     (zmethod e = 0 \<and> zpayload e = zdata e \<or> zmethod e = 8)"

subsection \<open>Fields of the layout as they are read back\<close>

lemma length_le [simp]: "length (le16 n) = 2" "length (le32 n) = 4"
  by (simp_all add: le16_def le32_def)

lemma length_headers [simp]:
  "length (lfh_bytes e) = 30" "length (gfh_bytes e off) = 46" "length (er_bytes n s k) = 22"
  by (simp_all add: lfh_bytes_def gfh_bytes_def er_bytes_def)

lemma get_le16_eq:
  "m a = of_nat n \<Longrightarrow> m (a + 1) = of_nat (drop_bit 8 n) \<Longrightarrow> LE16 (get_be16 m a) = of_nat n"
  unfolding LE16_get_be16 get_le16_def
  by (rule bit_word_eqI)
     (auto simp: bit_or_iff bit_push_bit_iff bit_ucast_iff bit_of_nat_iff bit_drop_bit_eq)

lemma get_le32_eq:
  assumes "m a = of_nat n" "m (a + 1) = of_nat (drop_bit 8 n)" "m (a + 2) = of_nat (drop_bit 16 n)"
    "m (a + 3) = of_nat (drop_bit 24 n)"
  shows "LE32 (get_be32 m a) = of_nat n"
  unfolding LE32_get_be32
proof (rule bit_word_eqI)
  fix k assume "k < LENGTH(32)"
  then consider "k < 8" | "8 \<le> k" "k < 16" | "16 \<le> k" "k < 24" | "24 \<le> k" "k < 32" by force
  then show "bit (get_le32 m a) k \<longleftrightarrow> bit (of_nat n :: u32) k"
    by cases (use assms in \<open>auto simp: get_le32_def bit_or_iff bit_push_bit_iff bit_ucast_iff bit_of_nat_iff bit_drop_bit_eq\<close>)
qed

lemma bytes_nth: "bytes m a n = xs \<Longrightarrow> i < n \<Longrightarrow> m (a + of_nat i) = xs ! i"
  by (metis nth_bytes)

lemma image_part:
  assumes "bytes m a (length (pre @ mid @ suf)) = pre @ mid @ suf"
  shows "bytes m (a + of_nat (length pre)) (length mid) = mid"
  using assms by (simp add: bytes_add)

lemma lfh_read:
  assumes "bytes m a 30 = lfh_bytes e"
  shows "lfh_signature (lfh_at m a) = 0x504B0304" "LE16 (lfh_compressionMethod (lfh_at m a)) = of_nat (zmethod e)"
    "LE16 (lfh_fileNameLength (lfh_at m a)) = of_nat (length (zname e))" "LE16 (lfh_extraFieldLength (lfh_at m a)) = 0"
proof -
  have r: "m (a + of_nat i) = lfh_bytes e ! i" if "i < 30" for i using bytes_nth [OF assms that] .
  note r0 = r [of 0] r [of 1] r [of 2] r [of 3] and r1 = r [of 8] r [of 9] r [of 26] r [of 27] r [of 28] r [of 29]
  show "lfh_signature (lfh_at m a) = 0x504B0304"
    using r0 by (simp add: lfh_at_def get_be32_def lfh_bytes_def)
  show "LE16 (lfh_compressionMethod (lfh_at m a)) = of_nat (zmethod e)"
    using r1 by (simp add: lfh_at_def get_le16_eq lfh_bytes_def le16_def le32_def add.assoc)
  show "LE16 (lfh_fileNameLength (lfh_at m a)) = of_nat (length (zname e))"
    using r1 by (simp add: lfh_at_def get_le16_eq lfh_bytes_def le16_def le32_def add.assoc)
  show "LE16 (lfh_extraFieldLength (lfh_at m a)) = 0"
    using r1 by (simp add: lfh_at_def get_le16_eq [where n = 0, simplified] lfh_bytes_def le16_def le32_def add.assoc)
qed

lemma gfh_read:
  assumes "bytes m a 46 = gfh_bytes e off"
  shows "gfh_signature (gfh_at m a) = 0x504B0102"
    "LE32 (gfh_compressedSize (gfh_at m a)) = of_nat (length (zpayload e))"
    "LE32 (gfh_uncompressedSize (gfh_at m a)) = of_nat (length (zdata e))"
    "LE16 (gfh_fileNameLength (gfh_at m a)) = of_nat (length (zname e))" "LE16 (gfh_extraFieldLength (gfh_at m a)) = 0"
    "LE32 (gfh_relativeOffsetOflocalHeader (gfh_at m a)) = of_nat off"
proof -
  have r: "m (a + of_nat i) = gfh_bytes e off ! i" if "i < 46" for i using bytes_nth [OF assms that] .
  note r0 = r [of 0] r [of 1] r [of 2] r [of 3] and r1 = r [of 28] r [of 29] r [of 30] r [of 31]
    and r2 = r [of 20] r [of 21] r [of 22] r [of 23] and r3 = r [of 24] r [of 25] r [of 26] r [of 27]
    and r4 = r [of 42] r [of 43] r [of 44] r [of 45]
  show "gfh_signature (gfh_at m a) = 0x504B0102"
    using r0 by (simp add: gfh_at_def get_be32_def gfh_bytes_def)
  show "LE32 (gfh_compressedSize (gfh_at m a)) = of_nat (length (zpayload e))"
    using r2 by (simp add: gfh_at_def get_le32_eq gfh_bytes_def le16_def le32_def add.assoc)
  show "LE32 (gfh_uncompressedSize (gfh_at m a)) = of_nat (length (zdata e))"
    using r3 by (simp add: gfh_at_def get_le32_eq gfh_bytes_def le16_def le32_def add.assoc)
  show "LE16 (gfh_fileNameLength (gfh_at m a)) = of_nat (length (zname e))"
    using r1 by (simp add: gfh_at_def get_le16_eq gfh_bytes_def le16_def le32_def add.assoc)
  show "LE16 (gfh_extraFieldLength (gfh_at m a)) = 0"
    using r1 by (simp add: gfh_at_def get_le16_eq [where n = 0, simplified] gfh_bytes_def le16_def le32_def add.assoc)
  show "LE32 (gfh_relativeOffsetOflocalHeader (gfh_at m a)) = of_nat off"
    using r4 by (simp add: gfh_at_def get_le32_eq gfh_bytes_def le16_def le32_def add.assoc)
qed

lemma er_read:
  assumes "bytes m a 22 = er_bytes n sz off"
  shows "er_signature (er_at m a) = 0x504B0506" "single_disk (er_at m a)"
    "LE16 (er_numEntries (er_at m a)) = of_nat n" "LE32 (er_centralDirectoryOffset (er_at m a)) = of_nat off"
proof -
  have r: "m (a + of_nat i) = er_bytes n sz off ! i" if "i < 22" for i using bytes_nth [OF assms that] .
  note r0 = r [of 0] r [of 1] r [of 2] r [of 3] and r1 = r [of 4] r [of 5] r [of 6] r [of 7]
    and r2 = r [of 8] r [of 9] r [of 10] r [of 11] and r3 = r [of 16] r [of 17] r [of 18] r [of 19]
  show "er_signature (er_at m a) = 0x504B0506"
    using r0 by (simp add: er_at_def get_be32_def er_bytes_def)
  show "single_disk (er_at m a)"
    using r1 r2 by (simp add: single_disk_def er_at_def get_be16_def er_bytes_def le16_def add.assoc)
  show "LE16 (er_numEntries (er_at m a)) = of_nat n"
    using r2 by (simp add: er_at_def get_le16_eq er_bytes_def le16_def le32_def add.assoc)
  show "LE32 (er_centralDirectoryOffset (er_at m a)) = of_nat off"
    using r3 by (simp add: er_at_def get_le32_eq er_bytes_def le16_def le32_def add.assoc)
qed

subsection \<open>Walking the directory of an archive in memory\<close>

text \<open>\<open>archive m a es\<close>: the image of \<open>es\<close> lies at address \<open>a\<close>, inside the address space.\<close>

definition archive :: "mem \<Rightarrow> u32 \<Rightarrow> zentry list \<Rightarrow> bool" where
  "archive m a es \<longleftrightarrow> bytes m a (length (zip_image es)) = zip_image es \<and> a \<noteq> 0 \<and>
     unat a + length (zip_image es) \<le> 2 ^ 32 \<and> length (zip_image es) < 2 ^ 31 \<and>
     length es < 2 ^ 16 \<and> list_all entry_ok es"

definition gfh_off :: "zentry list \<Rightarrow> nat \<Rightarrow> nat" where
  "gfh_off es k = length (locals es) + length (central (take k es) 0)"

definition opened :: "u32 \<Rightarrow> zentry list \<Rightarrow> zip_t" where
  "opened a es = \<lparr>z_data = a, z_len = of_nat (length (zip_image es)),
     z_er = a + of_nat (length (zip_image es) - 22), z_gfh = 0\<rparr>"

text \<open>The structure after \<open>k\<close> successful \<open>zip_readdir()\<close>s.\<close>

definition dir_at :: "u32 \<Rightarrow> zentry list \<Rightarrow> nat \<Rightarrow> zip_t" where
  "dir_at a es k = (opened a es)\<lparr>z_gfh := (case k of 0 \<Rightarrow> 0 | Suc j \<Rightarrow> a + of_nat (gfh_off es j))\<rparr>"

lemma locals_append: "locals (xs @ ys) = locals xs @ locals ys"
  by (simp add: locals_def)

lemma central_append: "central (xs @ ys) off = central xs off @ central ys (off + length (locals xs))"
  by (induction xs arbitrary: off) (simp_all add: locals_def add.assoc)

lemma split_at: "k < length es \<Longrightarrow> es = take k es @ es ! k # drop (Suc k) es"
  by (simp add: id_take_nth_drop)

lemma archive_er: "archive m a es \<Longrightarrow>
  bytes m (a + of_nat (length (zip_image es) - 22)) 22 = er_bytes (length es) (length (central es 0)) (length (locals es))"
  using image_part [of m a "locals es @ central es 0" "er_bytes (length es) (length (central es 0)) (length (locals es))" "[]"]
  by (simp add: archive_def zip_image_def)

lemma archive_entry:
  assumes "archive m a es" "k < length es"
  shows "entry_ok (es ! k)" "length (zname (es ! k)) \<le> 255"
  using assms by (auto simp: archive_def entry_ok_def list_all_iff)

lemma archive_gfh:
  assumes "archive m a es" "k < length es"
  shows "bytes m (a + of_nat (gfh_off es k)) 46 = gfh_bytes (es ! k) (length (locals (take k es)))"
    "bytes m (a + of_nat (gfh_off es k) + 46) (length (zname (es ! k))) = zname (es ! k)"
    "gfh_off es k + 46 + length (zname (es ! k)) + 22 \<le> length (zip_image es)"
    "gfh_off es (Suc k) = gfh_off es k + 46 + length (zname (es ! k))"
proof -
  let ?g = "gfh_bytes (es ! k) (length (locals (take k es)))" and ?n = "zname (es ! k)"
  let ?rest = "central (drop (Suc k) es) (length (locals (take k es)) + length (local_entry (es ! k)))
    @ er_bytes (length es) (length (central es 0)) (length (locals es))"
  have "central es 0 = central (take k es) 0 @ (?g @ ?n) @
      central (drop (Suc k) es) (length (locals (take k es)) + length (local_entry (es ! k)))"
    by (subst split_at [OF assms(2)]) (simp only: central_append, simp add: central_entry_def)
  then have img: "zip_image es = (locals es @ central (take k es) 0) @ ?g @ ?n @ ?rest"
    by (simp add: zip_image_def)
  have b: "bytes m a (length (zip_image es)) = zip_image es" using assms(1) by (simp add: archive_def)
  show "bytes m (a + of_nat (gfh_off es k)) 46 = ?g"
    using image_part [of m a "locals es @ central (take k es) 0" ?g "?n @ ?rest"] b unfolding img
    by (simp add: gfh_off_def)
  show "bytes m (a + of_nat (gfh_off es k) + 46) (length ?n) = ?n"
    using image_part [of m a "(locals es @ central (take k es) 0) @ ?g" ?n ?rest] b unfolding img
    by (simp add: gfh_off_def ac_simps)
  show "gfh_off es k + 46 + length ?n + 22 \<le> length (zip_image es)"
    unfolding img by (simp add: gfh_off_def)
  show "gfh_off es (Suc k) = gfh_off es k + 46 + length ?n"
    using assms(2) by (simp add: gfh_off_def take_Suc_conv_app_nth central_append central_entry_def)
qed

lemma opened_er_nz: "archive m a es \<Longrightarrow> no_wrap (opened a es)"
proof -
  assume ar: "archive m a es"
  have len: "22 \<le> length (zip_image es)" by (simp add: zip_image_def)
  then have "a + of_nat (length (zip_image es) - 22) \<noteq> 0"
    using ar by (intro addr_nz) (auto simp: archive_def)
  then show ?thesis using ar by (simp add: no_wrap_def opened_def archive_def unat_of_nat32)
qed

lemma readdir_step:
  assumes "archive m a es" "k < length es"
  shows "zip_readdir m (dir_at a es k) = (Z_OK, dir_at a es (Suc k))"
proof -
  let ?n = "length (zip_image es)"
  have n: "?n < 2 ^ 31" and nz: "z_er (opened a es) \<noteq> 0"
    using assms(1) opened_er_nz [OF assms(1)] by (simp_all add: archive_def no_wrap_def)
  have sig: "gfh_signature (gfh_at m (a + of_nat (gfh_off es k))) = 0x504B0102"
    using gfh_read(1) [OF archive_gfh(1) [OF assms]] .
  have less: "of_nat (gfh_off es k) < (of_nat ?n :: u32)"
    using archive_gfh(3) [OF assms] n by (simp add: word_less_nat_alt unat_of_nat32)
  show ?thesis
  proof (cases k)
    case 0
    then have "LE32 (er_centralDirectoryOffset (er_at m (z_er (opened a es)))) = of_nat (gfh_off es k)"
      using er_read(4) [OF archive_er [OF assms(1)]] by (simp add: opened_def gfh_off_def)
    then show ?thesis
      using sig less nz 0 by (simp add: zip_readdir_def dir_at_def opened_def Let_def)
  next
    case (Suc j)
    then have j: "j < length es" using assms(2) by simp
    have nm: "length (zname (es ! j)) \<le> 255"
      using archive_entry(2) [OF assms(1) j] .
    have gnz: "a + of_nat (gfh_off es j) \<noteq> 0"
      using assms(1) archive_gfh(3) [OF assms(1) j] by (intro addr_nz) (auto simp: archive_def)
    have l: "ucast (of_nat (length (zname (es ! j))) :: u16) = (of_nat (length (zname (es ! j))) :: u32)"
      using nm by (intro ucast16_of_nat) simp
    have "of_nat (gfh_off es j) + 46 + ucast (of_nat (length (zname (es ! j))) :: u16) = (of_nat (gfh_off es k) :: u32)"
      unfolding l Suc archive_gfh(4) [OF assms(1) j] by (simp add: add.assoc)
    then show ?thesis
      using sig less nz Suc gnz gfh_read(4,5) [OF archive_gfh(1) [OF assms(1) j]]
      by (simp add: zip_readdir_def dir_at_def opened_def Let_def)
  qed
qed

lemma dir_from_archive:
  assumes "archive m a es" "k + n \<le> length es"
  shows "dir_from m n (dir_at a es k) = map (dir_at a es) [Suc k..<Suc (k + n)]"
  using assms(2)
proof (induction n arbitrary: k)
  case (Suc n)
  then have "zip_readdir m (dir_at a es k) = (Z_OK, dir_at a es (Suc k))"
    by (intro readdir_step assms(1)) simp
  moreover have "[Suc k..<Suc (k + Suc n)] = Suc k # [Suc (Suc k)..<Suc (Suc k + n)]"
    by (simp add: upt_rec)
  ultimately show ?case using Suc by simp
qed simp

lemma entry_name_archive:
  assumes "archive m a es" "k < length es"
  shows "entry_name m (dir_at a es (Suc k)) = zname (es ! k)"
proof -
  have "length (zname (es ! k)) < 2 ^ 16"
    using archive_entry(2) [OF assms] by simp
  then show ?thesis
    using archive_gfh(2) [OF assms] gfh_read(4) [OF archive_gfh(1) [OF assms]]
    by (simp add: entry_name_def zip_file_fileNameLength_def dir_at_def ucast16_of_nat unat_of_nat32)
qed

lemma archive_names:
  assumes "archive m a es"
  shows "takeWhile (\<lambda>e. length (entry_name m e) \<le> 255) (zip_entries m (opened a es)) = map (dir_at a es) [1..<Suc (length es)]"
    "1 \<le> j \<Longrightarrow> j \<le> length es \<Longrightarrow> entry_name m (dir_at a es j) = zname (es ! (j - 1))"
proof -
  let ?z = "opened a es"
  have cnt: "unat (zip_numEntries m ?z) = length es"
    using er_read(3) [OF archive_er [OF assms]] assms
    by (simp add: zip_numEntries_def opened_def archive_def ucast16_of_nat unat_of_nat32)
  have z0: "?z\<lparr>z_gfh := 0\<rparr> = dir_at a es 0" by (simp add: dir_at_def)
  have dir: "zip_entries m ?z = map (dir_at a es) [1..<Suc (length es)]"
    unfolding zip_entries_def cnt z0 using dir_from_archive [OF assms, of 0 "length es"] by simp
  show nm: "entry_name m (dir_at a es j) = zname (es ! (j - 1))" if "1 \<le> j" "j \<le> length es" for j
    using entry_name_archive [OF assms, of "j - 1"] that by simp
  show "takeWhile (\<lambda>e. length (entry_name m e) \<le> 255) (zip_entries m ?z) = map (dir_at a es) [1..<Suc (length es)]"
    unfolding dir using assms nm by (intro takeWhile_eq_all_conv [THEN iffD2]) (auto simp: archive_def entry_ok_def list_all_iff)
qed

lemma find_archive:
  assumes "archive m a es" "k < length es" "cstring name (zname (es ! k))"
    and "\<And>j. j < k \<Longrightarrow> zname (es ! j) \<noteq> zname (es ! k)"
  shows "zip_file_find m (opened a es) name = Some (Z_OK, dir_at a es (Suc k))"
proof -
  note nm = archive_names [OF assms(1)]
  have len: "length (zname (es ! k)) < 2 ^ 32" using archive_entry(2) [OF assms(1,2)] by simp
  have "find (\<lambda>e. entry_name m e = zname (es ! k)) (map (dir_at a es) [1..<Suc (length es)]) = Some (dir_at a es (Suc k))"
    unfolding find_Some_iff
    using assms(2,4) nm(2) by (intro exI [of _ k]) (simp add: nth_upt del: upt_Suc)
  then show ?thesis
    using find_run_spec [OF assms(3) len opened_er_nz [OF assms(1)], of m] by (simp add: nm(1) del: upt_Suc One_nat_def)
qed

lemma find_missing:
  assumes "archive m a es" "cstring name xs" "length xs < 2 ^ 32" "xs \<notin> zname ` set es"
  shows "\<exists>z. zip_file_find m (opened a es) name = Some (Z_ERROR, z)"
proof -
  note nm = archive_names [OF assms(1)]
  have "find (\<lambda>e. entry_name m e = xs) (map (dir_at a es) [1..<Suc (length es)]) = None"
    unfolding find_None_iff using assms(4) nm(2) by auto
  then show ?thesis
    using find_run_spec [OF assms(2,3) opened_er_nz [OF assms(1)], of m] by (simp add: nm(1) del: upt_Suc One_nat_def)
qed

lemma open_archive:
  assumes "archive m a es" "es \<noteq> []"
  shows "zip_openBuffer m z a (of_nat (length (zip_image es))) = (Z_OK, opened a es)"
proof -
  let ?n = "length (zip_image es)"
  have n: "?n < 2 ^ 31" "22 < ?n"
    using assms archive_gfh(3) [OF assms(1), of 0] by (auto simp: archive_def)
  have er: "er_signature (er_at m (a + of_nat (?n - 22))) = 0x504B0506" "single_disk (er_at m (a + of_nat (?n - 22)))"
    using er_read [OF archive_er [OF assms(1)]] by blast+
  have "last_er m a (of_nat ?n) (?n - 22)"
    using n er(1) by (auto simp: last_er_def unat_of_nat32 er_sig_def er_at_def)
  from zip_openBuffer_ok [OF _ _ this er(2)] show ?thesis
    using n by (simp add: unat_of_nat32 opened_def)
qed

lemma archive_lfh:
  assumes "archive m a es" "k < length es"
  defines "lfh \<equiv> a + of_nat (length (locals (take k es)))"
  shows "bytes m lfh 30 = lfh_bytes (es ! k)"
    "bytes m (lfh + 30 + of_nat (length (zname (es ! k)))) (length (zpayload (es ! k))) = zpayload (es ! k)"
    "region (lfh + 30 + of_nat (length (zname (es ! k)))) (length (zpayload (es ! k))) \<subseteq> region a (length (zip_image es))"
proof -
  let ?h = "lfh_bytes (es ! k)" and ?n = "zname (es ! k)" and ?p = "zpayload (es ! k)"
  let ?rest = "locals (drop (Suc k) es) @ central es 0 @
      er_bytes (length es) (length (central es 0)) (length (locals es))"
  have "locals es = locals (take k es) @ (?h @ ?n @ ?p) @ locals (drop (Suc k) es)"
    by (subst split_at [OF assms(2)]) (simp only: locals_append, simp add: locals_def local_entry_def)
  then have img: "zip_image es = locals (take k es) @ ?h @ ?n @ ?p @ ?rest"
    by (simp add: zip_image_def)
  have b: "bytes m a (length (zip_image es)) = zip_image es" using assms(1) by (simp add: archive_def)
  show "bytes m lfh 30 = ?h"
    using image_part [of m a "locals (take k es)" ?h "?n @ ?p @ ?rest"] b unfolding img by (simp add: lfh_def)
  show "bytes m (lfh + 30 + of_nat (length ?n)) (length ?p) = ?p"
    using image_part [of m a "locals (take k es) @ ?h @ ?n" ?p ?rest] b unfolding img
    by (simp add: lfh_def ac_simps)
  have "region (a + of_nat (length (locals (take k es) @ ?h @ ?n))) (length ?p) \<subseteq> region a (length (zip_image es))"
    unfolding img by (rule subset_trans [OF region_shift region_mono]) simp
  then show "region (lfh + 30 + of_nat (length ?n)) (length ?p) \<subseteq> region a (length (zip_image es))"
    by (simp add: lfh_def ac_simps)
qed

lemma archive_payload_length:
  assumes "archive m a es" "k < length es"
  shows "length (zpayload (es ! k)) \<le> length (zip_image es)"
proof -
  have "length (local_entry (es ! k)) \<le> length (locals es)"
    by (subst split_at [OF assms(2)]) (simp only: locals_append length_append, simp add: locals_def)
  then show ?thesis by (simp add: local_entry_def zip_image_def)
qed

lemma extract_archive:
  assumes "archive (mem w) a es" "k < length es" "buffer \<noteq> 0"
  shows "\<exists>src. bytes (mem w) src (length (zpayload (es ! k))) = zpayload (es ! k) \<and>
    region src (length (zpayload (es ! k))) \<subseteq> region a (length (zip_image es)) \<and>
    zip_file_extract w (dir_at a es (Suc k)) buffer =
      (if zmethod (es ! k) = 0
       then (Inr Z_OK, w\<lparr>mem := memcpy (mem w) buffer src (length (zdata (es ! k)))\<rparr>)
       else case puff w buffer (of_nat (length (zdata (es ! k)))) src (of_nat (length (zpayload (es ! k)))) of
              (Inl e, w) \<Rightarrow> (Inl e, w)
            | (Inr (err, _, _), w) \<Rightarrow> (Inr (if err \<noteq> 0 then Z_ERROR else Z_OK), w))"
proof -
  let ?e = "es ! k" and ?g = "a + of_nat (gfh_off es k)"
  let ?lfh = "a + of_nat (length (locals (take k es)))"
  let ?src = "?lfh + 30 + of_nat (length (zname ?e))"
  note e = archive_entry [OF assms(1,2)]
  have gnz: "?g \<noteq> 0"
    using assms(1) archive_gfh(3) [OF assms(1,2)] by (intro addr_nz) (auto simp: archive_def)
  have nm: "ucast (of_nat (length (zname ?e)) :: u16) = (of_nat (length (zname ?e)) :: u32)"
    using e(2) by (intro ucast16_of_nat) simp
  note g = gfh_read [OF archive_gfh(1) [OF assms(1,2)]] and l = lfh_read [OF archive_lfh(1) [OF assms(1,2)]]
  have z: "z_gfh (dir_at a es (Suc k)) = ?g" "z_data (dir_at a es (Suc k)) = a"
    by (simp_all add: dir_at_def opened_def)
  have same: "gfh_compressedSize (gfh_at (mem w) ?g) = gfh_uncompressedSize (gfh_at (mem w) ?g)" if "zmethod ?e = 0"
  proof -
    have "zpayload ?e = zdata ?e" using that e(1) by (auto simp: entry_ok_def)
    then have "LE32 (gfh_compressedSize (gfh_at (mem w) ?g)) = LE32 (gfh_uncompressedSize (gfh_at (mem w) ?g))"
      by (simp add: g)
    then show ?thesis by (rule LE32_inj)
  qed
  have u: "unat (of_nat (length (zdata ?e)) :: u32) = length (zdata ?e)"
    using e(1) by (intro unat_of_nat32) (auto simp: entry_ok_def)
  consider "zmethod ?e = 0" | "zmethod ?e = 8" using e(1) by (auto simp: entry_ok_def)
  then have "zip_file_extract w (dir_at a es (Suc k)) buffer =
      (if zmethod ?e = 0
       then (Inr Z_OK, w\<lparr>mem := memcpy (mem w) buffer ?src (length (zdata ?e))\<rparr>)
       else case puff w buffer (of_nat (length (zdata ?e))) ?src (of_nat (length (zpayload ?e))) of
              (Inl e, w) \<Rightarrow> (Inl e, w)
            | (Inr (err, _, _), w) \<Rightarrow> (Inr (if err \<noteq> 0 then Z_ERROR else Z_OK), w))"
    using gnz assms(3) same
    by cases (simp_all add: zip_file_extract_def Let_def z l g nm u)
  then show ?thesis using archive_lfh(2,3) [OF assms(1,2)] by blast
qed

text \<open>The contents of an entry are stored, or deflated in any way the format allows.\<close>

definition deflated :: "u8 list \<Rightarrow> u8 list \<Rightarrow> bool" where
  "deflated xs ys \<longleftrightarrow> (\<exists>bs rest. bs \<noteq> [] \<and> wf_blocks 0 bs \<and> bits_of xs = deflate_bits bs @ rest \<and> inflate_bytes bs [] = Some ys)"

lemma puff_deflated:
  assumes "deflated (bytes (mem w) src n) ys" "n \<le> 2 ^ 32 - 2 ^ 16" "length ys \<le> 2 ^ 32 - 2 ^ 16" "statics_ok w" "dest \<noteq> 0"
    "region src n \<inter> region dest (length ys) = {}"
  shows "\<exists>k w'. puff w dest (of_nat (length ys)) src (of_nat n) = (Inr (0, of_nat (length ys), k), w') \<and>
    bytes (mem w') dest (length ys) = ys \<and> (\<forall>x. x \<notin> region dest (length ys) \<longrightarrow> mem w' x = mem w x) \<and> statics_ok w'"
proof -
  have u: "unat (of_nat (length ys) :: u32) = length ys" "unat (of_nat n :: u32) = n"
    using assms(2,3) by (simp_all add: unat_of_nat32)
  have s: "size_ok (of_nat n)" "size_ok (of_nat (length ys))" using assms(2,3) u by (simp_all add: size_ok_def)
  obtain bs rest where b: "bs \<noteq> []" "wf_blocks 0 bs" "bits_of (bytes (mem w) src n) = deflate_bits bs @ rest" "inflate_bytes bs [] = Some ys"
    using assms(1) by (auto simp: deflated_def)
  obtain k w' where run: "puff w dest (of_nat (length ys)) src (of_nat n) = (Inr (0, of_nat (length ys), k), w')" "bytes (mem w') dest (length ys) = ys"
    using puff_inflate_run [OF s assms(4,5) _ b(1,2) _ b(4), of src rest] u assms(6) b(3) by auto
  moreover have "\<forall>x. x \<notin> region dest (length ys) \<longrightarrow> mem w' x = mem w x" "statics_ok w'"
    using puff_run_safe [of "of_nat n" dest "of_nat (length ys)" w src] s assms(4,5) run(1) u(1) by (auto simp: out_area_def)
  ultimately show ?thesis by blast
qed

lemma extract_contents:
  assumes "archive (mem w) a es" "k < length es" "buffer \<noteq> 0" "statics_ok w" "length (zdata (es ! k)) \<le> 2 ^ 32 - 2 ^ 16"
    and "zmethod (es ! k) = 8 \<Longrightarrow> deflated (zpayload (es ! k)) (zdata (es ! k))"
    and "apart a (length (zip_image es)) buffer (length (zdata (es ! k)))"
  shows "\<exists>w'. zip_file_extract w (dir_at a es (Suc k)) buffer = (Inr Z_OK, w') \<and>
    bytes (mem w') buffer (length (zdata (es ! k))) = zdata (es ! k) \<and>
    (\<forall>x. x \<notin> region buffer (length (zdata (es ! k))) \<longrightarrow> mem w' x = mem w x) \<and> statics_ok w'"
proof -
  let ?e = "es ! k"
  have e: "zmethod ?e = 0 \<and> zpayload ?e = zdata ?e \<or> zmethod ?e = 8" "length (zdata ?e) \<le> 2 ^ 32" 
    using archive_entry(1) [OF assms(1,2)] by (auto simp: entry_ok_def)
  obtain src where src: "bytes (mem w) src (length (zpayload ?e)) = zpayload ?e"
    "region src (length (zpayload ?e)) \<subseteq> region a (length (zip_image es))"
    "zip_file_extract w (dir_at a es (Suc k)) buffer =
      (if zmethod ?e = 0 then (Inr Z_OK, w\<lparr>mem := memcpy (mem w) buffer src (length (zdata ?e))\<rparr>)
       else case puff w buffer (of_nat (length (zdata ?e))) src (of_nat (length (zpayload ?e))) of
              (Inl e, w) \<Rightarrow> (Inl e, w)
            | (Inr (err, _, _), w) \<Rightarrow> (Inr (if err \<noteq> 0 then Z_ERROR else Z_OK), w))"
    using extract_archive [OF assms(1-3)] by blast
  show ?thesis
  proof (cases "zmethod ?e = 0")
    case True
    then have "zpayload ?e = zdata ?e" using e(1) by auto
    then show ?thesis
      using True src bytes_memcpy [OF e(2), of "mem w" buffer src] memcpy_frame assms(4) by (auto simp: statics_ok_def)
  next
    case False
    have "length (zpayload ?e) \<le> length (zip_image es)"
      using archive_payload_length [OF assms(1,2)] .
    then have n: "length (zpayload ?e) \<le> 2 ^ 32 - 2 ^ 16" using assms(1) by (simp add: archive_def)
    have d: "deflated (bytes (mem w) src (length (zpayload ?e))) (zdata ?e)" using False e(1) assms(6) src(1) by simp
    have "region src (length (zpayload ?e)) \<inter> region buffer (length (zdata ?e)) = {}"
      using src(2) assms(7) by (auto simp: apart_def)
    then show ?thesis using puff_deflated [OF d n assms(5,4,3)] src(3) False by auto
  qed
qed

text \<open>
  C14. The round trip: an archive of stored and deflated files, laid out in memory as a packer writes
  it, opens; \<open>zip_file_find()\<close> finds the first file of each name; \<open>zip_file_uncompressedSize()\<close> is
  its size; and \<open>zip_file_extract()\<close> puts exactly its contents into a buffer outside the archive
  and changes nothing else.
\<close>

theorem zip_roundtrip:
  assumes "archive (mem w) a es" "k < length es" "cstring name (zname (es ! k))"
    and "zmethod (es ! k) = 8 \<Longrightarrow> deflated (zpayload (es ! k)) (zdata (es ! k))"
    and "\<And>j. j < k \<Longrightarrow> zname (es ! j) \<noteq> zname (es ! k)" "buffer \<noteq> 0" "length (zdata (es ! k)) \<le> 2 ^ 32 - 2 ^ 16"
    and "apart a (length (zip_image es)) buffer (length (zdata (es ! k)))" "statics_ok w"
  shows "\<exists>z1 z2 w'. zip_openBuffer (mem w) z a (of_nat (length (zip_image es))) = (Z_OK, z1) \<and>
    zip_file_find (mem w) z1 name = Some (Z_OK, z2) \<and>
    zip_file_uncompressedSize (mem w) z2 = of_nat (length (zdata (es ! k))) \<and>
    zip_file_extract w z2 buffer = (Inr Z_OK, w') \<and>
    bytes (mem w') buffer (length (zdata (es ! k))) = zdata (es ! k) \<and>
    (\<forall>x. x \<notin> region buffer (length (zdata (es ! k))) \<longrightarrow> mem w' x = mem w x)"
proof -
  have "zip_file_uncompressedSize (mem w) (dir_at a es (Suc k)) = of_nat (length (zdata (es ! k)))"
    using gfh_read(3) [OF archive_gfh(1) [OF assms(1,2)]] by (simp add: zip_file_uncompressedSize_def dir_at_def)
  moreover have "es \<noteq> []" using assms(2) by auto
  ultimately show ?thesis
    using open_archive [OF assms(1)] find_archive [OF assms(1-3,5)] extract_contents [OF assms(1,2,6,9,7,4,8)]
    by auto
qed

definition sample_files :: "zentry list" where
  "sample_files =
     [\<lparr>zname = [65, 46], zmethod = 0, zpayload = [7, 8, 9], zdata = [7, 8, 9], zcrc = 1\<rparr>,
      \<lparr>zname = [66], zmethod = 8, zpayload = example_deflated, zdata = [72, 105, 97, 97, 97, 97], zcrc = 2\<rparr>]"

definition sample_world :: world where
  "sample_world = \<lparr>mem = store_bytes (\<lambda>_. 0) 0x1000 (zip_image sample_files), fx = fixed_init, stk = (\<lambda>_. 0)\<rparr>"

lemma archive_store:
  assumes "a \<noteq> 0" "unat a + length (zip_image es) \<le> 2 ^ 32" "length (zip_image es) < 2 ^ 31"
    "length es < 2 ^ 16" "list_all entry_ok es"
  shows "archive (store_bytes m a (zip_image es)) a es"
  using assms bytes_store_bytes [of "zip_image es" m a] by (simp add: archive_def)

lemma sample_deflated: "deflated example_deflated [72, 105, 97, 97, 97, 97]"
  unfolding deflated_def using example_bits example_blocks_wf example_inflates
  by (intro exI [of _ example_blocks] exI [of _ "[False, False, False]"]) (simp add: example_blocks_def)

theorem zip_roundtrip_witness:
  "\<exists>z1 z2 w'. zip_openBuffer (mem sample_world) \<lparr>z_data = 0, z_len = 0, z_er = 0, z_gfh = 0\<rparr> 0x1000
      (of_nat (length (zip_image sample_files))) = (Z_OK, z1) \<and>
    zip_file_find (mem sample_world) z1 (lit ''B'') = Some (Z_OK, z2) \<and>
    zip_file_uncompressedSize (mem sample_world) z2 = 6 \<and>
    zip_file_extract sample_world z2 0x8000 = (Inr Z_OK, w') \<and> bytes (mem w') 0x8000 6 = [72, 105, 97, 97, 97, 97] \<and>
    (\<forall>x. x \<notin> region 0x8000 6 \<longrightarrow> mem w' x = mem sample_world x)"
proof -
  have len: "length (zip_image sample_files) = 206"
    by (simp add: zip_image_def sample_files_def locals_def local_entry_def central_entry_def example_deflated_def)
  have ok: "list_all entry_ok sample_files" by (simp add: sample_files_def entry_ok_def example_deflated_def)
  have "archive (mem sample_world) 0x1000 sample_files"
    unfolding sample_world_def world.simps
    by (rule archive_store) (use len ok in \<open>simp_all add: sample_files_def\<close>)
  moreover have "cstring (lit ''B'') (zname (sample_files ! 1))"
    using cstring_lit [of "''B''"] by (simp add: sample_files_def chars_def char_byte_def)
  moreover have "apart 0x1000 (length (zip_image sample_files)) 0x8000 6"
    by (rule apart_unat) (simp_all add: len)
  moreover have "statics_ok sample_world" by (simp add: sample_world_def statics_ok_def fixed_init_def)
  moreover have six: "Suc (Suc (Suc (Suc (Suc (Suc 0))))) = 6" by simp
  ultimately show ?thesis
    using zip_roundtrip [of sample_world "0x1000" sample_files 1 "lit ''B''" "0x8000"
        "\<lparr>z_data = 0, z_len = 0, z_er = 0, z_gfh = 0\<rparr>"] sample_deflated
    by (simp add: sample_files_def six)
qed

end
