(* ===== verification/AosList.thy ===== *)
theory AosList
  imports Prelude
begin

text \<open>
  The AmigaOS list of \<open>include/aoslist.h\<close>. A list header holds \<open>l_head\<close>, \<open>l_tail\<close> and
  \<open>l_tailpred\<close>; with a node's \<open>n_succ\<close>, \<open>n_pred\<close> laid over it twice, it is also a node before
  the first and a node behind the last one. The theory models the two operations on memory and
  shows that they implement a sequence of nodes: \<open>alist m l ns\<close> says that the list at \<open>l\<close> in
  memory \<open>m\<close> links the nodes \<open>ns\<close>, in both directions.
\<close>

subsection \<open>The operations\<close>

definition alist_init :: "mem \<Rightarrow> u32 \<Rightarrow> mem" where
  "alist_init m l = put_be32 (put_be32 (put_be32 m l (l + 4)) (l + 4) 0) (l + 8) l"

definition alist_add_tail :: "mem \<Rightarrow> u32 \<Rightarrow> u32 \<Rightarrow> mem" where
  "alist_add_tail m l n =
     (let m = put_be32 m n (l + 4);
          m = put_be32 m (n + 4) (get_be32 m (l + 8));
          m = put_be32 m (get_be32 m (l + 8)) n;
          m = put_be32 m (l + 8) n in
      m)"

text \<open>The test for the empty list as \<open>boot_aos.c\<close> writes it: \<open>l->l_head->n_succ == NULL\<close>.\<close>

definition alist_empty :: "mem \<Rightarrow> u32 \<Rightarrow> bool" where
  "alist_empty m l \<longleftrightarrow> get_be32 m (get_be32 m l) = 0"

subsection \<open>The sequence a list represents\<close>

definition linked :: "mem \<Rightarrow> u32 \<Rightarrow> u32 \<Rightarrow> bool" where
  "linked m p q \<longleftrightarrow> get_be32 m p = q \<and> get_be32 m (q + 4) = p"

fun links :: "mem \<Rightarrow> u32 \<Rightarrow> u32 list \<Rightarrow> bool" where
  "links m p [] = True"
| "links m p (n # ns) = (linked m p n \<and> links m n ns)"

definition alist :: "mem \<Rightarrow> u32 \<Rightarrow> u32 list \<Rightarrow> bool" where
  "alist m l ns \<longleftrightarrow> links m l ns \<and> linked m (last (l # ns)) (l + 4) \<and> get_be32 m (l + 4) = 0"

text \<open>The header and the nodes lie apart, and no node lies at address 0.\<close>

definition node_area :: "u32 \<Rightarrow> u32 set" where
  "node_area n = region n 8"

definition layout :: "u32 \<Rightarrow> u32 list \<Rightarrow> bool" where
  "layout l ns \<longleftrightarrow> l + 4 \<noteq> 0 \<and> 0 \<notin> set ns \<and> distinct ns \<and>
     (\<forall>n\<in>set ns. region l 12 \<inter> node_area n = {}) \<and>
     (\<forall>n\<in>set ns. \<forall>k\<in>set ns. n \<noteq> k \<longrightarrow> node_area n \<inter> node_area k = {})"

definition list_area :: "u32 \<Rightarrow> u32 list \<Rightarrow> u32 set" where
  "list_area l ns = region l 12 \<union> \<Union> (node_area ` set ns)"

lemma region_sub: "j + k \<le> n \<Longrightarrow> region (a + of_nat j) k \<subseteq> region a n"
  using region_shift [of a j k] region_mono [of "j + k" n a] by blast

lemma fields_in:
  "region l 4 \<subseteq> region l 12" "region (l + 4) 4 \<subseteq> region l 12" "region (l + 8) 4 \<subseteq> region l 12"
  "region n 4 \<subseteq> node_area n" "region (n + 4) 4 \<subseteq> node_area n"
  using region_sub [of 0 4 12 l] region_sub [of 4 4 12 l] region_sub [of 8 4 12 l]
    region_sub [of 0 4 8 n] region_sub [of 4 4 8 n] by (simp_all add: node_area_def)

lemma apart_fields: "apart a 4 (a + 4) 4" "apart (a + 4) 4 a 4" "apart a 4 (a + 8) 4" "apart (a + 8) 4 a 4"
  "apart (a + 4) 4 (a + 8) 4" "apart (a + 8) 4 (a + 4) 4"
proof -
  have off: "apart b 4 (b + of_nat k) 4" if "4 \<le> k" "k + 4 \<le> 2 ^ 32" for b k
    unfolding apart_def region_def
    using that by (auto simp: add.assoc simp flip: of_nat_add dest!: arg_cong [of "of_nat _" _ unat] simp: unat_of_nat32)
  show "apart a 4 (a + 4) 4" "apart a 4 (a + 8) 4" "apart (a + 4) 4 (a + 8) 4"
    using off [of 4 a] off [of 8 a] off [of 4 "a + 4"] by (simp_all add: add.assoc)
  then show "apart (a + 4) 4 a 4" "apart (a + 8) 4 a 4" "apart (a + 8) 4 (a + 4) 4"
    by (simp_all add: apart_sym)
qed

lemma layout_apart:
  assumes "layout l ns"
  shows "p \<in> set (l # ns) \<Longrightarrow> p' \<in> set (l # ns) \<Longrightarrow> p \<noteq> p' \<Longrightarrow> apart p 4 p' 4"
    "p \<in> set (l # ns) \<Longrightarrow> q \<in> set ns \<Longrightarrow> apart p 4 (q + 4) 4"
    "p \<in> set (l # ns) \<Longrightarrow> apart p 4 (l + 4) 4 \<and> apart p 4 (l + 8) 4"
    "q \<in> set ns \<Longrightarrow> apart (q + 4) 4 (l + 4) 4 \<and> apart (q + 4) 4 (l + 8) 4"
    "q \<in> set ns \<Longrightarrow> q' \<in> set ns \<Longrightarrow> q \<noteq> q' \<Longrightarrow> apart (q + 4) 4 (q' + 4) 4"
proof -
  have hdr: "region l 12 \<inter> node_area n = {}" if "n \<in> set ns" for n using assms that by (simp add: layout_def)
  have nodes: "node_area n \<inter> node_area k = {}" if "n \<in> set ns" "k \<in> set ns" "n \<noteq> k" for n k
    using assms that by (simp add: layout_def)
  note f = fields_in [of l]
  show "p \<in> set (l # ns) \<Longrightarrow> p' \<in> set (l # ns) \<Longrightarrow> p \<noteq> p' \<Longrightarrow> apart p 4 p' 4"
    using hdr nodes f(1) fields_in(4) [of p] fields_in(4) [of p'] unfolding apart_def set_simps by blast
  show "p \<in> set (l # ns) \<Longrightarrow> q \<in> set ns \<Longrightarrow> apart p 4 (q + 4) 4"
    using hdr nodes f(1) fields_in(4) [of p] fields_in(5) [of q] apart_fields(1) [of q]
    unfolding apart_def set_simps by blast
  show "p \<in> set (l # ns) \<Longrightarrow> apart p 4 (l + 4) 4 \<and> apart p 4 (l + 8) 4"
    using hdr f(2,3) fields_in(4) [of p] apart_fields(1,3) [of l] unfolding apart_def set_simps by blast
  show "q \<in> set ns \<Longrightarrow> apart (q + 4) 4 (l + 4) 4 \<and> apart (q + 4) 4 (l + 8) 4"
    using hdr f(2,3) fields_in(5) [of q] unfolding apart_def by blast
  show "q \<in> set ns \<Longrightarrow> q' \<in> set ns \<Longrightarrow> q \<noteq> q' \<Longrightarrow> apart (q + 4) 4 (q' + 4) 4"
    using nodes fields_in(5) [of q] fields_in(5) [of q'] unfolding apart_def by blast
qed

lemma layout_butlast: "layout l (ns @ [n]) \<Longrightarrow> layout l ns"
  by (simp add: layout_def)

lemma layout_distinct: "layout l ns \<Longrightarrow> distinct (l # ns)"
proof -
  assume "layout l ns"
  moreover have "l \<in> region l 12" "l \<in> node_area l"
    using region_offset [of 0 12 l] region_offset [of 0 8 l] by (simp_all add: node_area_def)
  ultimately show ?thesis by (auto simp: layout_def)
qed

lemma links_frame:
  assumes "links m p ns" "\<And>x. x \<in> set (butlast (p # ns)) \<Longrightarrow> get_be32 m' x = get_be32 m x"
    "\<And>y. y \<in> set ns \<Longrightarrow> get_be32 m' (y + 4) = get_be32 m (y + 4)"
  shows "links m' p ns"
  using assms
proof (induction ns arbitrary: p)
  case (Cons n ns)
  have "linked m' p n" using Cons.prems by (simp add: linked_def)
  moreover have "links m' n ns" using Cons.prems by (intro Cons.IH) auto
  ultimately show ?case by simp
qed simp

lemma links_snoc: "links m p (ns @ [n]) \<longleftrightarrow> links m p ns \<and> linked m (last (p # ns)) n"
  by (induction ns arbitrary: p) auto

lemma alist_init_empty: "alist (alist_init m l) l []"
  by (simp add: alist_def alist_init_def linked_def add.assoc apart_fields mem_simps)

lemma alist_add_tail_snoc:
  assumes "alist m l ns" "layout l (ns @ [n])"
  shows "alist (alist_add_tail m l n) l (ns @ [n])"
proof -
  define t where "t = last (l # ns)"
  note ap = layout_apart [OF assms(2)]
  have n: "n \<in> set (l # ns @ [n])" "n \<in> set (ns @ [n])" by simp_all
  have tin: "t \<in> set (l # ns)" unfolding t_def by (rule last_in_set) simp
  then have t: "t \<in> set (l # ns @ [n])" "t \<noteq> n" "t = l \<or> t \<in> set ns"
    using layout_distinct [OF assms(2)] by auto
  have tp: "get_be32 m (l + 8) = t" using assms(1) by (simp add: alist_def linked_def t_def add.assoc)
  have ntl: "apart n 4 (l + 8) 4" "apart (n + 4) 4 (l + 8) 4" "apart (l + 8) 4 n 4" "apart (l + 8) 4 (n + 4) 4"
    "apart t 4 (l + 8) 4" "apart (l + 8) 4 t 4"
    using ap(3) [OF n(1)] ap(4) [OF n(2)] ap(3) [OF t(1)] by (simp_all add: apart_sym)
  let ?m = "put_be32 (put_be32 (put_be32 (put_be32 m n (l + 4)) (n + 4) t) t n) (l + 8) n"
  have m': "alist_add_tail m l n = ?m"
    using ntl tp by (simp add: alist_add_tail_def Let_def mem_simps)
  have keep: "get_be32 ?m x = get_be32 m x"
    if "apart x 4 n 4" "apart x 4 (n + 4) 4" "apart x 4 t 4" "apart x 4 (l + 8) 4" for x
    using that by (simp add: mem_simps)
  have "links ?m l ns"
  proof (rule links_frame)
    show "links m l ns" using assms(1) by (simp add: alist_def)
    fix x assume x: "x \<in> set (butlast (l # ns))"
    from in_set_butlastD [OF x] have xin: "x \<in> set (l # ns @ [n])" "x \<in> set (l # ns)" by auto
    have "x \<noteq> t" using x layout_distinct [OF layout_butlast [OF assms(2)]]
      unfolding t_def by (metis append_butlast_last_id distinct_butlast distinct_append disjoint_iff list.set_intros(1) list.distinct(1))
    moreover have "x \<noteq> n" using xin(2) layout_distinct [OF assms(2)] by auto
    ultimately show "get_be32 ?m x = get_be32 m x"
      using ap(1) [OF xin(1) n(1)] ap(2) [OF xin(1) n(2)] ap(1) [OF xin(1) t(1)] ap(3) [OF xin(1)] by (intro keep) auto
  next
    fix y assume y: "y \<in> set ns"
    then have yin: "y \<in> set (ns @ [n])" "y \<noteq> n" using layout_distinct [OF assms(2)] by auto
    show "get_be32 ?m (y + 4) = get_be32 m (y + 4)"
      using ap(2) [OF n(1) yin(1)] ap(5) [OF yin(1) n(2) yin(2)] ap(2) [OF t(1) yin(1)] ap(4) [OF yin(1)]
      by (intro keep) (auto simp: apart_sym)
  qed
  moreover have "linked ?m t n"
    using ap(2) [OF t(1) n(2)] ntl by (simp add: linked_def mem_simps apart_sym)
  moreover have "linked ?m n (l + 4)"
    using ap(1) [OF n(1) t(1)] t(2) ntl apart_fields(1) [of n] by (simp add: linked_def add.assoc mem_simps apart_sym)
  moreover have "get_be32 ?m (l + 4) = get_be32 m (l + 4)"
    using ap(3) [OF n(1)] ap(4) [OF n(2)] ap(3) [OF t(1)] apart_fields(5) [of l] by (intro keep) (auto simp: apart_sym)
  ultimately show ?thesis
    using assms(1) unfolding m' alist_def links_snoc t_def [symmetric] by simp
qed

lemma alist_empty_iff:
  assumes "alist m l ns" "layout l ns"
  shows "alist_empty m l \<longleftrightarrow> ns = []"
proof (cases ns)
  case Nil
  then show ?thesis using assms(1) by (simp add: alist_empty_def alist_def linked_def)
next
  case (Cons n ks)
  then have "get_be32 m l = n" using assms(1) by (simp add: alist_def linked_def)
  moreover have "get_be32 m n \<noteq> 0"
    using Cons assms by (cases ks) (auto simp: alist_def linked_def layout_def)
  ultimately show ?thesis using Cons by (simp add: alist_empty_def)
qed

text \<open>What the operations write.\<close>

lemma alist_init_frame: "x \<notin> region l 12 \<Longrightarrow> alist_init m l x = m x"
proof -
  assume "x \<notin> region l 12"
  then have "x \<notin> region l 4" "x \<notin> region (l + 4) 4" "x \<notin> region (l + 8) 4" using fields_in(1-3) [of l] by blast+
  then show ?thesis by (simp add: alist_init_def put_be32_frame)
qed

lemma alist_add_tail_frame:
  assumes "alist m l ns" "layout l (ns @ [n])" "x \<notin> list_area l (ns @ [n])"
  shows "alist_add_tail m l n x = m x"
proof -
  define t where "t = last (l # ns)"
  have "t \<in> set (l # ns)" unfolding t_def by (rule last_in_set) simp
  then have t: "region t 4 \<subseteq> list_area l (ns @ [n])"
    using fields_in(1) [of l] fields_in(4) [of t] by (auto simp: list_area_def)
  have n: "region n 4 \<subseteq> list_area l (ns @ [n])" "region (n + 4) 4 \<subseteq> list_area l (ns @ [n])"
    "region (l + 8) 4 \<subseteq> list_area l (ns @ [n])"
    using fields_in(3) [of l] fields_in(4,5) [of n] by (auto simp: list_area_def)
  have tp: "get_be32 m (l + 8) = t" using assms(1) by (simp add: alist_def linked_def t_def add.assoc)
  have "apart (l + 8) 4 n 4" "apart (l + 8) 4 (n + 4) 4"
    using layout_apart(3,4) [OF assms(2), of n] by (simp_all add: apart_sym)
  moreover have "x \<notin> region t 4" "x \<notin> region n 4" "x \<notin> region (n + 4) 4" "x \<notin> region (l + 8) 4"
    using assms(3) t n by blast+
  ultimately show ?thesis
    using tp by (simp add: alist_add_tail_def Let_def put_be32_frame mem_simps)
qed

text \<open>A list survives writes outside its area.\<close>

lemma alist_frame:
  assumes "alist m l ns" "\<And>x. x \<in> list_area l ns \<Longrightarrow> m' x = m x"
  shows "alist m' l ns"
proof -
  have g: "get_be32 m' a = get_be32 m a" if "region a 4 \<subseteq> list_area l ns" for a
    using assms(2) that by (intro get_be32_frame) blast
  have s: "get_be32 m' p = get_be32 m p" if "p \<in> set (l # ns)" for p
    using that fields_in(1) [of l] fields_in(4) [of p] by (intro g) (auto simp: list_area_def)
  have p: "get_be32 m' (q + 4) = get_be32 m (q + 4)" if "q \<in> set ns" for q
    using that fields_in(5) [of q] by (intro g) (auto simp: list_area_def)
  have h: "get_be32 m' (l + 4) = get_be32 m (l + 4)" "get_be32 m' (l + 8) = get_be32 m (l + 8)"
    using fields_in(2,3) [of l] by (auto intro!: g simp: list_area_def)
  have "links m' l ns"
    using assms(1) s [OF in_set_butlastD] p by (intro links_frame [of m l ns m']) (simp_all only: alist_def)
  moreover have "last (l # ns) \<in> set (l # ns)" by (rule last_in_set) simp
  ultimately show ?thesis
    using assms(1) s h by (simp add: alist_def linked_def add.assoc)
qed

subsection \<open>The interface to the module list\<close>

text \<open>
  What a client relies on: \<open>repr m l ns\<close> (the list at \<open>l\<close> is \<open>ns\<close>) holds after \<open>init\<close> for the
  empty list, \<open>add\<close> appends, the emptiness test is right, and writes elsewhere do not matter.
\<close>

locale tail_list =
  fixes repr :: "'m \<Rightarrow> 'p \<Rightarrow> 'n list \<Rightarrow> bool"
    and wf :: "'p \<Rightarrow> 'n list \<Rightarrow> bool"
    and init :: "'m \<Rightarrow> 'p \<Rightarrow> 'm"
    and add :: "'m \<Rightarrow> 'p \<Rightarrow> 'n \<Rightarrow> 'm"
    and is_empty :: "'m \<Rightarrow> 'p \<Rightarrow> bool"
  assumes repr_init: "repr (init m l) l []"
    and repr_add: "repr m l ns \<Longrightarrow> wf l (ns @ [n]) \<Longrightarrow> repr (add m l n) l (ns @ [n])"
    and repr_empty: "repr m l ns \<Longrightarrow> wf l ns \<Longrightarrow> is_empty m l \<longleftrightarrow> ns = []"
    and wf_prefix: "wf l (ns @ [n]) \<Longrightarrow> wf l ns"
begin

lemma repr_build: "wf l ns \<Longrightarrow> repr (foldl (\<lambda>m n. add m l n) (init m l) ns) l ns"
proof (induction ns rule: rev_induct)
  case Nil
  then show ?case by (simp add: repr_init)
next
  case (snoc n ns)
  then show ?case by (auto intro: repr_add wf_prefix)
qed

lemma build_nonempty: "wf l ns \<Longrightarrow> ns \<noteq> [] \<Longrightarrow> \<not> is_empty (foldl (\<lambda>m n. add m l n) (init m l) ns) l"
  using repr_build repr_empty by blast

end

interpretation al: tail_list alist layout alist_init alist_add_tail alist_empty
  by unfold_locales
     (auto simp: alist_empty_iff intro: alist_init_empty alist_add_tail_snoc layout_butlast)

text \<open>
  C15. Adding nodes one after the other to an initialised list yields a doubly linked list of
  exactly these nodes in order: \<open>n_succ\<close> leads from \<open>l_head\<close> through them to the tail node, \<open>n_pred\<close>
  leads back, and the emptiness test of \<open>boot_aos.c\<close> tells whether there are any.
\<close>

theorem alist_build:
  assumes "layout l ns"
  shows "alist (foldl (\<lambda>m n. alist_add_tail m l n) (alist_init m l) ns) l ns \<and>
    (alist_empty (foldl (\<lambda>m n. alist_add_tail m l n) (alist_init m l) ns) l \<longleftrightarrow> ns = [])"
  using al.repr_build [OF assms] al.repr_empty [OF al.repr_build [OF assms] assms] by blast

theorem alist_build_witness:
  "alist (foldl (\<lambda>m n. alist_add_tail m 0x1000 n) (alist_init (\<lambda>_. 0xff) 0x1000) [0x1040, 0x1020]) 0x1000 [0x1040, 0x1020]"
proof -
  have "apart 0x1000 12 0x1040 8" "apart 0x1000 12 0x1020 8" "apart 0x1020 8 0x1040 8"
    by (rule apart_unat; simp)+
  then have "layout 0x1000 [0x1040, 0x1020]"
    by (auto simp: layout_def node_area_def apart_def)
  from alist_build [OF this] show ?thesis by blast
qed

end
