(* ===== verification/Board.thy ===== *)
theory Board
  imports Prelude
begin

text \<open>
  What the boards have in common: \<open>brd_t\<close> of \<open>bboot.h\<close>, the operations and addresses a board hands
  to the loader, and the board information \<open>bd_t\<close> of \<open>u-boot.h\<close> for the kernel. \<open>'f\<close> is the state
  of the machine or firmware behind \<open>brd.claim\<close> and \<open>brd.setup\<close>, which may change memory and may not
  return; a null function pointer is \<open>None\<close>.
\<close>

text \<open>Code that may not return, leave an array, or return a value.\<close>

datatype 'a outcome = Hang | Fault | Done 'a

primrec bindO :: "'a outcome \<Rightarrow> ('a \<Rightarrow> 'b outcome) \<Rightarrow> 'b outcome" where
  "bindO Hang f = Hang"
| "bindO Fault f = Fault"
| "bindO (Done x) f = f x"

definition returns :: "'a option \<Rightarrow> 'a outcome" where
  "returns r = (case r of None \<Rightarrow> Hang | Some x \<Rightarrow> Done x)"

definition inside :: "'a option \<Rightarrow> 'a outcome" where
  "inside r = (case r of None \<Rightarrow> Fault | Some x \<Rightarrow> Done x)"

lemma outcome_simps [simp]:
  "returns (Some x) = Done x" "returns None = Hang" "inside (Some x) = Done x" "inside None = Fault"
  by (simp_all add: returns_def inside_def)

record 'f brd_t =
  claim :: "u32 \<Rightarrow> u32 \<Rightarrow> mem \<Rightarrow> 'f \<Rightarrow> (u32 \<times> mem \<times> 'f) option"
  brd_setup :: "(mem \<Rightarrow> 'f \<Rightarrow> (mem \<times> 'f) outcome) option"
  info :: u32
  exec_addr :: u32
  serial_base :: u32
  initrd_start :: u32
  initrd_end :: u32
  bootargs :: u32
  stack_top :: u32

text \<open>The global \<open>brd\<close> before a board fills it in; no claim succeeds.\<close>

definition brd_zero :: "'f brd_t" where
  "brd_zero = \<lparr>claim = (\<lambda>_ _ m f. Some (0, m, f)), brd_setup = None, info = 0, exec_addr = 0, serial_base = 0, initrd_start = 0,
     initrd_end = 0, bootargs = 0, stack_top = 0\<rparr>"

record bd_t =
  bi_memstart :: u32
  bi_memsize :: u32
  bi_flashstart :: u32
  bi_flashsize :: u32
  bi_flashoffset :: u32
  bi_sramstart :: u32
  bi_sramsize :: u32
  bi_bootflags :: u32
  bi_ip_addr :: u32
  bi_enetaddr :: "u8 list"
  bi_ethspeed :: u16
  bi_intfreq :: u32
  bi_busfreq :: u32
  bi_baudrate :: u32

text \<open>A static \<open>bd_t\<close> before the board fills it in.\<close>

definition bd_zero :: bd_t where
  "bd_zero = \<lparr>bi_memstart = 0, bi_memsize = 0, bi_flashstart = 0, bi_flashsize = 0, bi_flashoffset = 0,
     bi_sramstart = 0, bi_sramsize = 0, bi_bootflags = 0, bi_ip_addr = 0, bi_enetaddr = replicate 6 0,
     bi_ethspeed = 0, bi_intfreq = 0, bi_busfreq = 0, bi_baudrate = 0\<rparr>"

subsection \<open>Claiming memory\<close>

text \<open>The board hands out the memory below \<open>lim\<close> as it is asked for it.\<close>

definition grants :: "'f brd_t \<Rightarrow> nat \<Rightarrow> 'f \<Rightarrow> bool" where
  "grants brd lim f \<longleftrightarrow> lim \<le> 2 ^ 32 \<and> (\<forall>addr sz m. unat addr + unat sz < lim \<longrightarrow> claim brd addr sz m f = Some (addr, m, f))"

text \<open>
  The contract of a \<open>brd.claim\<close> that keeps no account of what it has handed out: it grants what lies below the
  top of memory, refuses what ends behind it, and changes neither memory nor the state of the board.
\<close>

locale memory_board =
  fixes claim_mem :: "u32 \<Rightarrow> u32 \<Rightarrow> mem \<Rightarrow> 'f \<Rightarrow> (u32 \<times> mem \<times> 'f) option"
    and ram_top :: "'f \<Rightarrow> u32"
  assumes claim_inside: "unat addr + unat sz < unat (ram_top f) \<Longrightarrow> claim_mem addr sz m f = Some (addr, m, f)"
    and claim_outside: "unat (ram_top f) \<le> unat addr + unat sz \<Longrightarrow> unat addr + unat sz < 2 ^ 32 \<Longrightarrow> claim_mem addr sz m f = Some (0, m, f)"
begin

lemma board_grants: "claim brd = claim_mem \<Longrightarrow> grants brd (unat (ram_top f)) f"
  using claim_inside unat32_less [of "ram_top f"] by (simp add: grants_def)

lemma claim_exact:
  assumes "unat addr + unat sz < 2 ^ 32" "addr \<noteq> 0"
  shows "claim_mem addr sz m f = Some (addr, m, f) \<longleftrightarrow> unat addr + unat sz < unat (ram_top f)"
  using claim_inside [of addr sz f m] claim_outside [of f addr sz m] assms by (cases "unat addr + unat sz < unat (ram_top f)") auto

end

end
