(* ===== verification/BootAos.thy ===== *)
theory BootAos
  imports Zip_Image AosList Board
begin

text \<open>
  Loading AmigaOS from the zip archive: \<open>boot_aos.c\<close>. The Kicklayout text is extracted to memory
  and parsed in place, modules are extracted to the addresses the board hands out, and their
  headers are linked into the kick list. \<open>'f\<close> is the state of the machine or firmware behind
  \<open>brd.claim\<close>. A function that may not return is \<open>None\<close>; an error return carries the reason
  that the code prints; \<open>Undef\<close> passes on undefined behaviour of the decoder. Messages
  themselves, which depend on \<open>vlvl\<close> only, are not modelled.
\<close>

subsection \<open>The state of the loader\<close>

datatype boot_err =
  Missing_initrd | Invalid_zip | File_not_found | No_memory | Extract_failed | Invalid_name |
  Bad_line int | No_module | No_config | Undef puff_exn

record 'f boot =
  bw :: world
  bf :: 'f
  bz :: zip_t

type_synonym ('a, 'f) bootm = "((boot_err + 'a) \<times> 'f boot) option"

definition bindB :: "('a, 'f) bootm \<Rightarrow> ('a \<Rightarrow> 'f boot \<Rightarrow> ('b, 'f) bootm) \<Rightarrow> ('b, 'f) bootm" where
  "bindB r f = Option.bind r (\<lambda>vs. case vs of (Inl e, s) \<Rightarrow> Some (Inl e, s) | (Inr x, s) \<Rightarrow> f x s)"

abbreviation bmem :: "'f boot \<Rightarrow> mem" where "bmem s \<equiv> mem (bw s)"

definition set_mem :: "mem \<Rightarrow> 'f boot \<Rightarrow> 'f boot" where
  "set_mem m s = s\<lparr>bw := (bw s)\<lparr>mem := m\<rparr>\<rparr>"

lemma bindB_simps [simp]:
  "bindB None f = None" "bindB (Some (Inl e, s)) f = Some (Inl e, s)" "bindB (Some (Inr x, s)) f = f x s"
  by (simp_all add: bindB_def)

lemma bindB_mono [partial_function_mono]:
  assumes "mono_option B" "\<And>x s. mono_option (\<lambda>f. C x s f)"
  shows "mono_option (\<lambda>f. bindB (B f) (\<lambda>x s. C x s f))"
  unfolding bindB_def
proof (rule bind_mono [OF assms(1)], goal_cases)
  case (1 vs)
  show ?case
    by (cases vs; cases "fst vs") (auto intro!: assms(2) monotoneI simp: flat_ord_def)
qed

definition do_claim :: "'f brd_t \<Rightarrow> u32 \<Rightarrow> u32 \<Rightarrow> 'f boot \<Rightarrow> (u32, 'f) bootm" where
  "do_claim brd addr sz s =
     Option.bind (claim brd addr sz (bmem s) (bf s)) (\<lambda>(a, m, f). Some (Inr a, set_mem m (s\<lparr>bf := f\<rparr>)))"

subsection \<open>Modules\<close>

text \<open>The fields of \<open>module_t\<close>, 36 bytes, the first of which is the list node.\<close>

abbreviation sizeof_module :: u32 where "sizeof_module \<equiv> 36"

record module_t =
  mod_name :: u32
  mod_options :: u32
  mod_id :: u16
  mod_flags :: u16
  mod_alloc :: u32
  mod_dealloc :: u32
  mod_address :: u32
  mod_size :: u32

definition module_at :: "mem \<Rightarrow> u32 \<Rightarrow> module_t" where
  "module_at m a =
     \<lparr>mod_name = get_be32 m (a + 8), mod_options = get_be32 m (a + 12), mod_id = get_be16 m (a + 16),
      mod_flags = get_be16 m (a + 18), mod_alloc = get_be32 m (a + 20), mod_dealloc = get_be32 m (a + 24),
      mod_address = get_be32 m (a + 28), mod_size = get_be32 m (a + 32)\<rparr>"

definition add_module :: "mem \<Rightarrow> u32 \<Rightarrow> u32 \<Rightarrow> u32 \<Rightarrow> u32 \<Rightarrow> u32 \<Rightarrow> mem option" where
  "add_module m list md data len name =
     (let n = md + sizeof_module in
      Option.bind (strcpy m n name) (\<lambda>m.
        let m = put_be32 m (md + 8) n;
            m = put_be32 m (md + 12) 0;
            m = put_be16 m (md + 16) 2;
            m = put_be16 m (md + 18) 3;
            m = put_be32 m (md + 20) (md + 20);
            m = put_be32 m (md + 24) (md + 24);
            m = put_be32 m (md + 28) data;
            m = put_be32 m (md + 32) len in
        Some (alist_add_tail m list md)))"

definition extract_to :: "u32 \<Rightarrow> 'f boot \<Rightarrow> (unit, 'f) bootm" where
  "extract_to bin s =
     (case zip_file_extract (bw s) (bz s) bin of
        (Inl e, w) \<Rightarrow> Some (Inl (Undef e), s\<lparr>bw := w\<rparr>)
      | (Inr r, w) \<Rightarrow> Some (if r \<noteq> 0 then Inl Extract_failed else Inr (), s\<lparr>bw := w\<rparr>))"

definition find_file :: "cstr \<Rightarrow> 'f boot \<Rightarrow> (unit, 'f) bootm" where
  "find_file path s =
     Option.bind (zip_file_find (bmem s) (bz s) path) (\<lambda>(r, z).
       Some (if r \<noteq> 0 then Inl File_not_found else Inr (), s\<lparr>bz := z\<rparr>))"

text \<open>
  \<open>load_module_from_zip\<close>: the number of bytes claimed in the kick list. The last part, once the
  contents are extracted to \<open>bin\<close>, is \<open>link_module\<close>: for \<open>data\<close> it claims room for the header.
\<close>

definition link_module ::
  "'f brd_t \<Rightarrow> u32 \<Rightarrow> nat \<Rightarrow> u32 \<Rightarrow> u32 \<Rightarrow> u32 \<Rightarrow> u32 \<Rightarrow> u32 \<Rightarrow> u32 \<Rightarrow> 'f boot \<Rightarrow> (u32, 'f) bootm" where
  "link_module brd name nlen data avail list bin md clen s =
     bindB (if data \<noteq> 0 then
              let clen = sizeof_module + of_nat nlen + 1; clen = ROUND_UP clen 32 in
              bindB (do_claim brd avail clen s) (\<lambda>md s.
                if md = 0 then Some (Inl No_memory, s) else Some (Inr (md, clen), s))
            else Some (Inr (md, clen), s)) (\<lambda>(md, clen) s.
       Option.bind (add_module (bmem s) list md bin (zip_file_uncompressedSize (bmem s) (bz s)) name) (\<lambda>m.
         let m = (if data \<noteq> 0 then put_be16 m (md + 16) 1 else m) in
         Some (Inr clen, set_mem m s)))"

definition load_module_from_zip ::
  "'f brd_t \<Rightarrow> u32 \<Rightarrow> u32 \<Rightarrow> u32 \<Rightarrow> u32 \<Rightarrow> 'f boot \<Rightarrow> (u32, 'f) bootm" where
  "load_module_from_zip brd path data avail list s =
     Option.bind (strrchr (at (bmem s) path) (char_byte CHR ''/'')) (\<lambda>slash.
       let name = (case slash of None \<Rightarrow> path | Some i \<Rightarrow> path + of_nat i + 1) in
       Option.bind (strlen (at (bmem s) name)) (\<lambda>nlen.
         if nlen = 0 then Some (Inl Invalid_name, s)
         else
           bindB (find_file (at (bmem s) path) s) (\<lambda>_ s.
             let clen = zip_file_uncompressedSize (bmem s) (bz s);
                 rounded = ROUND_UP clen 4;
                 md = avail + rounded;
                 clen = (if data = 0 then ROUND_UP (rounded + (sizeof_module + of_nat nlen + 1)) 32 else clen) in
             bindB (do_claim brd (if data \<noteq> 0 then data else avail) clen s) (\<lambda>bin s.
               if bin = 0 then Some (Inl No_memory, s)
               else
                 bindB (extract_to bin s) (\<lambda>_ s.
                   link_module brd name nlen data avail list bin md clen s)))))"

subsection \<open>The Kicklayout parser\<close>

definition SPCORTAB :: "u8 \<Rightarrow> bool" where
  "SPCORTAB c \<longleftrightarrow> c = char_byte CHR '' '' \<or> c = char_byte CHR 0x09"

definition blank_or_cr :: "u8 \<Rightarrow> bool" where
  "blank_or_cr c \<longleftrightarrow> SPCORTAB c \<or> c = char_byte CHR 0x0D"

definition KEYWORD :: "mem \<Rightarrow> u32 \<Rightarrow> string \<Rightarrow> bool" where
  "KEYWORD m p str \<longleftrightarrow> strncmp (at m p) (lit str) (length str) = 0 \<and> SPCORTAB (m (p + of_nat (length str)))"

partial_function (option) skip_while :: "(u8 \<Rightarrow> bool) \<Rightarrow> mem \<Rightarrow> u32 \<Rightarrow> u32 option" where [code]:
  "skip_while P m p = (if P (m p) then skip_while P m (p + 1) else Some p)"

text \<open>\<open>for (q = end - 1; q > p && (SPCORTAB(q) || *q == '\r'); q--)\<close>\<close>

function trim_back :: "mem \<Rightarrow> u32 \<Rightarrow> u32 \<Rightarrow> u32" where
  "trim_back m p q = (if q > p \<and> blank_or_cr (m q) then trim_back m p (q - 1) else q)"
  by pat_completeness auto
termination
proof (relation "measure (\<lambda>(m, p, q). unat q)", goal_cases)
  case (2 m p q)
  then have "q \<noteq> 0" by auto
  then show ?case using unat_minus_one [of q] unat_gt_0 [of q] by simp
qed simp

declare trim_back.simps [simp del]

text \<open>
  What one line does, once it is terminated and trimmed: \<open>Inr (True, \<dots>)\<close> goes on to the next line,
  \<open>Inr (False, \<dots>)\<close> is the \<open>break\<close>. The values are \<open>c\<close>, \<open>avail\<close> and \<open>kicklist\<close>.
\<close>

definition load_line ::
  "'f brd_t \<Rightarrow> string \<Rightarrow> u32 \<Rightarrow> u32 \<Rightarrow> int \<Rightarrow> int \<Rightarrow> u32 \<Rightarrow> u32 \<Rightarrow> 'f boot \<Rightarrow> (bool \<times> int \<times> u32 \<times> u32, 'f) bootm" where
  "load_line brd keyword data p c l avail kicklist s =
     (if KEYWORD (bmem s) p keyword then
        Option.bind (skip_while SPCORTAB (bmem s) (p + of_nat (length keyword))) (\<lambda>p.
          bindB (load_module_from_zip brd p data avail kicklist s) (\<lambda>inc s.
            if inc = 0 then Some (Inl No_module, s)
            else Some (Inr (True, c, avail + inc, kicklist), s)))
      else Some (Inl (Bad_line l), s))"

definition label_line ::
  "'f brd_t \<Rightarrow> int \<Rightarrow> int \<Rightarrow> u32 \<Rightarrow> u32 \<Rightarrow> 'f boot \<Rightarrow> (bool \<times> int \<times> u32 \<times> u32, 'f) bootm" where
  "label_line brd config c avail kicklist s =
     (let c = c + 1 in
      if c = config then
        bindB (do_claim brd avail 12 s) (\<lambda>kicklist s.
          if kicklist = 0 then Some (Inl No_memory, s)
          else Some (Inr (True, c, avail + 12, kicklist), set_mem (alist_init (bmem s) kicklist) s))
      else Some (Inr (\<not> c > config, c, avail, kicklist), s))"

definition layout_line ::
  "'f brd_t \<Rightarrow> int \<Rightarrow> u32 \<Rightarrow> int \<Rightarrow> int \<Rightarrow> u32 \<Rightarrow> u32 \<Rightarrow> 'f boot \<Rightarrow> (bool \<times> int \<times> u32 \<times> u32, 'f) bootm" where
  "layout_line brd config p c l avail kicklist s =
     (if KEYWORD (bmem s) p ''LABEL'' then label_line brd config c avail kicklist s
      else if c \<noteq> config then Some (Inr (True, c, avail, kicklist), s)
      else if alist_empty (bmem s) kicklist then load_line brd ''EXEC'' (exec_addr brd) p c l avail kicklist s
      else load_line brd ''MODULE'' 0 p c l avail kicklist s)"

definition terminate_line :: "mem \<Rightarrow> u32 \<Rightarrow> u32 \<Rightarrow> mem" where
  "terminate_line m p end =
     (let m = m(end := 0); q = trim_back m p (end - 1) + 1 in
      if q < end then m(q := 0) else m)"

partial_function (option) layout_loop ::
  "'f brd_t \<Rightarrow> int \<Rightarrow> u32 \<Rightarrow> u32 \<Rightarrow> u32 \<Rightarrow> int \<Rightarrow> int \<Rightarrow> u32 \<Rightarrow> u32 \<Rightarrow> 'f boot \<Rightarrow> (u32 \<times> u32, 'f) bootm" where [code]:
  "layout_loop brd config kicklayout kicklayout_len p c l avail kicklist s =
     (if \<not> (p \<noteq> 0 \<and> sint (p - kicklayout) < sint kicklayout_len) \<or> bmem s p = 0
      then Some (Inr (avail, kicklist), s)
      else
        Option.bind (skip_while blank_or_cr (bmem s) p) (\<lambda>p.
        Option.bind (strchr (at (bmem s) p) (char_byte CHR 0x0A)) (\<lambda>nl.
          case nl of
            None \<Rightarrow> Some (Inl (Bad_line l), s)
          | Some i \<Rightarrow>
              let end = p + of_nat i in
              if bmem s p = char_byte CHR '';'' \<or> bmem s p = char_byte CHR 0x0A
              then layout_loop brd config kicklayout kicklayout_len (end + 1) c (l + 1) avail kicklist s
              else
                bindB (layout_line brd config p c l avail kicklist (set_mem (terminate_line (bmem s) p end) s))
                  (\<lambda>(cont, c, avail, kicklist) s.
                    if cont
                    then layout_loop brd config kicklayout kicklayout_len (end + 1) c (l + 1) avail kicklist s
                    else Some (Inr (avail, kicklist), s)))))"

abbreviation KICKLIST_ADDR :: u32 where "KICKLIST_ADDR \<equiv> 0xec00000"
abbreviation KICKLAYOUT :: string where "KICKLAYOUT \<equiv> ''Kickstart/Kicklayout''"

text \<open>\<open>boot_aos_zipkick\<close>: the kick list and, for \<open>avail_ret\<close>, the first free address.\<close>

definition boot_aos_zipkick :: "'f brd_t \<Rightarrow> u32 \<Rightarrow> u32 \<Rightarrow> int \<Rightarrow> 'f boot \<Rightarrow> (u32 \<times> u32, 'f) bootm" where
  "boot_aos_zipkick brd zipdata ziplen0 config s =
     (let ziplen = (if ziplen0 = 0 then zip_findLen (bmem s) zipdata (16 * 1024 * 1024) else ziplen0) in
      if zipdata = 0 \<or> ziplen = 0 then Some (Inl Missing_initrd, s)
      else
        case zip_openBuffer (bmem s) \<lparr>z_data = 0, z_len = 0, z_er = 0, z_gfh = 0\<rparr> zipdata ziplen of (r, z) \<Rightarrow>
          let s = s\<lparr>bz := z\<rparr> in
          if r \<noteq> 0 then Some (Inl Invalid_zip, s)
          else
            bindB (find_file (lit KICKLAYOUT) s) (\<lambda>_ s.
            let avail = zipdata + ziplen; kicklayout_len = zip_file_uncompressedSize (bmem s) (bz s) in
            bindB (do_claim brd avail (kicklayout_len + 2) s) (\<lambda>kicklayout s.
              if kicklayout = 0 then Some (Inl No_memory, s)
              else
                bindB (extract_to kicklayout s) (\<lambda>_ s.
                let m = (bmem s)(kicklayout + kicklayout_len := char_byte CHR 0x0A, kicklayout + kicklayout_len + 1 := 0) in
                bindB (layout_loop brd config kicklayout kicklayout_len kicklayout 0 1 KICKLIST_ADDR 0 (set_mem m s))
                  (\<lambda>(avail, kicklist) s.
                    if kicklist = 0 \<or> alist_empty (bmem s) kicklist then Some (Inl No_config, s)
                    else Some (Inr (kicklist, avail), s))))))"

subsection \<open>A module in the kick list\<close>

definition module_area :: "u32 \<Rightarrow> nat \<Rightarrow> u32 set" where
  "module_area md nlen = region md (36 + nlen + 1)"

definition set_fields :: "mem \<Rightarrow> u32 \<Rightarrow> u32 \<Rightarrow> u32 \<Rightarrow> mem" where
  "set_fields m md data len =
     put_be32 (put_be32 (put_be32 (put_be32 (put_be16 (put_be16 (put_be32 (put_be32 m (md + 8) (md + 36)) (md + 12) 0)
       (md + 16) 2) (md + 18) 3) (md + 20) (md + 20)) (md + 24) (md + 24)) (md + 28) data) (md + 32) len"

lemma add_module_alt:
  "add_module m list md data len name =
     Option.bind (strcpy m (md + 36) name) (\<lambda>m. Some (alist_add_tail (set_fields m md data len) list md))"
  by (simp add: add_module_def set_fields_def Let_def)

lemma module_at_set_fields:
  "module_at (set_fields m md data len) md =
     \<lparr>mod_name = md + 36, mod_options = 0, mod_id = 2, mod_flags = 3, mod_alloc = md + 20,
      mod_dealloc = md + 24, mod_address = data, mod_size = len\<rparr>"
  by (simp add: module_at_def set_fields_def mem_simps)

lemma region_numeral: "numeral i + n \<le> (k :: nat) \<Longrightarrow> region (a + numeral i) n \<subseteq> region a k"
  using region_sub [of "numeral i" n k a] by simp

lemma set_fields_frame:
  assumes "x \<notin> region (md + 8) 28"
  shows "set_fields m md data len x = m x"
proof -
  have sub: "region (md + 8 + of_nat j) n \<subseteq> region (md + 8) 28" if "j + n \<le> 28" for j n
    using region_sub [OF that] .
  have "x \<notin> region (md + 8) 4" "x \<notin> region (md + 12) 4" "x \<notin> region (md + 16) 2" "x \<notin> region (md + 18) 2"
    "x \<notin> region (md + 20) 4" "x \<notin> region (md + 24) 4" "x \<notin> region (md + 28) 4" "x \<notin> region (md + 32) 4"
    using assms sub [of 0 4] sub [of 4 4] sub [of 8 2] sub [of 10 2] sub [of 12 4] sub [of 16 4] sub [of 20 4] sub [of 24 4]
    by (auto simp: add.assoc)
  then show ?thesis by (simp add: set_fields_def put_be32_frame put_be16_frame)
qed

lemma module_at_cong:
  assumes "\<And>x. x \<in> region (md + 8) 28 \<Longrightarrow> m' x = m x"
  shows "module_at m' md = module_at m md"
proof -
  have sub: "region (md + 8 + of_nat j) n \<subseteq> region (md + 8) 28" if "j + n \<le> 28" for j n
    using region_sub [OF that] .
  have w: "get_be32 m' (md + 8 + of_nat j) = get_be32 m (md + 8 + of_nat j)" if "j + 4 \<le> 28" for j
    using assms sub [OF that] by (intro get_be32_frame) blast
  have h: "get_be16 m' (md + 8 + of_nat j) = get_be16 m (md + 8 + of_nat j)" if "j + 2 \<le> 28" for j
    using assms sub [OF that] by (intro get_be16_frame) blast
  show ?thesis
    using w [of 0] w [of 4] h [of 8] h [of 10] w [of 12] w [of 16] w [of 20] w [of 24]
    by (simp add: module_at_def add.assoc)
qed

lemma region_parts: "region (md + 8) 28 \<subseteq> module_area md n" "region (md + 36) (n + 1) \<subseteq> module_area md n"
  "region md 8 \<subseteq> module_area md n"
  using region_sub [of 8 28 "36 + n + 1" md] region_sub [of 36 "n + 1" "36 + n + 1" md] region_mono [of 8 "36 + n + 1" md]
  by (simp_all add: module_area_def)

lemma add_module_run:
  assumes "alist m list ns" "layout list (ns @ [md])" "cstring (at m name) xs"
    and "module_area md (length xs) \<inter> list_area list ns = {}" "36 + length xs + 1 \<le> 2 ^ 32"
    and "apart (md + 36) (Suc (length xs)) name (Suc (length xs))"
  shows "\<exists>m'. add_module m list md data len name = Some m' \<and> alist m' list (ns @ [md]) \<and>
    module_at m' md = \<lparr>mod_name = md + 36, mod_options = 0, mod_id = 2, mod_flags = 3, mod_alloc = md + 20,
      mod_dealloc = md + 24, mod_address = data, mod_size = len\<rparr> \<and>
    cstring (at m' (md + 36)) xs \<and>
    (\<forall>x. x \<notin> module_area md (length xs) \<and> x \<notin> list_area list ns \<longrightarrow> m' x = m x)"
proof -
  define m1 where "m1 = store_bytes m (md + 36) (xs @ [0])"
  define m2 where "m2 = set_fields m1 md data len"
  define m3 where "m3 = alist_add_tail m2 list md"
  note parts = region_parts [of md "length xs"]
  have run: "add_module m list md data len name = Some m3"
    by (simp add: add_module_alt strcpy_spec [OF assms(3,6)] m1_def m2_def m3_def)
  have fr1: "m1 x = m x" if "x \<notin> region (md + 36) (length xs + 1)" for x
    using that by (simp add: m1_def store_bytes_frame)
  have fr2: "m2 x = m1 x" if "x \<notin> region (md + 8) 28" for x
    using that by (simp add: m2_def set_fields_frame)
  have fr12: "m2 x = m x" if "x \<notin> module_area md (length xs)" for x
  proof -
    have "x \<notin> region (md + 8) 28" "x \<notin> region (md + 36) (length xs + 1)" using that parts by blast+
    then show ?thesis using fr1 fr2 by simp
  qed
  have al2: "alist m2 list ns"
    using assms(1) by (rule alist_frame) (use assms(4) fr12 in blast)
  have fr3: "m3 x = m2 x" if "x \<notin> list_area list ns" "x \<notin> region md 8" for x
    unfolding m3_def using that
    by (intro alist_add_tail_frame [OF al2 assms(2)]) (auto simp: list_area_def node_area_def)
  have off: "apart md 8 (md + 8) 28" "apart md 8 (md + 36) (length xs + 1)" "apart (md + 8) 28 (md + 36) (length xs + 1)"
    using apart_offsets(1) [of 0 8 8 28 md] apart_offsets(1) [of 0 8 36 "length xs + 1" md]
      apart_offsets(1) [of 8 28 36 "length xs + 1" md] assms(5) by simp_all
  have keep: "m3 x = m2 x" if "x \<in> region (md + 8) 28 \<union> region (md + 36) (length xs + 1)" for x
  proof (rule fr3)
    show "x \<notin> list_area list ns" using that parts(1,2) assms(4) by blast
    show "x \<notin> region md 8" using that off(1,2) unfolding apart_def by blast
  qed
  have "module_at m3 md = module_at m2 md" using keep by (intro module_at_cong) blast
  then have md: "module_at m3 md = \<lparr>mod_name = md + 36, mod_options = 0, mod_id = 2, mod_flags = 3,
      mod_alloc = md + 20, mod_dealloc = md + 24, mod_address = data, mod_size = len\<rparr>"
    by (simp add: m2_def module_at_set_fields)
  have "cstring (at m1 (md + 36)) xs"
    unfolding m1_def using cstringD(4) [OF assms(3)] assms(5) by (intro cstring_store) auto
  then have nm: "cstring (at m3 (md + 36)) xs"
  proof (rule cstring_at_cong)
    fix x assume x: "x \<in> region (md + 36) (Suc (length xs))"
    then have "x \<notin> region (md + 8) 28" using off(3) unfolding apart_def by auto
    then show "m3 x = m1 x" using fr2 keep x by simp
  qed
  have fr: "m3 x = m x" if "x \<notin> module_area md (length xs)" "x \<notin> list_area list ns" for x
  proof -
    have "x \<notin> region md 8" using that(1) parts(3) by blast
    then show ?thesis using fr3 [OF that(2)] fr12 [OF that(1)] by simp
  qed
  show ?thesis
    using run al.repr_add [OF al2 assms(2)] md nm fr by (auto simp: m3_def)
qed

end
