(* ===== verification/Pci.thy ===== *)
theory Pci
  imports Prelude
begin

text \<open>
  Access to devices: the volatile loads and stores of \<open>include/ppc-mmio.h\<close> and the PCI
  configuration mechanism of \<open>drivers/pci.c\<close>. What lies on the bus is hardware, so it is a
  parameter: a \<open>bus\<close> says what a load of 1, 2 or 4 bytes returns and how loads and stores change
  the hardware state \<open>'h\<close>. \<open>config_port\<close> states what the code relies on in the host bridge, the
  address and data registers of PCI configuration mechanism 1.
\<close>

subsection \<open>ppc-mmio.h\<close>

record 'h bus =
  bus_load :: "nat \<Rightarrow> u32 \<Rightarrow> 'h \<Rightarrow> u32 \<times> 'h"
  bus_store :: "nat \<Rightarrow> u32 \<Rightarrow> u32 \<Rightarrow> 'h \<Rightarrow> 'h"

definition read8 :: "'h bus \<Rightarrow> u32 \<Rightarrow> 'h \<Rightarrow> u8 \<times> 'h" where
  "read8 b a h = (case bus_load b 1 a h of (v, h) \<Rightarrow> (ucast v, h))"

definition write8 :: "'h bus \<Rightarrow> u32 \<Rightarrow> u8 \<Rightarrow> 'h \<Rightarrow> 'h" where
  "write8 b a v h = bus_store b 1 a (ucast v) h"

definition read16 :: "'h bus \<Rightarrow> u32 \<Rightarrow> 'h \<Rightarrow> u16 \<times> 'h" where
  "read16 b a h = (case bus_load b 2 a h of (v, h) \<Rightarrow> (ucast v, h))"

definition write16 :: "'h bus \<Rightarrow> u32 \<Rightarrow> u16 \<Rightarrow> 'h \<Rightarrow> 'h" where
  "write16 b a v h = bus_store b 2 a (ucast v) h"

definition read16_le :: "'h bus \<Rightarrow> u32 \<Rightarrow> 'h \<Rightarrow> u16 \<times> 'h" where
  "read16_le b a h = (case bus_load b 2 a h of (v, h) \<Rightarrow> (LE16 (ucast v), h))"

definition write16_le :: "'h bus \<Rightarrow> u32 \<Rightarrow> u16 \<Rightarrow> 'h \<Rightarrow> 'h" where
  "write16_le b a v h = bus_store b 2 a (ucast (LE16 v)) h"

definition read32 :: "'h bus \<Rightarrow> u32 \<Rightarrow> 'h \<Rightarrow> u32 \<times> 'h" where
  "read32 b a h = bus_load b 4 a h"

definition write32 :: "'h bus \<Rightarrow> u32 \<Rightarrow> u32 \<Rightarrow> 'h \<Rightarrow> 'h" where
  "write32 b a v h = bus_store b 4 a v h"

definition read32_le :: "'h bus \<Rightarrow> u32 \<Rightarrow> 'h \<Rightarrow> u32 \<times> 'h" where
  "read32_le b a h = (case bus_load b 4 a h of (v, h) \<Rightarrow> (LE32 v, h))"

definition write32_le :: "'h bus \<Rightarrow> u32 \<Rightarrow> u32 \<Rightarrow> 'h \<Rightarrow> 'h" where
  "write32_le b a v h = bus_store b 4 a (LE32 v) h"

subsection \<open>pci.c\<close>

text \<open>The static variables of \<open>pci.c\<close>, beside the hardware they drive.\<close>

record 'h pci_state =
  hw :: 'h
  pci_conf_addr :: u32
  pci_data_addr :: u32

definition pci_set_addr :: "u32 \<Rightarrow> u32 \<Rightarrow> ('h, 'x) pci_state_scheme \<Rightarrow> ('h, 'x) pci_state_scheme" where
  "pci_set_addr conf_addr data_addr s = s\<lparr>pci_conf_addr := conf_addr, pci_data_addr := data_addr\<rparr>"

definition pci_set_conf_addr :: "'h bus \<Rightarrow> u32 \<Rightarrow> u16 \<Rightarrow> ('h, 'x) pci_state_scheme \<Rightarrow> ('h, 'x) pci_state_scheme" where
  "pci_set_conf_addr b device reg s =
     s\<lparr>hw := write32_le b (pci_conf_addr s) (device OR (ucast reg AND NOT 3) OR push_bit 31 1) (hw s)\<rparr>"

definition pci_read_config8 :: "'h bus \<Rightarrow> u32 \<Rightarrow> u16 \<Rightarrow> ('h, 'x) pci_state_scheme \<Rightarrow> u8 \<times> ('h, 'x) pci_state_scheme" where
  "pci_read_config8 b device reg s =
     (let s = pci_set_conf_addr b device reg s in
      case read8 b (pci_data_addr s + (ucast reg AND 3)) (hw s) of (v, h) \<Rightarrow> (v, s\<lparr>hw := h\<rparr>))"

definition pci_read_config16 :: "'h bus \<Rightarrow> u32 \<Rightarrow> u16 \<Rightarrow> ('h, 'x) pci_state_scheme \<Rightarrow> u16 \<times> ('h, 'x) pci_state_scheme" where
  "pci_read_config16 b device reg s =
     (let s = pci_set_conf_addr b device reg s in
      case read16_le b (pci_data_addr s + (ucast reg AND 2)) (hw s) of (v, h) \<Rightarrow> (v, s\<lparr>hw := h\<rparr>))"

definition pci_read_config32 :: "'h bus \<Rightarrow> u32 \<Rightarrow> u16 \<Rightarrow> ('h, 'x) pci_state_scheme \<Rightarrow> u32 \<times> ('h, 'x) pci_state_scheme" where
  "pci_read_config32 b device reg s =
     (let s = pci_set_conf_addr b device reg s in
      case read32_le b (pci_data_addr s) (hw s) of (v, h) \<Rightarrow> (v, s\<lparr>hw := h\<rparr>))"

definition pci_write_config8 :: "'h bus \<Rightarrow> u32 \<Rightarrow> u16 \<Rightarrow> u8 \<Rightarrow> ('h, 'x) pci_state_scheme \<Rightarrow> ('h, 'x) pci_state_scheme" where
  "pci_write_config8 b device reg val s =
     (let s = pci_set_conf_addr b device reg s in
      s\<lparr>hw := write8 b (pci_data_addr s + (ucast reg AND 3)) val (hw s)\<rparr>)"

definition pci_write_config16 :: "'h bus \<Rightarrow> u32 \<Rightarrow> u16 \<Rightarrow> u16 \<Rightarrow> ('h, 'x) pci_state_scheme \<Rightarrow> ('h, 'x) pci_state_scheme" where
  "pci_write_config16 b device reg val s =
     (let s = pci_set_conf_addr b device reg s in
      s\<lparr>hw := write16_le b (pci_data_addr s + (ucast reg AND 2)) val (hw s)\<rparr>)"

definition pci_write_config32 :: "'h bus \<Rightarrow> u32 \<Rightarrow> u16 \<Rightarrow> u32 \<Rightarrow> ('h, 'x) pci_state_scheme \<Rightarrow> ('h, 'x) pci_state_scheme" where
  "pci_write_config32 b device reg val s =
     (let s = pci_set_conf_addr b device reg s in
      s\<lparr>hw := write32_le b (pci_data_addr s) val (hw s)\<rparr>)"

text \<open>The macros of \<open>pci.h\<close>.\<close>

definition PCI_DEV :: "u32 \<Rightarrow> u32 \<Rightarrow> u32 \<Rightarrow> u32" where
  "PCI_DEV bus dev fn = 0x80000000 OR push_bit 16 bus OR push_bit 11 dev OR push_bit 8 fn"

definition PCI_BUS :: "u32 \<Rightarrow> u32" where "PCI_BUS d = drop_bit 16 d AND 0xff"
definition PCI_SLOT :: "u32 \<Rightarrow> u32" where "PCI_SLOT d = drop_bit 11 d AND 0x1f"
definition PCI_FUNC :: "u32 \<Rightarrow> u32" where "PCI_FUNC d = drop_bit 8 d AND 7"
definition PCI_BAR :: "nat \<Rightarrow> u16" where "PCI_BAR i = 0x10 + 4 * of_nat i"

lemma word_bit_less:
  assumes "bit (x :: u32) n" "x < 2 ^ k" "k \<le> 31"
  shows "n < k"
proof -
  have "(2 :: nat) ^ k < 2 ^ 32" using assms(3) by (intro power_strict_increasing) simp_all
  then have "unat (2 ^ k :: u32) = 2 ^ k" using unat_of_nat32 [of "2 ^ k"] by simp
  then have "unat x < 2 ^ k" using assms(2) by (simp only: word_less_nat_alt)
  moreover have "bit (unat x) n" using assms(1) by (simp add: bit_unsigned_iff bit_imp_le_length)
  ultimately show ?thesis by (rule nat_bit_less [rotated])
qed

lemma bit_enable: "bit (0x80000000 :: u32) n \<longleftrightarrow> n = 31"
proof -
  have "(0x80000000 :: u32) = 2 ^ 31" by simp
  then show ?thesis by (simp only: bit_exp_iff) auto
qed

lemma literal_masks:
  "(0xff :: u32) = mask 8" "(0x1f :: u32) = mask 5" "(7 :: u32) = mask 3"
  "(3 :: u32) = mask 2"
  by (simp_all add: mask_eq_exp_minus_1)

lemma PCI_DEV_bit:
  assumes "bus < 2 ^ 8" "slot < 2 ^ 5" "func < 2 ^ 3"
  shows "bit (PCI_DEV bus slot func) n \<longleftrightarrow> n < 32 \<and> (n = 31 \<or> 16 \<le> n \<and> n < 24 \<and> bit bus (n - 16) \<or>
    11 \<le> n \<and> n < 16 \<and> bit slot (n - 11) \<or> 8 \<le> n \<and> n < 11 \<and> bit func (n - 8))"
  using word_bit_less [OF _ assms(1), of "n - 16"] word_bit_less [OF _ assms(2), of "n - 11"]
    word_bit_less [OF _ assms(3), of "n - 8"]
  unfolding PCI_DEV_def by (auto simp: bit_or_iff bit_push_bit_iff bit_enable simp del: bit_numeral_word_iff)

text \<open>
  The device number that \<open>PCI_DEV\<close> composes is taken apart again by \<open>PCI_BUS\<close>, \<open>PCI_SLOT\<close> and
  \<open>PCI_FUNC\<close>.
\<close>

lemma pci_dev_fields:
  assumes "bus < 2 ^ 8" "slot < 2 ^ 5" "func < 2 ^ 3"
  shows "PCI_BUS (PCI_DEV bus slot func) = bus \<and> PCI_SLOT (PCI_DEV bus slot func) = slot \<and>
    PCI_FUNC (PCI_DEV bus slot func) = func"
proof (intro conjI; rule bit_word_eqI)
  fix n
  note small = word_bit_less [OF _ assms(1), of n] word_bit_less [OF _ assms(2), of n] word_bit_less [OF _ assms(3), of n]
  show "bit (PCI_BUS (PCI_DEV bus slot func)) n = bit bus n"
    using small unfolding PCI_BUS_def literal_masks
    by (auto simp: bit_and_iff bit_mask_iff bit_drop_bit_eq PCI_DEV_bit [OF assms])
  show "bit (PCI_SLOT (PCI_DEV bus slot func)) n = bit slot n"
    using small unfolding PCI_SLOT_def literal_masks
    by (auto simp: bit_and_iff bit_mask_iff bit_drop_bit_eq PCI_DEV_bit [OF assms])
  show "bit (PCI_FUNC (PCI_DEV bus slot func)) n = bit func n"
    using small unfolding PCI_FUNC_def literal_masks
    by (auto simp: bit_and_iff bit_mask_iff bit_drop_bit_eq PCI_DEV_bit [OF assms])
qed

subsection \<open>The configuration port\<close>

text \<open>
  What the code relies on in the host bridge: a 32-bit little-endian address register at
  \<open>conf_addr\<close>, and a four-byte data port at \<open>data_addr\<close>. An access of \<open>n\<close> bytes at lane
  \<open>off\<close> of the data port is one configuration cycle at the latched address with its two low
  bits replaced by the lane; the cycle is little-endian. \<open>latch\<close> and \<open>devs\<close> view the
  hardware state, \<open>crd\<close> and \<open>cwr\<close> are the configuration cycles of the devices behind the bridge.
\<close>

definition swap_lanes :: "nat \<Rightarrow> u32 \<Rightarrow> u32" where
  "swap_lanes n v = (if n = 2 then ucast (LE16 (ucast v)) else if n = 4 then LE32 v else v)"

definition config_port ::
  "'h bus \<Rightarrow> u32 \<Rightarrow> u32 \<Rightarrow> ('h \<Rightarrow> u32) \<Rightarrow> ('h \<Rightarrow> 'c) \<Rightarrow> (nat \<Rightarrow> u32 \<Rightarrow> 'c \<Rightarrow> u32 \<times> 'c)
   \<Rightarrow> (nat \<Rightarrow> u32 \<Rightarrow> u32 \<Rightarrow> 'c \<Rightarrow> 'c) \<Rightarrow> bool" where
  "config_port b conf_addr data_addr latch devs crd cwr \<longleftrightarrow>
     (\<forall>v h. latch (bus_store b 4 conf_addr v h) = LE32 v \<and> devs (bus_store b 4 conf_addr v h) = devs h) \<and>
     (\<forall>n off h. n \<in> {1, 2, 4} \<longrightarrow> off + n \<le> 4 \<longrightarrow> bit (latch h) 31 \<longrightarrow>
        fst (bus_load b n (data_addr + of_nat off) h) = swap_lanes n (fst (crd n ((latch h AND NOT 3) + of_nat off) (devs h))) \<and>
        devs (snd (bus_load b n (data_addr + of_nat off) h)) = snd (crd n ((latch h AND NOT 3) + of_nat off) (devs h))) \<and>
     (\<forall>n off v h. n \<in> {1, 2, 4} \<longrightarrow> off + n \<le> 4 \<longrightarrow> bit (latch h) 31 \<longrightarrow>
        devs (bus_store b n (data_addr + of_nat off) v h) = cwr n ((latch h AND NOT 3) + of_nat off) (swap_lanes n v) (devs h))"

lemma LE16_LE16: "LE16 (LE16 x) = x"
  by (rule bit_word_eqI) (auto simp: LE16_def bit_or_iff bit_push_bit_iff bit_drop_bit_eq dest: bit_imp_le_length)

lemma ucast16_32: "(ucast (ucast (x :: u16) :: u32) :: u16) = x"
  by (rule bit_word_eqI) (auto simp: bit_ucast_iff)

lemma bit_two: "bit (2 :: u32) n \<longleftrightarrow> n = 1"
proof -
  have "bit (2 ^ 1 :: u32) n \<longleftrightarrow> n = 1" by (simp only: bit_exp_iff) auto
  then show ?thesis by simp
qed

lemmas lane_bits = bit_or_iff bit_and_iff bit_not_iff bit_mask_iff bit_ucast_iff bit_enable bit_two

text \<open>The configuration address of a register: the enable bit, the device number and the register.\<close>

definition cycle_addr :: "u32 \<Rightarrow> u16 \<Rightarrow> u32" where
  "cycle_addr device reg = device OR ucast reg OR 0x80000000"

lemma lane_add:
  assumes "device AND 3 = 0" "\<And>n. bit lane n \<Longrightarrow> n < 2" "\<And>n. n < 2 \<Longrightarrow> bit lane n = bit reg n"
  shows "((device OR (ucast (reg :: u16) AND NOT 3) OR 0x80000000) AND NOT 3) + lane = cycle_addr device reg"
    (is "?a + _ = _")
proof -
  have dev: "\<not> bit device n" if "n < 2" for n
  proof -
    have "\<not> bit (device AND mask 2) n" using assms(1) unfolding literal_masks by simp
    then show ?thesis using that by (simp add: bit_and_iff bit_mask_iff)
  qed
  have "?a AND lane = 0"
    by (rule bit_eqI) (use assms(2) in \<open>auto simp: lane_bits literal_masks simp del: bit_numeral_word_iff\<close>)
  then have "?a + lane = ?a OR lane" by (rule disjunctive_add_eq_or)
  also have "\<dots> = cycle_addr device reg"
    unfolding cycle_addr_def
    by (rule bit_word_eqI)
      (use dev assms(2,3) in \<open>auto simp: lane_bits literal_masks simp del: bit_numeral_word_iff\<close>)
  finally show ?thesis .
qed

lemma aligned_bits:
  assumes "reg AND mask k = (0 :: u16)" "n < k" "n < 16"
  shows "\<not> bit reg n"
proof -
  have "\<not> bit (reg AND mask k) n" using assms(1) by simp
  then show ?thesis using assms(2,3) by (simp add: bit_and_iff bit_mask_iff)
qed

lemma lane_unat: "unat (x AND 3 :: u32) \<le> 3" "unat (x AND 2 :: u32) \<le> 2"
  using word_and_le1 [of x 3] word_and_le1 [of x 2] by (simp_all add: word_le_nat_alt)

lemma bit_enabled: "bit (x OR 0x80000000 :: u32) 31"
  by (simp add: bit_or_iff bit_enable del: bit_numeral_word_iff)

text \<open>
  One access through the port: the address register is set, then a lane of the data port is
  read or written, which is one configuration cycle of the register.
\<close>

lemma port_addr:
  assumes "config_port b (pci_conf_addr s) (pci_data_addr s) latch devs crd cwr"
  shows "latch (hw (pci_set_conf_addr b device reg s)) = device OR (ucast reg AND NOT 3) OR 0x80000000"
    "devs (hw (pci_set_conf_addr b device reg s)) = devs (hw s)"
    "pci_data_addr (pci_set_conf_addr b device reg s) = pci_data_addr s"
  using assms unfolding config_port_def pci_set_conf_addr_def write32_le_def by (simp_all add: LE32_LE32)

lemma port_cycle:
  assumes port: "config_port b (pci_conf_addr s) (pci_data_addr s) latch devs crd cwr"
    and dev: "device AND 3 = 0" and n: "n \<in> {1, 2, 4}" "unat lane + n \<le> 4"
    and lane: "\<And>k. k < 2 \<Longrightarrow> bit lane k = bit reg k" "\<And>k. bit lane k \<Longrightarrow> k < 2"
  shows "fst (bus_load b n (pci_data_addr s + lane) (hw (pci_set_conf_addr b device reg s))) =
           swap_lanes n (fst (crd n (cycle_addr device reg) (devs (hw s))))"
    "devs (snd (bus_load b n (pci_data_addr s + lane) (hw (pci_set_conf_addr b device reg s)))) =
           snd (crd n (cycle_addr device reg) (devs (hw s)))"
    "devs (bus_store b n (pci_data_addr s + lane) v (hw (pci_set_conf_addr b device reg s))) =
           cwr n (cycle_addr device reg) (swap_lanes n v) (devs (hw s))"
proof -
  let ?h = "hw (pci_set_conf_addr b device reg s)"
  note addr = port_addr [OF port, of device reg]
  have on: "bit (latch ?h) 31" unfolding addr by (simp only: or.assoc [symmetric] bit_enabled)
  have l: "of_nat (unat lane) = lane" by simp
  have at: "(latch ?h AND NOT 3) + lane = cycle_addr device reg"
    using lane_add [OF dev lane(2,1)] addr(1) by simp
  have "fst (bus_load b n (pci_data_addr s + of_nat (unat lane)) ?h) =
           swap_lanes n (fst (crd n ((latch ?h AND NOT 3) + of_nat (unat lane)) (devs ?h))) \<and>
    devs (snd (bus_load b n (pci_data_addr s + of_nat (unat lane)) ?h)) =
           snd (crd n ((latch ?h AND NOT 3) + of_nat (unat lane)) (devs ?h)) \<and>
    devs (bus_store b n (pci_data_addr s + of_nat (unat lane)) v ?h) =
           cwr n ((latch ?h AND NOT 3) + of_nat (unat lane)) (swap_lanes n v) (devs ?h)"
    using port on n unfolding config_port_def by blast
  then show "fst (bus_load b n (pci_data_addr s + lane) ?h) = swap_lanes n (fst (crd n (cycle_addr device reg) (devs (hw s))))"
    "devs (snd (bus_load b n (pci_data_addr s + lane) ?h)) = snd (crd n (cycle_addr device reg) (devs (hw s)))"
    "devs (bus_store b n (pci_data_addr s + lane) v ?h) = cwr n (cycle_addr device reg) (swap_lanes n v) (devs (hw s))"
    unfolding l at addr(2) by blast+
qed

lemma bit_lane8: "bit (ucast (reg :: u16) AND 3 :: u32) k \<longleftrightarrow> k < 2 \<and> bit reg k"
  unfolding literal_masks by (auto simp: bit_and_iff bit_mask_iff bit_ucast_iff)

lemma bit_lane16: "bit (ucast (reg :: u16) AND 2 :: u32) k \<longleftrightarrow> k = 1 \<and> bit reg k"
  by (auto simp: bit_and_iff bit_two bit_ucast_iff simp del: bit_numeral_word_iff)

lemma swap_lanes_ucast:
  "ucast (swap_lanes 1 v) = (ucast v :: u8)"
  "LE16 (ucast (swap_lanes 2 v)) = (ucast v :: u16)"
  "LE32 (swap_lanes 4 v) = v"
  "swap_lanes 1 v = v"
  "swap_lanes 2 (ucast (LE16 w)) = ucast w"
  "swap_lanes 4 (LE32 v) = v"
  by (simp_all add: swap_lanes_def LE16_LE16 LE32_LE32 ucast16_32)

text \<open>
  C17. Every configuration access of \<open>pci.c\<close> is exactly one configuration cycle, of the right
  width, at the register asked for: the value read is the value of the cycle, the value written
  is the one given, whatever the byte lane.
\<close>

theorem pci_config_access:
  assumes port: "config_port b (pci_conf_addr s) (pci_data_addr s) latch devs crd cwr"
    and dev: "device AND 3 = 0"
  shows "(fst (pci_read_config8 b device reg s) = ucast (fst (crd 1 (cycle_addr device reg) (devs (hw s)))) \<and>
    devs (hw (snd (pci_read_config8 b device reg s))) = snd (crd 1 (cycle_addr device reg) (devs (hw s))) \<and>
    devs (hw (pci_write_config8 b device reg v8 s)) = cwr 1 (cycle_addr device reg) (ucast v8) (devs (hw s))) \<and>
    (reg AND 1 = 0 \<longrightarrow>
      fst (pci_read_config16 b device reg s) = ucast (fst (crd 2 (cycle_addr device reg) (devs (hw s)))) \<and>
      devs (hw (snd (pci_read_config16 b device reg s))) = snd (crd 2 (cycle_addr device reg) (devs (hw s))) \<and>
      devs (hw (pci_write_config16 b device reg v16 s)) = cwr 2 (cycle_addr device reg) (ucast v16) (devs (hw s))) \<and>
    (reg AND 3 = 0 \<longrightarrow>
      fst (pci_read_config32 b device reg s) = fst (crd 4 (cycle_addr device reg) (devs (hw s))) \<and>
      devs (hw (snd (pci_read_config32 b device reg s))) = snd (crd 4 (cycle_addr device reg) (devs (hw s))) \<and>
      devs (hw (pci_write_config32 b device reg v32 s)) = cwr 4 (cycle_addr device reg) v32 (devs (hw s)))" (is "?r8 \<and> (_ \<longrightarrow> ?r16) \<and> (_ \<longrightarrow> ?r32)")
proof -
  note rw = port_addr(3) [OF port] swap_lanes_ucast Let_def case_prod_beta
  note defs = pci_read_config8_def pci_write_config8_def pci_read_config16_def pci_write_config16_def
    pci_read_config32_def pci_write_config32_def read8_def write8_def read16_le_def write16_le_def read32_le_def write32_le_def
  have small: "unat (ucast reg AND 3 :: u32) + 1 \<le> 4" "unat (ucast reg AND 2 :: u32) + 2 \<le> 4" "unat (0 :: u32) + 4 \<le> 4"
    using lane_unat [of "ucast reg"] by simp_all
  have "bit (ucast reg AND 3 :: u32) k = bit reg k" if "k < 2" for k using that by (simp add: bit_lane8)
  moreover have "k < 2" if "bit (ucast reg AND 3 :: u32) k" for k using that by (simp add: bit_lane8)
  ultimately have c1: "?r8"
    using port_cycle [OF port dev _ small(1), of reg] unfolding defs by (simp add: rw del: One_nat_def)
  have c2: ?r16 if "reg AND 1 = 0"
  proof -
    have "\<not> bit reg 0" using that aligned_bits [of reg 1 0] by (simp add: mask_eq_exp_minus_1)
    then have "bit (ucast reg AND 2 :: u32) k = bit reg k" if "k < 2" for k
      using that by (cases k) (simp_all add: bit_lane16)
    moreover have "k < 2" if "bit (ucast reg AND 2 :: u32) k" for k using that by (simp add: bit_lane16)
    ultimately show ?thesis
      using port_cycle [OF port dev _ small(2), of reg] unfolding defs by (simp add: rw)
  qed
  have c4: ?r32 if "reg AND 3 = 0"
  proof -
    have "bit (0 :: u32) k = bit reg k" if "k < 2" for k
      using that \<open>reg AND 3 = 0\<close> aligned_bits [of reg 2 k] by (simp add: mask_eq_exp_minus_1)
    then show ?thesis
      using port_cycle [OF port dev _ small(3), of reg] unfolding defs by (simp add: rw)
  qed
  from c1 c2 c4 show ?thesis by blast
qed

text \<open>
  A host bridge that satisfies the hypothesis: the address register and one cell per
  configuration address.
\<close>

definition plain_bridge :: "u32 \<Rightarrow> u32 \<Rightarrow> (u32 \<times> (u32 \<Rightarrow> u32)) bus" where
  "plain_bridge conf_addr data_addr =
     \<lparr>bus_load = (\<lambda>n a (l, c). (if a - data_addr < 4 then swap_lanes n (c ((l AND NOT 3) + (a - data_addr))) else 0, l, c)),
      bus_store = (\<lambda>n a v (l, c). if a = conf_addr then (LE32 v, c)
         else if a - data_addr < 4 then (l, c((l AND NOT 3) + (a - data_addr) := swap_lanes n v)) else (l, c))\<rparr>"

lemma plain_bridge_port:
  assumes "\<not> conf_addr - data_addr < 4"
  shows "config_port (plain_bridge conf_addr data_addr) conf_addr data_addr fst snd
    (\<lambda>n a c. (c a, c)) (\<lambda>n a v c. c(a := v))"
proof -
  have "(of_nat off :: u32) < 4" if "off + n \<le> 4" "n \<in> {1, 2, 4}" for off n :: nat
    using that by (auto simp: word_less_nat_alt unat_of_nat32)
  moreover from this have "data_addr + of_nat off \<noteq> conf_addr" if "off + n \<le> 4" "n \<in> {1, 2, 4}" for off n :: nat
    using that assms by fastforce
  ultimately show ?thesis
    unfolding config_port_def plain_bridge_def by (auto simp: fun_upd_def split: prod.splits)
qed

theorem pci_config_access_witness:
  "fst (pci_read_config8 (plain_bridge 0xfec00cf8 0xfee00cfc) (PCI_DEV 0 7 1) 0x3d
     \<lparr>hw = (0, \<lambda>a. if a = 0x8000393d then 5 else 0), pci_conf_addr = 0xfec00cf8, pci_data_addr = 0xfee00cfc\<rparr>) = 5"
proof -
  have port: "config_port (plain_bridge 0xfec00cf8 0xfee00cfc) 0xfec00cf8 0xfee00cfc fst snd
      (\<lambda>n a c. (c a, c)) (\<lambda>n a v c. c(a := v))"
    by (rule plain_bridge_port) simp
  show ?thesis
    using pci_config_access [where s = "\<lparr>hw = (0, \<lambda>a. if a = 0x8000393d then 5 else 0), pci_conf_addr = 0xfec00cf8,
        pci_data_addr = 0xfee00cfc\<rparr>" and device = "PCI_DEV 0 7 1" and reg = "0x3d", simplified, OF port]
    by (simp add: PCI_DEV_def cycle_addr_def)
qed

end
