(* ===== verification/Console.thy ===== *)
theory Console
  imports CString Pci
begin

text \<open>
  Console output: \<open>drivers/console.c\<close>, and the serial port behind it, \<open>drivers/uart8250mem.c\<close>. The
  linked list of output drivers is the list of their \<open>write\<close> functions, the last one added first;
  each driver is added once, as in \<open>start\<close>. The serial port is driven over an arbitrary bus.
\<close>

subsection \<open>console.c\<close>

type_synonym 's driver = "u8 list \<Rightarrow> 's \<Rightarrow> 's"

definition console_add_output_driver :: "'s driver \<Rightarrow> 's driver list \<Rightarrow> 's driver list" where
  "console_add_output_driver out console_out = out # console_out"

definition write_all :: "'s driver list \<Rightarrow> u8 list \<Rightarrow> 's \<Rightarrow> 's" where
  "write_all console_out xs s = fold (\<lambda>out. out xs) console_out s"

abbreviation NL :: u8 where "NL \<equiv> 10"
abbreviation CR :: u8 where "CR \<equiv> 13"

definition putchar :: "'s driver list \<Rightarrow> u8 \<Rightarrow> 's \<Rightarrow> u8 \<times> 's" where
  "putchar console_out c s =
     (c, fold (\<lambda>out. if c = NL then out [CR, NL] else out [c]) console_out s)"

text \<open>\<open>putchars\<close> on the \<open>n\<close> bytes at \<open>s\<close>: a line is written as one piece, a line feed by \<open>putchar\<close>.\<close>

function putchars :: "'s driver list \<Rightarrow> u8 list \<Rightarrow> 's \<Rightarrow> 's" where
  "putchars console_out xs s =
     (if xs = [] then s else
      let line = takeWhile (\<lambda>c. c \<noteq> NL) xs;
          rest = dropWhile (\<lambda>c. c \<noteq> NL) xs;
          s = (if line \<noteq> [] then write_all console_out line s else s) in
      case rest of
        [] \<Rightarrow> s
      | c # cs \<Rightarrow> putchars console_out cs (snd (putchar console_out NL s)))"
  by pat_completeness auto
termination
proof (relation "measure (\<lambda>(co, xs, s). length xs)", goal_cases)
  case (2 co xs s x xa xb c cs)
  then have "length (c # cs) \<le> length xs" by (metis length_dropWhile_le)
  then show ?case by simp
qed simp

declare putchars.simps [simp del]

definition puts :: "'s driver list \<Rightarrow> cstr \<Rightarrow> 's \<Rightarrow> (nat \<times> 's) option" where
  "puts console_out str s =
     Option.bind (strlen str) (\<lambda>n.
       let s = putchars console_out (map str [0..<n]) s in
       Some (n + 1, snd (putchar console_out NL s)))"

subsection \<open>uart8250mem.c\<close>

definition uart_baudrate_divisor :: "u32 \<Rightarrow> u32 \<Rightarrow> u32 \<Rightarrow> u32" where
  "uart_baudrate_divisor baudrate refclk oversample = (1 + (2 * refclk) div (baudrate * oversample)) div 2"

abbreviation UART_LSR :: u32 where "UART_LSR \<equiv> 5"
abbreviation SINGLE_CHAR_TIMEOUT :: nat where "SINGLE_CHAR_TIMEOUT \<equiv> 50 * 1000"
abbreviation FIFO_TIMEOUT :: nat where "FIFO_TIMEOUT \<equiv> 16 * SINGLE_CHAR_TIMEOUT"

definition uart8250_mem_can_tx_byte :: "'h bus \<Rightarrow> u32 \<Rightarrow> 'h \<Rightarrow> bool \<times> 'h" where
  "uart8250_mem_can_tx_byte b base_port h = (case read8 b (base_port + UART_LSR) h of (v, h) \<Rightarrow> (v AND 0x20 \<noteq> 0, h))"

definition uart8250_mem_can_rx_byte :: "'h bus \<Rightarrow> u32 \<Rightarrow> 'h \<Rightarrow> bool \<times> 'h" where
  "uart8250_mem_can_rx_byte b base_port h = (case read8 b (base_port + UART_LSR) h of (v, h) \<Rightarrow> (v AND 0x01 \<noteq> 0, h))"

definition uart8250_mem_is_empty :: "'h bus \<Rightarrow> u32 \<Rightarrow> 'h \<Rightarrow> bool \<times> 'h" where
  "uart8250_mem_is_empty b base_port h = (case read8 b (base_port + UART_LSR) h of (v, h) \<Rightarrow> (v AND 0x40 \<noteq> 0, h))"

text \<open>
  The polling loops \<open>while (i-- && !ready)\<close>: the final value of \<open>i\<close>, an \<open>unsigned long\<close>, which is
  \<open>-1\<close> when the loop gave up, and the hardware.
\<close>

fun poll :: "('h \<Rightarrow> bool \<times> 'h) \<Rightarrow> nat \<Rightarrow> 'h \<Rightarrow> u32 \<times> 'h" where
  "poll ready 0 h = (- 1, h)"
| "poll ready (Suc i) h = (case ready h of (r, h) \<Rightarrow> if r then (of_nat i, h) else poll ready i h)"

definition uart8250_mem_tx_byte :: "'h bus \<Rightarrow> u32 \<Rightarrow> u8 \<Rightarrow> 'h \<Rightarrow> 'h" where
  "uart8250_mem_tx_byte b base_port data h =
     write8 b base_port data (snd (poll (uart8250_mem_can_tx_byte b base_port) SINGLE_CHAR_TIMEOUT h))"

definition uart8250_mem_tx_flush :: "'h bus \<Rightarrow> u32 \<Rightarrow> 'h \<Rightarrow> 'h" where
  "uart8250_mem_tx_flush b base_port h = snd (poll (uart8250_mem_is_empty b base_port) FIFO_TIMEOUT h)"

definition uart8250_mem_rx_byte :: "'h bus \<Rightarrow> u32 \<Rightarrow> 'h \<Rightarrow> u8 \<times> 'h" where
  "uart8250_mem_rx_byte b base_port h =
     (case poll (uart8250_mem_can_rx_byte b base_port) SINGLE_CHAR_TIMEOUT h of (i, h) \<Rightarrow>
        if i \<noteq> 0 then read8 b base_port h else (0, h))"

definition uart8250_mem_init :: "'h bus \<Rightarrow> u32 \<Rightarrow> u32 \<Rightarrow> 'h \<Rightarrow> 'h" where
  "uart8250_mem_init b base_port divisor h =
     (let h = write8 b (base_port + 1) 0 h;
          h = write8 b (base_port + 2) 1 h;
          h = write8 b (base_port + 4) (1 OR 2) h;
          h = write8 b (base_port + 3) (0x80 OR 3) h;
          h = write8 b base_port (ucast (divisor AND 0xFF)) h;
          h = write8 b (base_port + 1) (ucast (drop_bit 8 divisor AND 0xFF)) h in
      write8 b (base_port + 3) 3 h)"

definition uart_init :: "'h bus \<Rightarrow> u32 \<Rightarrow> 'h \<Rightarrow> 'h" where
  "uart_init b base h =
     (if base = 0 then h else uart8250_mem_init b base (uart_baudrate_divisor 115200 115200 1) h)"

definition uart_tx_byte :: "'h bus \<Rightarrow> u32 \<Rightarrow> u8 \<Rightarrow> 'h \<Rightarrow> 'h" where
  "uart_tx_byte b base data h = (if base = 0 then h else uart8250_mem_tx_byte b base data h)"

definition uart_rx_byte :: "'h bus \<Rightarrow> u32 \<Rightarrow> 'h \<Rightarrow> u8 \<times> 'h" where
  "uart_rx_byte b base h = (if base = 0 then (0xff, h) else uart8250_mem_rx_byte b base h)"

definition uart_tx_flush :: "'h bus \<Rightarrow> u32 \<Rightarrow> 'h \<Rightarrow> 'h" where
  "uart_tx_flush b base h = (if base = 0 then h else uart8250_mem_tx_flush b base h)"

text \<open>The serial driver of \<open>bboot.c\<close>.\<close>

definition serial_write :: "'h bus \<Rightarrow> u32 \<Rightarrow> 'h driver" where
  "serial_write b serial_base xs h = fold (uart_tx_byte b serial_base) xs h"

subsection \<open>What arrives at the other end\<close>

text \<open>
  \<open>crlf\<close> is the text with every line feed preceded by a carriage return. A console \<open>logs\<close> to \<open>sent\<close>
  when writing a piece to all its drivers, while they are \<open>up\<close>, appends the piece there and leaves them up.
\<close>

definition crlf :: "u8 list \<Rightarrow> u8 list" where
  "crlf xs = concat (map (\<lambda>c. if c = NL then [CR, NL] else [c]) xs)"

definition logs :: "'s driver list \<Rightarrow> ('s \<Rightarrow> bool) \<Rightarrow> ('s \<Rightarrow> u8 list) \<Rightarrow> bool" where
  "logs console_out up sent \<longleftrightarrow>
     (\<forall>xs s. up s \<longrightarrow> sent (write_all console_out xs s) = sent s @ xs \<and> up (write_all console_out xs s))"

lemma crlf_append: "crlf (xs @ ys) = crlf xs @ crlf ys"
  by (simp add: crlf_def)

lemma crlf_plain: "NL \<notin> set xs \<Longrightarrow> crlf xs = xs"
  by (induction xs) (auto simp: crlf_def)

lemma putchar_sent: "logs console_out up sent \<Longrightarrow> up s \<Longrightarrow>
    sent (snd (putchar console_out c s)) = sent s @ crlf [c] \<and> up (snd (putchar console_out c s))"
  unfolding logs_def write_all_def putchar_def crlf_def
  by (cases "c = NL") simp_all

lemma putchars_sent:
  assumes logs: "logs console_out up sent"
  shows "up s \<Longrightarrow> sent (putchars console_out xs s) = sent s @ crlf xs \<and> up (putchars console_out xs s)"
proof (induction "length xs" arbitrary: xs s rule: less_induct)
  case less
  let ?line = "takeWhile (\<lambda>c. c \<noteq> NL) xs" and ?rest = "dropWhile (\<lambda>c. c \<noteq> NL) xs"
  let ?s = "if ?line \<noteq> [] then write_all console_out ?line s else s"
  have line: "crlf ?line = ?line" by (rule crlf_plain) (auto dest: set_takeWhileD)
  have s: "sent ?s = sent s @ crlf ?line" "up ?s" using logs less.prems by (simp_all add: logs_def line)
  have xs: "crlf xs = crlf ?line @ crlf ?rest" by (simp flip: crlf_append)
  show ?case
  proof (cases ?rest)
    case Nil
    have "crlf ([] :: u8 list) = []" by (simp add: crlf_def)
    then show ?thesis using s xs Nil less.prems by (simp add: putchars.simps [of console_out xs s] Let_def del: dropWhile_eq_Nil_conv)
  next
    case (Cons c cs)
    then have c: "c = NL" by (simp add: dropWhile_eq_Cons_conv)
    have "length (c # cs) \<le> length xs" using Cons by (metis length_dropWhile_le)
    then have "sent (putchars console_out cs (snd (putchar console_out NL ?s))) = sent ?s @ crlf [NL] @ crlf cs \<and>
        up (putchars console_out cs (snd (putchar console_out NL ?s)))"
      using less.hyps [of cs] putchar_sent [OF logs s(2)] by simp
    moreover have "xs \<noteq> []" using Cons by auto
    ultimately show ?thesis
      using s xs Cons c crlf_append [of "[NL]" cs] by (simp add: putchars.simps [of console_out xs s] Let_def)
  qed
qed

lemma puts_sent:
  assumes "logs console_out up sent" "cstring str xs" "up s"
  shows "\<exists>s'. puts console_out str s = Some (length xs + 1, s') \<and> sent s' = sent s @ crlf (xs @ [NL]) \<and> up s'"
proof -
  have "map str [0..<length xs] = xs"
    using cstringD(1) [OF assms(2)] by (intro nth_equalityI) simp_all
  then show ?thesis
    by (simp add: puts_def strlen_cstring [OF assms(2)] putchar_sent [OF assms(1)] putchars_sent [OF assms(1,3)] crlf_append)
qed

text \<open>
  What the serial driver relies on in a port that is set up (\<open>up\<close>): reading the line status sends nothing,
  keeps it set up and tells whether the transmitter is ready (\<open>thre\<close>), which it becomes within the time the driver
  waits, and a byte written to a ready transmitter is sent. \<open>reads n\<close> is the hardware after \<open>n\<close> status reads.
\<close>

fun reads :: "'h bus \<Rightarrow> u32 \<Rightarrow> nat \<Rightarrow> 'h \<Rightarrow> 'h" where
  "reads b base 0 h = h"
| "reads b base (Suc n) h = reads b base n (snd (read8 b (base + UART_LSR) h))"

definition uart_port :: "'h bus \<Rightarrow> u32 \<Rightarrow> ('h \<Rightarrow> bool) \<Rightarrow> ('h \<Rightarrow> bool) \<Rightarrow> ('h \<Rightarrow> u8 list) \<Rightarrow> bool" where
  "uart_port b base up thre sent \<longleftrightarrow>
     (\<forall>h. up h \<longrightarrow> sent (snd (read8 b (base + UART_LSR) h)) = sent h \<and> up (snd (read8 b (base + UART_LSR) h))) \<and>
     (\<forall>h. up h \<longrightarrow> (thre (snd (read8 b (base + UART_LSR) h)) \<longleftrightarrow> fst (read8 b (base + UART_LSR) h) AND 0x20 \<noteq> 0)) \<and>
     (\<forall>h. up h \<longrightarrow> (\<exists>k < SINGLE_CHAR_TIMEOUT. fst (read8 b (base + UART_LSR) (reads b base k h)) AND 0x20 \<noteq> 0)) \<and>
     (\<forall>v h. up h \<longrightarrow> thre h \<longrightarrow> sent (write8 b base v h) = sent h @ [v] \<and> up (write8 b base v h))"

text \<open>
  The registers of an 8250 (\<open>uart8250reg.h\<close>): while the divisor latch bit of the line control register is set,
  offsets 0 and 1 are the divisor, so that nothing written there is sent; while bit 4 of the modem control register
  is set the port is looped back. Each bit changes with its own register only. With both clear the port is set up.
  Nothing but the transmitter register sends.
\<close>

definition uart_chip :: "'h bus \<Rightarrow> u32 \<Rightarrow> ('h \<Rightarrow> bool) \<Rightarrow> ('h \<Rightarrow> bool) \<Rightarrow> ('h \<Rightarrow> bool) \<Rightarrow> ('h \<Rightarrow> u8 list) \<Rightarrow> bool" where
  "uart_chip b base dlab loop thre sent \<longleftrightarrow> uart_port b base (\<lambda>h. \<not> dlab h \<and> \<not> loop h) thre sent \<and>
     (\<forall>v h. dlab (write8 b (base + 3) v h) \<longleftrightarrow> v AND 0x80 \<noteq> 0) \<and>
     (\<forall>v h. loop (write8 b (base + 4) v h) \<longleftrightarrow> v AND 0x10 \<noteq> 0) \<and>
     (\<forall>n v h. n \<in> {1, 2, 4} \<longrightarrow> dlab (write8 b (base + n) v h) = dlab h) \<and>
     (\<forall>n v h. n \<in> {1, 2, 3} \<longrightarrow> loop (write8 b (base + n) v h) = loop h) \<and>
     (\<forall>n v h. n \<in> {1, 2, 3, 4} \<longrightarrow> sent (write8 b (base + n) v h) = sent h) \<and>
     (\<forall>v h. dlab h \<longrightarrow> dlab (write8 b base v h) \<and> loop (write8 b base v h) = loop h \<and> sent (write8 b base v h) = sent h)"

lemma uart_chip_init:
  assumes "uart_chip b base dlab loop thre sent" "base \<noteq> 0"
  shows "\<not> dlab (uart_init b base h) \<and> \<not> loop (uart_init b base h)" "sent (uart_init b base h) = sent h"
proof -
  have w: "dlab (write8 b (base + 3) v h) \<longleftrightarrow> v AND 0x80 \<noteq> 0" "loop (write8 b (base + 4) v h) \<longleftrightarrow> v AND 0x10 \<noteq> 0"
    "n \<in> {1, 2, 4} \<Longrightarrow> dlab (write8 b (base + n) v h) = dlab h" "n \<in> {1, 2, 3} \<Longrightarrow> loop (write8 b (base + n) v h) = loop h"
    "n \<in> {1, 2, 3, 4} \<Longrightarrow> sent (write8 b (base + n) v h) = sent h"
    "dlab h \<Longrightarrow> dlab (write8 b base v h)" "dlab h \<Longrightarrow> loop (write8 b base v h) = loop h"
    "dlab h \<Longrightarrow> sent (write8 b base v h) = sent h" for n v h
    using assms(1) unfolding uart_chip_def by (elim conjE; simp only: simp_thms)+
  show "\<not> dlab (uart_init b base h) \<and> \<not> loop (uart_init b base h)" "sent (uart_init b base h) = sent h"
    using assms(2) by (simp_all add: uart_init_def uart8250_mem_init_def Let_def w)
qed

lemma poll_ready:
  assumes "uart_port b base up thre sent"
  shows "up h \<Longrightarrow> k < n \<Longrightarrow> fst (read8 b (base + UART_LSR) (reads b base k h)) AND 0x20 \<noteq> 0 \<Longrightarrow>
    thre (snd (poll (uart8250_mem_can_tx_byte b base) n h)) \<and> sent (snd (poll (uart8250_mem_can_tx_byte b base) n h)) = sent h \<and>
    up (snd (poll (uart8250_mem_can_tx_byte b base) n h))"
proof (induction n arbitrary: k h)
  case (Suc n)
  obtain v h1 where r: "read8 b (base + UART_LSR) h = (v, h1)" by (cases "read8 b (base + UART_LSR) h")
  have h1: "sent h1 = sent h" "up h1" "thre h1 \<longleftrightarrow> v AND 0x20 \<noteq> 0"
    using assms r Suc.prems(1) unfolding uart_port_def by (metis fst_conv snd_conv)+
  show ?case
  proof (cases "v AND 0x20 \<noteq> 0")
    case True
    then show ?thesis using r h1 by (simp add: uart8250_mem_can_tx_byte_def)
  next
    case False
    then obtain k' where "k = Suc k'" using Suc.prems(3) r by (cases k) simp_all
    then show ?thesis using Suc.IH [of h1 k'] Suc.prems r h1 False by (simp add: uart8250_mem_can_tx_byte_def)
  qed
qed simp

lemma uart_tx_sent:
  assumes "uart_port b base up thre sent" "base \<noteq> 0" "up h"
  shows "sent (uart_tx_byte b base v h) = sent h @ [v] \<and> up (uart_tx_byte b base v h)"
proof -
  obtain k where "k < SINGLE_CHAR_TIMEOUT" "fst (read8 b (base + UART_LSR) (reads b base k h)) AND 0x20 \<noteq> 0"
    using assms(1,3) unfolding uart_port_def by blast
  from poll_ready [OF assms(1,3) this] show ?thesis
    using assms(1,2) unfolding uart_tx_byte_def uart8250_mem_tx_byte_def uart_port_def by simp
qed

lemma serial_write_sent:
  assumes "uart_port b base up thre sent" "base \<noteq> 0"
  shows "up h \<Longrightarrow> sent (serial_write b base xs h) = sent h @ xs \<and> up (serial_write b base xs h)"
  unfolding serial_write_def by (induction xs arbitrary: h) (simp_all add: uart_tx_sent [OF assms])

text \<open>
  C28. A string printed with \<open>puts\<close> on a console whose only driver is a serial port that is set up arrives there
  byte by byte, with its end of line, every line feed as carriage return and line feed; \<open>puts\<close>
  returns its length plus one.
\<close>

theorem puts_serial:
  assumes "uart_port b base up thre sent" "base \<noteq> 0" "cstring str xs" "up h"
  shows "\<exists>h'. puts (console_add_output_driver (serial_write b base) []) str h = Some (length xs + 1, h') \<and>
    sent h' = sent h @ crlf (xs @ [NL]) \<and> up h'"
proof (rule puts_sent)
  show "logs (console_add_output_driver (serial_write b base) []) up sent"
    by (simp add: logs_def console_add_output_driver_def write_all_def serial_write_sent [OF assms(1,2)])
qed (rule assms(3,4))+

text \<open>A port that is always ready, with its transmitted bytes as state.\<close>

definition ready_uart :: "u8 list bus" where
  "ready_uart = \<lparr>bus_load = \<lambda>_ _ h. (0x60, h), bus_store = \<lambda>_ _ v h. h @ [ucast v]\<rparr>"

lemma ucast8_32: "(ucast (ucast (x :: u8) :: u32) :: u8) = x"
  by (rule bit_word_eqI) (auto simp: bit_ucast_iff)

lemma ready_uart_port: "uart_port ready_uart base (\<lambda>_. True) (\<lambda>_. True) id"
  unfolding uart_port_def ready_uart_def read8_def write8_def
  by (auto intro: exI [of _ 0] simp: ucast8_32)

theorem puts_serial_witness:
  "\<exists>h'. puts (console_add_output_driver (serial_write ready_uart 0xfe0003f8) []) (lit ''BBoot'') [] = Some (6, h') \<and>
     h' = [0x42, 0x42, 0x6f, 0x6f, 0x74, 13, 10]"
proof -
  have "cstring (lit ''BBoot'') [0x42, 0x42, 0x6f, 0x6f, 0x74]"
    using cstring_lit [of "''BBoot''"] by (simp add: chars_def char_byte_def)
  from puts_serial [OF ready_uart_port _ this, of "0xfe0003f8" "[]"] show ?thesis by (simp add: crlf_def)
qed

text \<open>A machine with \<open>M\<close> bytes of memory, one cell per address, and an 8250 at \<open>base\<close>.\<close>

record uart_hw =
  hw_ram :: "u32 \<Rightarrow> u32"
  hw_dlab :: bool
  hw_loop :: bool
  hw_tx :: "u8 list"

definition uart_bus :: "u32 \<Rightarrow> u32 \<Rightarrow> uart_hw bus" where
  "uart_bus M base =
     \<lparr>bus_load = \<lambda>n a h. (if a < M then hw_ram h a else if a = base + UART_LSR then 0x60 else 0xffffffff, h),
      bus_store = \<lambda>n a v h.
        if a < M then h\<lparr>hw_ram := (hw_ram h)(a := v)\<rparr>
        else if a = base + 3 then h\<lparr>hw_dlab := v AND 0x80 \<noteq> 0\<rparr>
        else if a = base + 4 then h\<lparr>hw_loop := v AND 0x10 \<noteq> 0\<rparr>
        else if a = base \<and> \<not> hw_dlab h \<and> \<not> hw_loop h then h\<lparr>hw_tx := hw_tx h @ [ucast v]\<rparr> else h\<rparr>"

lemma ucast8_and: "(ucast (x :: u8) :: u32) AND 0x80 = 0 \<longleftrightarrow> x AND 0x80 = 0" "(ucast (x :: u8) :: u32) AND 0x10 = 0 \<longleftrightarrow> x AND 0x10 = 0"
proof -
  have "(ucast (x AND y) :: u32) = 0 \<longleftrightarrow> x AND y = 0" for y
    by (metis ucast8_32 unsigned_0)
  from this [of "0x80"] this [of "0x10"]
  show "(ucast x :: u32) AND 0x80 = 0 \<longleftrightarrow> x AND 0x80 = 0" "(ucast x :: u32) AND 0x10 = 0 \<longleftrightarrow> x AND 0x10 = 0"
    by (simp_all add: unsigned_and_eq)
qed

lemma uart_bus_chip: "uart_chip (uart_bus 0x10000000 0xfe0003f8) 0xfe0003f8 hw_dlab hw_loop (\<lambda>_. True) hw_tx"
  unfolding uart_chip_def uart_port_def uart_bus_def read8_def write8_def
  by (auto intro: exI [of _ 0] simp: ucast8_32 ucast8_and)

subsection \<open>Receiving\<close>

lemma poll_never:
  assumes "\<And>k. k < n \<Longrightarrow> fst (read8 b (base + UART_LSR) (reads b base k h)) AND 0x01 = 0"
  shows "poll (uart8250_mem_can_rx_byte b base) n h = (- 1, reads b base n h)"
  using assms
proof (induction n arbitrary: h)
  case (Suc n)
  obtain v h1 where r: "read8 b (base + UART_LSR) h = (v, h1)" by (cases "read8 b (base + UART_LSR) h")
  have "uart8250_mem_can_rx_byte b base h = (False, h1)"
    using Suc.prems [of 0] r by (simp add: uart8250_mem_can_rx_byte_def)
  moreover have "poll (uart8250_mem_can_rx_byte b base) n h1 = (- 1, reads b base n h1)"
  proof (rule Suc.IH)
    fix k assume "k < n"
    then show "fst (read8 b (base + UART_LSR) (reads b base k h1)) AND 0x01 = 0" using Suc.prems [of "Suc k"] r by simp
  qed
  ultimately show ?case using r by simp
qed simp

text \<open>
  C29. When no byte arrives while \<open>uart_rx_byte\<close> waits, it does not return 0 as the code means to: the
  counter has wrapped around to -1, and the data register is read all the same.
\<close>

theorem uart_rx_byte_timeout:
  assumes "base \<noteq> 0"
    and "\<And>k. k < SINGLE_CHAR_TIMEOUT \<Longrightarrow> fst (read8 b (base + UART_LSR) (reads b base k h)) AND 0x01 = 0"
  shows "uart_rx_byte b base h = read8 b base (reads b base SINGLE_CHAR_TIMEOUT h)"
proof -
  have "poll (uart8250_mem_can_rx_byte b base) SINGLE_CHAR_TIMEOUT h = (- 1, reads b base SINGLE_CHAR_TIMEOUT h)"
    by (rule poll_never) (rule assms(2))
  then show ?thesis using assms(1) by (simp add: uart_rx_byte_def uart8250_mem_rx_byte_def)
qed

lemma reads_const: "(\<And>h. snd (read8 b (base + UART_LSR) h) = h) \<Longrightarrow> reads b base n h = h"
  by (induction n arbitrary: h) simp_all

theorem uart_rx_byte_timeout_witness:
  "uart_rx_byte \<lparr>bus_load = \<lambda>_ a h. (if a = 0xfe0003f8 then 0x55 else 0, h), bus_store = \<lambda>_ _ _ h. h\<rparr> 0xfe0003f8 () = (0x55, ())"
proof -
  let ?b = "\<lparr>bus_load = \<lambda>_ a h. (if a = 0xfe0003f8 then 0x55 else 0, h), bus_store = \<lambda>_ _ _ h. h\<rparr> :: unit bus"
  have "reads ?b 0xfe0003f8 n () = ()" for n by simp
  then show ?thesis
    using uart_rx_byte_timeout [of "0xfe0003f8" ?b "()"] by (simp add: read8_def)
qed

end
