(* ===== verification/Prom.thy ===== *)
theory Prom
  imports Console
begin

text \<open>
  The Open Firmware client interface: \<open>drivers/prom.c\<close>. The firmware behind the entry point is a
  parameter, a \<open>client_interface\<close>: it gets the service and the arguments and may change memory, its
  own state \<open>'f\<close> and the objects passed to it by reference. An argument is a value, a string
  literal, or an object of the program (\<open>Buf\<close>), whose contents come back; pointers into memory are
  values. \<open>None\<close> is a call that does not return.
\<close>

datatype carg = Val u32 | Lit string | Buf "u8 list"

record prom_args =
  service :: string
  nargs :: nat
  nret :: nat
  args :: "carg list"

type_synonym 'f client_interface = "prom_args \<Rightarrow> mem \<Rightarrow> 'f \<Rightarrow> (carg list \<times> u32 list \<times> mem \<times> 'f) option"

abbreviation PROM_INVALID_HANDLE :: u32 where "PROM_INVALID_HANDLE \<equiv> - 1"

text \<open>The variables of \<open>prom.c\<close>; \<open>prom\<close> is the entry point, 0 before \<open>prom_init\<close>.\<close>

record 'f prom_state =
  prom :: u32
  prom_stdin :: u32
  prom_stdout :: u32
  prom_chosen :: u32
  prom_options :: u32
  pmem :: mem
  fw :: 'f

definition prom_cientry :: "'f prom_state \<Rightarrow> u32" where
  "prom_cientry s = prom s"

text \<open>
  \<open>call_prom\<close>: the first return cell, the arguments after the call and the state. The return cells
  are cleared before the call, so one the firmware leaves alone is 0.
\<close>

definition call_prom ::
  "'f client_interface \<Rightarrow> string \<Rightarrow> carg list \<Rightarrow> nat \<Rightarrow> 'f prom_state \<Rightarrow> (u32 \<times> carg list \<times> 'f prom_state) option" where
  "call_prom ci sv as nr s =
     (if prom s = 0 then Some (- 1, as, s)
      else Option.bind (ci \<lparr>service = sv, nargs = length as, nret = nr, args = as\<rparr> (pmem s) (fw s)) (\<lambda>(as, rets, m, f).
        Some (if nr > 0 then (case rets of [] \<Rightarrow> 0 | r # _ \<Rightarrow> r) else 0, as, s\<lparr>pmem := m, fw := f\<rparr>)))"

text \<open>A call that passes no object, and one whose argument \<open>i\<close> is an object.\<close>

definition call_val :: "'f client_interface \<Rightarrow> string \<Rightarrow> carg list \<Rightarrow> nat \<Rightarrow> 'f prom_state \<Rightarrow> (u32 \<times> 'f prom_state) option" where
  "call_val ci sv as nr s = Option.bind (call_prom ci sv as nr s) (\<lambda>(r, _, s). Some (r, s))"

definition obj :: "carg list \<Rightarrow> nat \<Rightarrow> u8 list \<Rightarrow> u8 list" where
  "obj as i xs = (if i < length as then case as ! i of Buf ys \<Rightarrow> ys | _ \<Rightarrow> xs else xs)"

definition prom_finddevice :: "'f client_interface \<Rightarrow> string \<Rightarrow> 'f prom_state \<Rightarrow> (u32 \<times> 'f prom_state) option" where
  "prom_finddevice ci name s = call_val ci ''finddevice'' [Lit name] 1 s"

definition prom_findpackage :: "'f client_interface \<Rightarrow> string \<Rightarrow> 'f prom_state \<Rightarrow> (u32 \<times> 'f prom_state) option" where
  "prom_findpackage ci pth s = call_val ci ''find-package'' [Lit pth] 1 s"

definition prom_child :: "'f client_interface \<Rightarrow> u32 \<Rightarrow> 'f prom_state \<Rightarrow> (u32 \<times> 'f prom_state) option" where
  "prom_child ci parent s = call_val ci ''child'' [Val parent] 1 s"

definition prom_parent :: "'f client_interface \<Rightarrow> u32 \<Rightarrow> 'f prom_state \<Rightarrow> (u32 \<times> 'f prom_state) option" where
  "prom_parent ci child s = call_val ci ''parent'' [Val child] 1 s"

definition prom_peer :: "'f client_interface \<Rightarrow> u32 \<Rightarrow> 'f prom_state \<Rightarrow> (u32 \<times> 'f prom_state) option" where
  "prom_peer ci ph s = call_val ci ''peer'' [Val ph] 1 s"

definition prom_nextprop :: "'f client_interface \<Rightarrow> u32 \<Rightarrow> string \<Rightarrow> u8 list \<Rightarrow> 'f prom_state \<Rightarrow> (int \<times> u8 list \<times> 'f prom_state) option" where
  "prom_nextprop ci pack name buf s =
     Option.bind (call_prom ci ''nextprop'' [Val pack, Lit name, Buf buf] 1 s) (\<lambda>(r, as, s). Some (sint r, obj as 2 buf, s))"

text \<open>\<open>prom_getprop\<close> into an object of the program, and into memory.\<close>

definition prom_getprop :: "'f client_interface \<Rightarrow> u32 \<Rightarrow> string \<Rightarrow> u8 list \<Rightarrow> u32 \<Rightarrow> 'f prom_state \<Rightarrow> (int \<times> u8 list \<times> 'f prom_state) option" where
  "prom_getprop ci pack name buf len s =
     Option.bind (call_prom ci ''getprop'' [Val pack, Lit name, Buf buf, Val len] 1 s) (\<lambda>(r, as, s). Some (sint r, obj as 2 buf, s))"

definition prom_getprop_at :: "'f client_interface \<Rightarrow> u32 \<Rightarrow> string \<Rightarrow> u32 \<Rightarrow> u32 \<Rightarrow> 'f prom_state \<Rightarrow> (int \<times> 'f prom_state) option" where
  "prom_getprop_at ci pack name a len s =
     Option.bind (call_val ci ''getprop'' [Val pack, Lit name, Val a, Val len] 1 s) (\<lambda>(r, s). Some (sint r, s))"

definition prom_getproplen :: "'f client_interface \<Rightarrow> u32 \<Rightarrow> string \<Rightarrow> 'f prom_state \<Rightarrow> (int \<times> 'f prom_state) option" where
  "prom_getproplen ci pack name s =
     Option.bind (call_val ci ''getproplen'' [Val pack, Lit name] 1 s) (\<lambda>(r, s). Some (sint r, s))"

definition prom_setprop :: "'f client_interface \<Rightarrow> u32 \<Rightarrow> string \<Rightarrow> u8 list \<Rightarrow> u32 \<Rightarrow> 'f prom_state \<Rightarrow> (int \<times> 'f prom_state) option" where
  "prom_setprop ci pack name buf len s =
     Option.bind (call_val ci ''setprop'' [Val pack, Lit name, Buf buf, Val len] 1 s) (\<lambda>(r, s). Some (sint r, s))"

definition prom_package_to_path :: "'f client_interface \<Rightarrow> u32 \<Rightarrow> u8 list \<Rightarrow> u32 \<Rightarrow> 'f prom_state \<Rightarrow> (int \<times> u8 list \<times> 'f prom_state) option" where
  "prom_package_to_path ci pack buf len s =
     Option.bind (call_prom ci ''package-to-path'' [Val pack, Buf buf, Val len] 1 s) (\<lambda>(r, as, s). Some (sint r, obj as 1 buf, s))"

definition prom_get_chosen :: "'f client_interface \<Rightarrow> string \<Rightarrow> u8 list \<Rightarrow> u32 \<Rightarrow> 'f prom_state \<Rightarrow> (int \<times> u8 list \<times> 'f prom_state) option" where
  "prom_get_chosen ci name buf len s = prom_getprop ci (prom_chosen s) name buf len s"

definition prom_get_options :: "'f client_interface \<Rightarrow> string \<Rightarrow> u8 list \<Rightarrow> u32 \<Rightarrow> 'f prom_state \<Rightarrow> (int \<times> u8 list \<times> 'f prom_state) option" where
  "prom_get_options ci name buf len s =
     (if prom_options s = PROM_INVALID_HANDLE then Some (- 1, buf, s)
      else prom_getprop ci (prom_options s) name buf len s)"

definition prom_set_options :: "'f client_interface \<Rightarrow> string \<Rightarrow> u8 list \<Rightarrow> u32 \<Rightarrow> 'f prom_state \<Rightarrow> (int \<times> 'f prom_state) option" where
  "prom_set_options ci name buf len s =
     (if prom_options s = PROM_INVALID_HANDLE then Some (- 1, s)
      else prom_setprop ci (prom_options s) name buf len s)"

subsection \<open>Output\<close>

definition prom_putchar :: "'f client_interface \<Rightarrow> u8 \<Rightarrow> 'f prom_state \<Rightarrow> 'f prom_state option" where
  "prom_putchar ci c s =
     (if c = 10 then Option.bind (call_val ci ''write'' [Val (prom_stdout s), Buf [13, 10], Val 2] 1 s) (\<lambda>(_, s). Some s)
      else Option.bind (call_val ci ''write'' [Val (prom_stdout s), Buf [c], Val 1] 1 s) (\<lambda>(_, s). Some s))"

definition prom_write_to :: "'f client_interface \<Rightarrow> u32 \<Rightarrow> u8 list \<Rightarrow> 'f prom_state \<Rightarrow> 'f prom_state option" where
  "prom_write_to ci file xs s =
     Option.bind (call_val ci ''write'' [Val file, Buf xs, Val (of_nat (length xs))] 1 s) (\<lambda>(_, s). Some s)"

text \<open>\<open>prom_puts\<close> on the bytes of the string before its NUL.\<close>

function prom_puts :: "'f client_interface \<Rightarrow> u32 \<Rightarrow> u8 list \<Rightarrow> 'f prom_state \<Rightarrow> 'f prom_state option" where
  "prom_puts ci file xs s =
     (if xs = [] then Some s else
      let line = takeWhile (\<lambda>c. c \<noteq> 10) xs;
          rest = dropWhile (\<lambda>c. c \<noteq> 10) xs in
      Option.bind (if line \<noteq> [] then prom_write_to ci file line s else Some s) (\<lambda>s.
        case rest of
          [] \<Rightarrow> Some s
        | c # cs \<Rightarrow> Option.bind (prom_write_to ci file [13, 10] s) (prom_puts ci file cs)))"
  by pat_completeness auto
termination
proof (relation "measure (\<lambda>(ci, file, xs, s). length xs)", goal_cases)
  case (2 ci fh xs s x xa s' c cs)
  then have "length (c # cs) \<le> length xs" by (metis length_dropWhile_le)
  then show ?case by simp
qed simp

declare prom_puts.simps [simp del]

definition prom_write :: "'f client_interface \<Rightarrow> u8 list \<Rightarrow> 'f prom_state \<Rightarrow> 'f prom_state option" where
  "prom_write ci xs s = prom_write_to ci (prom_stdout s) xs s"

definition prom_exit :: "'f client_interface \<Rightarrow> 'f prom_state \<Rightarrow> 'f prom_state option" where
  "prom_exit ci s = Option.bind (call_val ci ''exit'' [] 0 s) (\<lambda>(_, s). Some s)"

subsection \<open>Start and memory\<close>

text \<open>A big-endian cell of the program passed by reference.\<close>

definition word_bytes :: "u32 \<Rightarrow> u8 list" where
  "word_bytes v = [ucast (drop_bit 24 v), ucast (drop_bit 16 v), ucast (drop_bit 8 v), ucast v]"

definition bytes_word :: "u8 list \<Rightarrow> u32" where
  "bytes_word xs = push_bit 24 (ucast (xs ! 0)) OR push_bit 16 (ucast (xs ! 1)) OR push_bit 8 (ucast (xs ! 2)) OR ucast (xs ! 3)"

definition prom_init :: "'f client_interface \<Rightarrow> u32 \<Rightarrow> 'f prom_state \<Rightarrow> 'f prom_state option" where
  "prom_init ci pe s =
     Option.bind (prom_finddevice ci ''/chosen'' (s\<lparr>prom := pe\<rparr>)) (\<lambda>(c, s).
     let s = s\<lparr>prom_chosen := c\<rparr> in
     Option.bind (if c = - 1 then prom_exit ci s else Some s) (\<lambda>s.
     Option.bind (prom_finddevice ci ''/options'' s) (\<lambda>(o1, s).
     let s = s\<lparr>prom_options := o1\<rparr> in
     Option.bind (prom_get_chosen ci ''stdout'' (word_bytes (prom_stdout s)) 4 s) (\<lambda>(r, buf, s).
     let s = s\<lparr>prom_stdout := bytes_word buf\<rparr> in
     Option.bind (if r \<le> 0 then prom_exit ci s else Some s) (\<lambda>s.
     prom_puts ci (prom_stdout s) (10 # chars ''OF interface initialized'') s)))))"

definition prom_open :: "'f client_interface \<Rightarrow> string \<Rightarrow> 'f prom_state \<Rightarrow> (u32 \<times> 'f prom_state) option" where
  "prom_open ci spec s = call_val ci ''open'' [Lit spec] 1 s"

definition prom_close :: "'f client_interface \<Rightarrow> u32 \<Rightarrow> 'f prom_state \<Rightarrow> 'f prom_state option" where
  "prom_close ci file s = Option.bind (call_val ci ''close'' [Val file] 0 s) (\<lambda>(_, s). Some s)"

definition prom_claim :: "'f client_interface \<Rightarrow> u32 \<Rightarrow> u32 \<Rightarrow> u32 \<Rightarrow> 'f prom_state \<Rightarrow> (u32 \<times> 'f prom_state) option" where
  "prom_claim ci virt sz align s = call_val ci ''claim'' [Val virt, Val sz, Val align] 1 s"

definition prom_release :: "'f client_interface \<Rightarrow> u32 \<Rightarrow> u32 \<Rightarrow> 'f prom_state \<Rightarrow> (u32 \<times> 'f prom_state) option" where
  "prom_release ci virt sz s = call_val ci ''release'' [Val virt, Val sz] 0 s"

text \<open>
  \<open>prom_getargs\<close>: the static array of 256 bytes after the call; \<open>None\<close> inside is the store behind its
  end, or before its start, that the code does not guard against.
\<close>

definition prom_getargs :: "'f client_interface \<Rightarrow> u8 list \<Rightarrow> 'f prom_state \<Rightarrow> (u8 list option \<times> 'f prom_state) option" where
  "prom_getargs ci as s =
     Option.bind (prom_get_chosen ci ''bootargs'' as 255 s) (\<lambda>(l, as, s). Some (aset as l 0, s))"

definition prom_setargs :: "'f client_interface \<Rightarrow> u8 list \<Rightarrow> 'f prom_state \<Rightarrow> (int \<times> 'f prom_state) option" where
  "prom_setargs ci as s =
     Option.bind (call_val ci ''setprop'' [Val (prom_chosen s), Lit ''bootargs'', Buf (as @ [0]), Val (of_nat (length as) + 1)] 1 s)
       (\<lambda>(r, s). Some (sint r, s))"

subsection \<open>What the firmware prints\<close>

text \<open>
  The \<open>write\<close> service: it returns, appends the bytes it is given to what the file shows, and leaves
  other files alone. \<open>shown\<close> views the state of the firmware.
\<close>

definition fw_writes :: "'f client_interface \<Rightarrow> ('f \<Rightarrow> u32 \<Rightarrow> u8 list) \<Rightarrow> bool" where
  "fw_writes ci shown \<longleftrightarrow>
     (\<forall>fh xs m f. \<exists>as rets f'. ci \<lparr>service = ''write'', nargs = 3, nret = 1, args = [Val fh, Buf xs, Val (of_nat (length xs))]\<rparr> m f
         = Some (as, rets, m, f') \<and> shown f' = (shown f)(fh := shown f fh @ xs))"

lemma prom_write_to_shows:
  assumes "fw_writes ci shown" "prom s \<noteq> 0"
  shows "\<exists>f'. prom_write_to ci fh xs s = Some (s\<lparr>fw := f'\<rparr>) \<and> shown f' = (shown (fw s))(fh := shown (fw s) fh @ xs)"
proof -
  obtain as rets f' where "ci \<lparr>service = ''write'', nargs = 3, nret = 1, args = [Val fh, Buf xs, Val (of_nat (length xs))]\<rparr> (pmem s) (fw s)
      = Some (as, rets, pmem s, f')" "shown f' = (shown (fw s))(fh := shown (fw s) fh @ xs)"
    using assms(1) unfolding fw_writes_def by blast
  then show ?thesis using assms(2) by (cases s) (simp add: prom_write_to_def call_val_def call_prom_def numeral_3_eq_3)
qed

text \<open>
  C30. \<open>prom_puts\<close> returns after any text, and the file shows the text behind what it showed before,
  every line feed as carriage return and line feed; nothing else changes.
\<close>

theorem prom_puts_shows:
  assumes ci: "fw_writes ci shown" and on: "prom s \<noteq> 0"
  shows "\<exists>f'. prom_puts ci fh xs s = Some (s\<lparr>fw := f'\<rparr>) \<and> shown f' = (shown (fw s))(fh := shown (fw s) fh @ crlf xs)"
  using on
proof (induction "length xs" arbitrary: xs s rule: less_induct)
  case less
  let ?line = "takeWhile (\<lambda>c. c \<noteq> 10) xs" and ?rest = "dropWhile (\<lambda>c. c \<noteq> 10) xs"
  have nil: "crlf ([] :: u8 list) = []" by (simp add: crlf_def)
  have line: "crlf ?line = ?line" by (rule crlf_plain) (auto dest: set_takeWhileD)
  have xs: "crlf xs = ?line @ crlf ?rest" using line by (metis crlf_append takeWhile_dropWhile_id)
  obtain f1 where one: "(if ?line \<noteq> [] then prom_write_to ci fh ?line s else Some s) = Some (s\<lparr>fw := f1\<rparr>)"
    and f1: "shown f1 = (shown (fw s))(fh := shown (fw s) fh @ ?line)"
    using prom_write_to_shows [OF ci less.prems, of fh ?line]
    by (cases "?line = []") (auto intro: that [of "fw s"] simp del: takeWhile_eq_Nil_iff)
  show ?case
  proof (cases ?rest)
    case Nil
    then show ?thesis using one f1 xs nil by (subst prom_puts.simps) (auto simp: Let_def simp del: dropWhile_eq_Nil_conv takeWhile_eq_Nil_iff)
  next
    case (Cons c cs)
    then have c: "c = 10" by (simp add: dropWhile_eq_Cons_conv)
    have len: "length cs < length xs" using Cons by (metis length_dropWhile_le length_Cons less_eq_Suc_le)
    obtain f2 where two: "prom_write_to ci fh [13, 10] (s\<lparr>fw := f1\<rparr>) = Some (s\<lparr>fw := f2\<rparr>)"
      and f2: "shown f2 = (shown f1)(fh := shown f1 fh @ [13, 10])"
      using prom_write_to_shows [OF ci, of "s\<lparr>fw := f1\<rparr>" fh "[13, 10]"] less.prems by auto
    obtain f3 where "prom_puts ci fh cs (s\<lparr>fw := f2\<rparr>) = Some (s\<lparr>fw := f3\<rparr>)" "shown f3 = (shown f2)(fh := shown f2 fh @ crlf cs)"
      using less.hyps [OF len, of "s\<lparr>fw := f2\<rparr>"] less.prems by auto
    moreover have "crlf (c # cs) = [13, 10] @ crlf cs" by (simp add: c crlf_def)
    moreover have "xs \<noteq> []" using Cons by auto
    ultimately show ?thesis
      using one f1 two f2 xs Cons by (subst prom_puts.simps) (auto simp: Let_def)
  qed
qed

text \<open>A firmware that only knows how to write.\<close>

definition write_ci :: "(u32 \<Rightarrow> u8 list) client_interface" where
  "write_ci p m f =
     (case args p of [Val fh, Buf xs, Val _] \<Rightarrow> Some (args p, [of_nat (length xs)], m, f(fh := f fh @ xs)) | as \<Rightarrow> Some (as, [], m, f))"

lemma write_ci_writes: "fw_writes write_ci id"
  by (simp add: fw_writes_def write_ci_def)

theorem prom_puts_shows_witness:
  "\<exists>f'. prom_puts write_ci 5 [0x41, 10] \<lparr>prom = 1, prom_stdin = 0, prom_stdout = 5, prom_chosen = 0, prom_options = 0,
       pmem = \<lambda>_. 0, fw = \<lambda>_. []\<rparr> = Some \<lparr>prom = 1, prom_stdin = 0, prom_stdout = 5, prom_chosen = 0, prom_options = 0,
       pmem = \<lambda>_. 0, fw = f'\<rparr> \<and> f' 5 = [0x41, 13, 10]"
  using prom_puts_shows [OF write_ci_writes, of "\<lparr>prom = 1, prom_stdin = 0, prom_stdout = 5, prom_chosen = 0, prom_options = 0,
       pmem = \<lambda>_. 0, fw = \<lambda>_. []\<rparr>" 5 "[0x41, 10]"]
  by (auto simp: crlf_def)

end
