(* ===== verification/Cfg.thy ===== *)
theory Cfg
  imports Prom
begin

text \<open>
  The option string: \<open>cfg.c\<close>. \<open>options\<close> is the static array of 128 bytes; every index is checked, and
  \<open>None\<close> is an access outside the array.
\<close>

definition DEFAULT_OPTS :: string where "DEFAULT_OPTS = ''Os V5 Apb''"

abbreviation SPACE_TAB :: cstr where "SPACE_TAB \<equiv> lit [CHR '' '', CHR 0x09]"

definition blank :: "u8 \<Rightarrow> bool" where
  "blank c \<longleftrightarrow> c = 32 \<or> c = 9 \<or> c = 13 \<or> c = 10"

text \<open>Storing a string at the start of the array, as \<open>strcpy\<close> and \<open>memmove\<close> do here.\<close>

definition put_string :: "u8 list \<Rightarrow> u8 list \<Rightarrow> u8 list option" where
  "put_string options xs = (if length xs < length options then Some (xs @ 0 # drop (length xs + 1) options) else None)"

text \<open>The loop that looks for the last character to keep, from index \<open>i\<close> down.\<close>

function last_index :: "u8 list \<Rightarrow> int \<Rightarrow> int option" where
  "last_index options i =
     (if i = 0 then Some 0
      else Option.bind (aref options i) (\<lambda>c. if blank c then last_index options (i - 1) else Some i))"
  by pat_completeness auto
termination
  by (relation "measure (\<lambda>(options, i). nat i)") (auto simp: aref_def split: if_splits)

declare last_index.simps [simp del]

definition trim_tail :: "u8 list \<Rightarrow> u8 list option" where
  "trim_tail options =
     Option.bind (strlen (in_array options)) (\<lambda>len.
     let n = int len - 1 in
     Option.bind (last_index options n) (\<lambda>i.
     if i \<noteq> n then aset options (i + 1) 0 else Some options))"

definition trim_options :: "u8 list \<Rightarrow> u8 list option" where
  "trim_options options =
     Option.bind (strspn (in_array options) SPACE_TAB) (\<lambda>n.
     Option.bind (strlen (in_array options)) (\<lambda>len.
     Option.bind (if n \<noteq> 0 then put_string options (drop n (take len options)) else Some options) trim_tail))"

definition cfg_init :: "'f client_interface \<Rightarrow> u8 list \<Rightarrow> 'f prom_state \<Rightarrow> (u8 list option \<times> 'f prom_state) option" where
  "cfg_init ci options s =
     Option.bind (prom_get_options ci ''bboot'' options 127 s) (\<lambda>(r, options, s).
       Some (Option.bind (if r \<le> 0 then put_string options (chars DEFAULT_OPTS) else Some options) trim_options, s))"

text \<open>The index of the options of a setting, and whether a setting has an option.\<close>

definition cfg_get_option :: "u8 list \<Rightarrow> char \<Rightarrow> nat option option" where
  "cfg_get_option options c =
     Option.bind (strchr (in_array options) (char_byte c)) (\<lambda>r. Some (case r of Some i \<Rightarrow> Some (i + 1) | None \<Rightarrow> None))"

definition cfg_is_option :: "u8 list \<Rightarrow> char \<Rightarrow> char \<Rightarrow> bool option" where
  "cfg_is_option options c opt =
     Option.bind (strchr (in_array options) (char_byte c)) (\<lambda>r.
       case r of
         None \<Rightarrow> Some False
       | Some p \<Rightarrow> Option.bind (strcspn (\<lambda>i. in_array options (p + i)) SPACE_TAB) (\<lambda>n.
           Some (list_ex (\<lambda>i. in_array options (p + i) = char_byte opt) [0..<n])))"

subsection \<open>What the options are\<close>

definition rstrip :: "u8 list \<Rightarrow> u8 list" where
  "rstrip xs = rev (dropWhile blank (rev xs))"

lemma in_array_cstring: "0 \<notin> set xs \<Longrightarrow> cstring (in_array (xs @ 0 # r)) xs"
  by (auto simp: cstring_def in_array_def nth_append)

lemma space_tab: "cstring SPACE_TAB [32, 9]"
  using cstring_lit [of "[CHR '' '', CHR 0x09]"] by (simp add: chars_def char_byte_def)

lemma last_index_rstrip: "last_index (y # zs @ w) (int (length zs)) = Some (int (length (rstrip zs)))"
proof (induction zs arbitrary: w rule: rev_induct)
  case Nil
  then show ?case by (simp add: last_index.simps rstrip_def)
next
  case (snoc z zs)
  have "aref (y # zs @ z # w) (int (length zs) + 1) = Some z"
    by (simp add: aref_def nat_add_distrib nth_append)
  then show ?case
    using snoc [of "z # w"] by (subst last_index.simps) (simp add: rstrip_def add.commute)
qed

lemma rstrip_split: "\<exists>bs. zs = rstrip zs @ bs \<and> (bs = [] \<or> length (rstrip zs) < length zs)"
proof -
  have "zs = rev (takeWhile blank (rev zs) @ dropWhile blank (rev zs))" by simp
  then have e: "zs = rstrip zs @ rev (takeWhile blank (rev zs))" by (simp only: rstrip_def rev_append)
  then have "length zs = length (rstrip zs) + length (rev (takeWhile blank (rev zs)))" by (metis length_append)
  with e show ?thesis by (intro exI [of _ "rev (takeWhile blank (rev zs))"]) auto
qed

text \<open>Cutting the array behind the last character to keep.\<close>

lemma cut_options:
  "\<exists>r'. Option.bind (last_index (y # zs @ 0 # r) (int (length zs)))
     (\<lambda>i. if i \<noteq> int (length zs) then aset (y # zs @ 0 # r) (i + 1) 0 else Some (y # zs @ 0 # r))
     = Some (y # rstrip zs @ 0 # r') \<and> length r' + length (rstrip zs) = length r + length zs"
proof -
  obtain bs where bs: "zs = rstrip zs @ bs" "bs = [] \<or> length (rstrip zs) < length zs" using rstrip_split by blast
  note li = last_index_rstrip [of y zs "0 # r"]
  show ?thesis
  proof (cases bs)
    case Nil
    then have "rstrip zs = zs" using bs(1) by simp
    then show ?thesis using li by simp
  next
    case (Cons b bs')
    then have lt: "length (rstrip zs) \<noteq> length zs" using bs(2) by auto
    define k where "k = length (rstrip zs)"
    have arr: "y # zs @ 0 # r = (y # rstrip zs) @ b # bs' @ 0 # r" using bs(1) Cons by simp
    have "aset (y # zs @ 0 # r) (int k + 1) 0 = Some (y # rstrip zs @ 0 # bs' @ 0 # r)"
      unfolding arr by (simp add: aset_def k_def nat_add_distrib list_update_append)
    moreover have "length (bs' @ 0 # r) + length (rstrip zs) = length r + length zs"
      using bs(1) Cons by (metis (no_types) add.assoc add.commute add_Suc_right length_Cons length_append)
    ultimately show ?thesis using li lt by (auto simp: k_def)
  qed
qed

lemma in_array_drop: "p \<le> length xs \<Longrightarrow> (\<lambda>i. in_array xs (p + i)) = in_array (drop p xs)"
  by (auto simp: in_array_def fun_eq_iff)

text \<open>Removing the leading blanks leaves the rest of the string at the start of the array.\<close>

definition lstrip :: "u8 list \<Rightarrow> u8 list" where
  "lstrip xs = dropWhile (\<lambda>c. c \<in> {32, 9}) xs"

lemma shift_options:
  assumes "0 \<notin> set xs"
  shows "\<exists>r'. trim_options (xs @ 0 # r) = trim_tail (lstrip xs @ 0 # r') \<and>
    length (lstrip xs @ 0 # r') = length (xs @ 0 # r)"
proof -
  note c = in_array_cstring [OF assms, of r]
  let ?n = "length (takeWhile (\<lambda>c. c \<in> {32, 9}) xs)"
  have span: "strspn (in_array (xs @ 0 # r)) SPACE_TAB = Some ?n" using strspn_cstring [OF c space_tab] by simp
  have drop: "drop ?n xs = lstrip xs" unfolding lstrip_def by (simp add: dropWhile_eq_drop)
  have len: "length (lstrip xs) \<le> length xs" by (simp add: lstrip_def length_dropWhile_le)
  show ?thesis
  proof (cases "?n = 0")
    case True
    then have "lstrip xs = xs" using drop by simp
    then show ?thesis using span True strlen_cstring [OF c] by (auto simp: trim_options_def)
  next
    case False
    let ?r = "drop (length (lstrip xs) + 1) (xs @ 0 # r)"
    have "put_string (xs @ 0 # r) (drop ?n (take (length xs) (xs @ 0 # r))) = Some (lstrip xs @ 0 # ?r)"
    proof -
      have "drop ?n (take (length xs) (xs @ 0 # r)) = lstrip xs" using drop by (simp del: insert_iff)
      then show ?thesis using len by (simp add: put_string_def del: drop_append)
    qed
    then show ?thesis
      using span False strlen_cstring [OF c] len by (intro exI [of _ ?r]) (simp add: trim_options_def)
  qed
qed

lemma trim_options_stripped:
  assumes "0 \<notin> set xs" "lstrip xs = y # zs"
  shows "\<exists>r'. trim_options (xs @ 0 # r) = Some (y # rstrip zs @ 0 # r') \<and>
    length (y # rstrip zs @ 0 # r') = length (xs @ 0 # r)"
proof -
  obtain r1 where r1: "trim_options (xs @ 0 # r) = trim_tail (y # zs @ 0 # r1)" "length (y # zs @ 0 # r1) = length (xs @ 0 # r)"
    using shift_options [OF assms(1), of r] assms(2) by auto
  have "0 \<notin> set (lstrip xs)" using assms(1) by (auto simp: lstrip_def dest: set_dropWhileD)
  then have "strlen (in_array (y # zs @ 0 # r1)) = Some (Suc (length zs))"
    using strlen_cstring [OF in_array_cstring, of "lstrip xs" r1] assms(2) by simp
  with r1 show ?thesis
    using cut_options [of y zs r1] by (auto simp: trim_tail_def)
qed

text \<open>A firmware whose \<open>/options\<close> has the option string \<open>xs\<close>, for the examples.\<close>

definition opts_ci :: "u8 list \<Rightarrow> unit client_interface" where
  "opts_ci xs p m f =
     (case args p of [h, n, Buf b, l] \<Rightarrow> Some ([h, n, Buf (xs @ drop (length xs) b), l], [of_nat (length xs)], m, f)
      | as \<Rightarrow> Some (as, [], m, f))"

definition opts_state :: "unit prom_state" where
  "opts_state = \<lparr>prom = 1, prom_stdin = 0, prom_stdout = 0, prom_chosen = 0, prom_options = 5, pmem = \<lambda>_. 0, fw = ()\<rparr>"

lemma opts_ci_get:
  assumes "length xs < 128"
  shows "prom_get_options (opts_ci xs) ''bboot'' (replicate 128 0) 127 opts_state =
    Some (int (length xs), xs @ 0 # replicate (127 - length xs) 0, opts_state)"
proof -
  have "128 - length xs = Suc (127 - length xs)" using assms by simp
  then have "drop (length xs) (replicate 128 (0 :: u8)) = 0 # replicate (127 - length xs) 0"
    by (simp only: drop_replicate replicate_Suc)
  moreover have "sint (of_nat (length xs) :: u32) = int (length xs)"
    using assms by (simp add: signed_of_nat signed_take_bit_int_eq_self)
  ultimately show ?thesis
    by (simp add: prom_get_options_def prom_getprop_def call_prom_def opts_ci_def opts_state_def obj_def)
qed

lemma default_opts_chars:
  "0 \<notin> set (chars DEFAULT_OPTS)" "length (chars DEFAULT_OPTS) = 9" "lstrip (chars DEFAULT_OPTS) = 0x4f # chars ''s V5 Apb''"
  "rstrip (chars ''s V5 Apb'') = chars ''s V5 Apb''" "0x4f # chars ''s V5 Apb'' = chars DEFAULT_OPTS"
  by (simp_all add: lstrip_def rstrip_def blank_def chars_def DEFAULT_OPTS_def char_byte_def)

text \<open>
  C31. The option string is the one read from the firmware, or \<open>DEFAULT_OPTS\<close> when there is no node for options, no
  property \<open>bboot\<close> or nothing in it (\<open>n\<close>, what \<open>prom_get_options\<close> returns, is not positive). If it has a character other
  than space and tab it is left without the blanks before it and without the blanks and line ends behind it (its first
  character is always kept), and the array keeps its length; the default options stay as they are.
\<close>

theorem cfg_init_options:
  assumes get: "prom_get_options ci ''bboot'' options 127 s = Some (n, opts, s')"
    and str: "if 0 < n then opts = xs @ 0 # r else xs = chars DEFAULT_OPTS \<and> length xs < length opts"
    and xs: "0 \<notin> set xs" "lstrip xs = y # zs"
  shows "\<exists>r'. cfg_init ci options s = Some (Some (y # rstrip zs @ 0 # r'), s') \<and>
    length (y # rstrip zs @ 0 # r') = length opts \<and> (n \<le> 0 \<longrightarrow> y # rstrip zs = chars DEFAULT_OPTS)"
proof (cases "0 < n")
  case True
  then show ?thesis using trim_options_stripped [OF xs, of r] get str by (auto simp: cfg_init_def)
next
  case False
  then have put: "put_string opts (chars DEFAULT_OPTS) = Some (xs @ 0 # drop 10 opts)" "xs = chars DEFAULT_OPTS" "9 < length opts"
    using str default_opts_chars(2) by (auto simp: put_string_def)
  then have "y # rstrip zs = chars DEFAULT_OPTS" using xs(2) default_opts_chars by (metis list.inject)
  then show ?thesis
    using trim_options_stripped [OF xs, of "drop 10 opts"] get put False default_opts_chars(2) by (auto simp: cfg_init_def)
qed

theorem cfg_init_options_witness:
  "(\<exists>r'. cfg_init (opts_ci [32, 0x4f, 0x73, 10]) (replicate 128 0) opts_state = Some (Some ([0x4f, 0x73] @ 0 # r'), opts_state) \<and>
     length ([0x4f, 0x73] @ 0 # r') = 128) \<and>
   (\<exists>r'. cfg_init (opts_ci []) (replicate 128 0) (opts_state\<lparr>prom_options := PROM_INVALID_HANDLE\<rparr>) =
     Some (Some (chars DEFAULT_OPTS @ 0 # r'), opts_state\<lparr>prom_options := PROM_INVALID_HANDLE\<rparr>))"
proof
  show "\<exists>r'. cfg_init (opts_ci [32, 0x4f, 0x73, 10]) (replicate 128 0) opts_state = Some (Some ([0x4f, 0x73] @ 0 # r'), opts_state) \<and>
     length ([0x4f, 0x73] @ 0 # r') = 128"
    using cfg_init_options [OF opts_ci_get [of "[32, 0x4f, 0x73, 10]"], of "[32, 0x4f, 0x73, 10]" _ "0x4f" "[0x73, 10]"]
    by (simp add: lstrip_def rstrip_def blank_def)
  have "prom_get_options (opts_ci []) ''bboot'' (replicate 128 0) 127 (opts_state\<lparr>prom_options := PROM_INVALID_HANDLE\<rparr>) =
      Some (- 1, replicate 128 0, opts_state\<lparr>prom_options := PROM_INVALID_HANDLE\<rparr>)"
    by (simp add: prom_get_options_def)
  from cfg_init_options [OF this _ default_opts_chars(1,3), of "[]"] obtain r' where
    "cfg_init (opts_ci []) (replicate 128 0) (opts_state\<lparr>prom_options := PROM_INVALID_HANDLE\<rparr>) =
      Some (Some ((0x4f # chars ''s V5 Apb'') @ 0 # r'), opts_state\<lparr>prom_options := PROM_INVALID_HANDLE\<rparr>)"
    using default_opts_chars(2,4) by auto
  then show "\<exists>r'. cfg_init (opts_ci []) (replicate 128 0) (opts_state\<lparr>prom_options := PROM_INVALID_HANDLE\<rparr>) =
     Some (Some (chars DEFAULT_OPTS @ 0 # r'), opts_state\<lparr>prom_options := PROM_INVALID_HANDLE\<rparr>)"
    unfolding default_opts_chars(5) by blast
qed

text \<open>
  C32. An option string of spaces and tabs only makes \<open>cfg_init\<close> read before the start of the array.
\<close>

theorem cfg_init_blank:
  assumes "prom_get_options ci ''bboot'' options 127 s = Some (n, xs @ 0 # r, s')" "0 < n" "set xs \<subseteq> {32, 9}"
  shows "cfg_init ci options s = Some (None, s')"
proof -
  have nz: "0 \<notin> set xs" using assms(3) by auto
  have "lstrip xs = []" using assms(3) by (auto simp: lstrip_def)
  then obtain r1 where "trim_options (xs @ 0 # r) = trim_tail (0 # r1)"
    using shift_options [OF nz, of r] by auto
  moreover have "strlen (in_array (0 # r1)) = Some 0" using strlen_cstring [OF in_array_cstring, of "[]" r1] by simp
  moreover have "last_index (0 # r1) (- 1) = None" by (subst last_index.simps) (simp add: aref_def)
  ultimately show ?thesis using assms(1,2) by (simp add: cfg_init_def trim_tail_def)
qed

theorem cfg_init_blank_witness: "cfg_init (opts_ci [32, 32]) (replicate 128 0) opts_state = Some (None, opts_state)"
  using cfg_init_blank [OF opts_ci_get [of "[32, 32]"]] by simp

text \<open>Looking for a letter in the word at the start of a string.\<close>

lemma word_options:
  assumes "0 \<notin> set w"
  shows "Option.bind (strcspn (in_array (w @ 0 # r)) SPACE_TAB) (\<lambda>n. Some (list_ex (\<lambda>i. in_array (w @ 0 # r) i = x) [0..<n])) =
    Some (x \<in> set (takeWhile (\<lambda>x. x \<notin> {32, 9}) w))"
proof -
  define o' where "o' = takeWhile (\<lambda>x. x \<notin> {32, 9}) w"
  have cs: "strcspn (in_array (w @ 0 # r)) SPACE_TAB = Some (length o')"
    using strcspn_cstring [OF in_array_cstring [OF assms, of r] space_tab] by (simp add: o'_def)
  have le: "length o' \<le> length w" unfolding o'_def by (rule length_takeWhile_le)
  have "in_array (w @ 0 # r) i = o' ! i" if "i < length o'" for i
    using that le takeWhile_nth [of i "\<lambda>x. x \<notin> {32, 9}" w] unfolding o'_def [symmetric] by (simp add: in_array_def nth_append)
  then have "list_ex (\<lambda>i. in_array (w @ 0 # r) i = x) [0..<length o'] \<longleftrightarrow> x \<in> set o'"
    by (auto simp: list_ex_iff in_set_conv_nth)
  then show ?thesis by (simp add: cs o'_def)
qed

lemma cfg_is_option_word:
  assumes "0 \<notin> set xs" "c \<noteq> CHR 0x00"
  shows "cfg_is_option (xs @ 0 # r) c opt =
      Some (char_byte c \<in> set xs \<and>
        char_byte opt \<in> set (takeWhile (\<lambda>x. x \<notin> {32, 9}) (dropWhile (\<lambda>x. x \<noteq> char_byte c) xs)))"
proof -
  have c0: "char_byte c \<noteq> 0" using assms(2) char_byte_0 by (metis char_byte_inject)
  note ch = strchr_cstring [OF in_array_cstring [OF assms(1), of r] c0]
  let ?p = "length (takeWhile (\<lambda>x. x \<noteq> char_byte c) xs)" and ?w = "dropWhile (\<lambda>x. x \<noteq> char_byte c) xs"
  have w: "drop ?p xs = ?w" by (simp add: dropWhile_eq_drop)
  have "?p \<le> length xs" by (simp add: length_takeWhile_le)
  then have "drop ?p (xs @ 0 # r) = ?w @ 0 # r" using w by simp
  moreover have "?p \<le> length (xs @ 0 # r)" using \<open>?p \<le> length xs\<close> by simp
  ultimately have sh: "(\<lambda>i. in_array (xs @ 0 # r) (?p + i)) = in_array (?w @ 0 # r)"
    using in_array_drop [of ?p "xs @ 0 # r"] by (simp only:)
  have nw: "0 \<notin> set ?w" using assms(1) by (auto dest: set_dropWhileD)
  have at: "in_array (xs @ 0 # r) (?p + i) = in_array (?w @ 0 # r) i" for i by (rule fun_cong [OF sh])
  show ?thesis
  proof (cases "char_byte c \<in> set xs")
    case True
    then show ?thesis
      unfolding cfg_is_option_def ch by (simp only: if_True bind.bind_lunit option.case at word_options [OF nw] simp_thms)
  qed (simp add: cfg_is_option_def ch)
qed

text \<open>
  C33. \<open>cfg_is_option\<close> tells whether the letter occurs in the word that starts at the first occurrence of
  the setting; \<open>cfg_get_option\<close> returns the index behind the setting.
\<close>

theorem cfg_option_lookup:
  assumes "0 \<notin> set xs" "c \<noteq> CHR 0x00"
  shows "cfg_is_option (xs @ 0 # r) c opt =
      Some (char_byte c \<in> set xs \<and>
        char_byte opt \<in> set (takeWhile (\<lambda>x. x \<notin> {32, 9}) (dropWhile (\<lambda>x. x \<noteq> char_byte c) xs))) \<and>
    cfg_get_option (xs @ 0 # r) c =
      Some (if char_byte c \<in> set xs then Some (length (takeWhile (\<lambda>x. x \<noteq> char_byte c) xs) + 1) else None)"
proof -
  have c0: "char_byte c \<noteq> 0" using assms(2) char_byte_0 by (metis char_byte_inject)
  note ch = strchr_cstring [OF in_array_cstring [OF assms(1), of r] c0]
  show ?thesis by (rule conjI, rule cfg_is_option_word [OF assms]) (simp add: cfg_get_option_def ch)
qed

theorem cfg_option_lookup_witness:
  "cfg_is_option (chars DEFAULT_OPTS @ 0 # replicate 118 0) CHR ''A'' CHR ''b'' = Some True \<and>
   cfg_get_option (chars DEFAULT_OPTS @ 0 # replicate 118 0) CHR ''V'' = Some (Some 4)"
  using cfg_option_lookup [of "chars DEFAULT_OPTS" "CHR ''A''" "replicate 118 0" "CHR ''b''"]
    cfg_option_lookup [of "chars DEFAULT_OPTS" "CHR ''V''" "replicate 118 0" "CHR ''b''"]
  by (simp add: DEFAULT_OPTS_def chars_def char_byte_def)

end
