(* ===== verification/Bar.thy ===== *)
theory Bar
  imports Pci
begin

text \<open>
  The part of PCI set-up that the boards share. \<open>brd_amigaone.c\<close> and \<open>brd_sam460.c\<close> keep the same
  static variables (the I/O and memory windows and the first free address of each), hand out
  addresses with the same \<open>addr_for_bar\<close> and probe the base address registers with the same loop;
  \<open>brd_pegasos2.c\<close> has a variant of its own. This theory holds the state, the generic allocation
  step and the loop over the six registers, the locale \<open>bump_allocator\<close> that says what every
  \<open>addr_for_bar\<close> promises, and the consequence for a whole sequence of requests.
\<close>

subsection \<open>State\<close>

record 'h bar_state = "'h pci_state" +
  iobase :: u32
  iolen :: u32
  membase :: u32
  memlen :: u32
  ioavail :: u32
  memavail :: u32

text \<open>One branch of \<open>addr_for_bar\<close>: round up, check against the end of the window, advance.\<close>

definition bump :: "u32 \<Rightarrow> u32 \<Rightarrow> u32 \<Rightarrow> u32 \<times> u32" where
  "bump avail sz limit =
     (let ret = ROUND_UP avail sz in if ret + sz > limit then (0, avail) else (ret, ret + sz))"

definition BAR_SPACE_IO :: u32 where "BAR_SPACE_IO = 1"
definition BAR_IO_ATTR_MASK :: u32 where "BAR_IO_ATTR_MASK = 3"
definition BAR_MEM_ATTR_MASK :: u32 where "BAR_MEM_ATTR_MASK = 0xf"
definition BAR_MEM_LIMIT_64 :: u32 where "BAR_MEM_LIMIT_64 = 4"
definition REG_COMMAND :: u16 where "REG_COMMAND = 4"
definition REG_COMMAND_IO :: u16 where "REG_COMMAND_IO = 1"
definition REG_COMMAND_MEM :: u16 where "REG_COMMAND_MEM = 2"
definition REG_COMMAND_BM :: u16 where "REG_COMMAND_BM = 4"

text \<open>
  The value read back from a base address register after writing ones: the type bits, the size
  of the window, and the bit of the command register that enables it.
\<close>

definition decode_bar :: "u32 \<Rightarrow> u32 \<times> u32 \<times> u16" where
  "decode_bar bar =
     (if bar AND BAR_SPACE_IO \<noteq> 0
      then (bar AND BAR_IO_ATTR_MASK, NOT (bar AND NOT BAR_IO_ATTR_MASK) + 1, REG_COMMAND_IO)
      else (bar AND BAR_MEM_ATTR_MASK, NOT (bar AND NOT BAR_MEM_ATTR_MASK) + 1, REG_COMMAND_MEM))"

text \<open>
  One pass of the loop over the base address registers: the next index and the new \<open>cmd\<close>, the
  local variable that collects the enable bits. \<open>afb\<close> is the \<open>addr_for_bar\<close> of the board. A
  64-bit register takes two slots.
\<close>

definition write_bar :: "'h bus \<Rightarrow> u32 \<Rightarrow> u8 \<Rightarrow> nat \<Rightarrow> u16 \<Rightarrow> u32 \<Rightarrow> ('h, 'x) pci_state_scheme \<Rightarrow> ('h, 'x) pci_state_scheme" where
  "write_bar b devfn latency_timer i cmd val s =
     (let s = pci_write_config32 b devfn (PCI_BAR i) val s;
          s = pci_write_config16 b devfn REG_COMMAND (cmd OR REG_COMMAND_BM) s;
          s = pci_write_config8 b devfn 0x0C 8 s in
      pci_write_config8 b devfn 0x0D latency_timer s)"

definition map_bar ::
  "'h bus \<Rightarrow> (u32 \<Rightarrow> u32 \<Rightarrow> ('h, 'x) bar_state_scheme \<Rightarrow> u32 \<times> ('h, 'x) bar_state_scheme) \<Rightarrow> u32 \<Rightarrow> u8 \<Rightarrow> nat \<Rightarrow> u16
   \<Rightarrow> ('h, 'x) bar_state_scheme \<Rightarrow> nat \<times> u16 \<times> ('h, 'x) bar_state_scheme" where
  "map_bar b afb devfn latency_timer i cmd s =
     (let s = pci_write_config32 b devfn (PCI_BAR i) 0xffffffff s;
          (bar, s) = pci_read_config32 b devfn (PCI_BAR i) s in
      if bar = 0 then (i + 1, cmd, s) else
      let (type, sz, en) = decode_bar bar;
          cmd = cmd OR en;
          (base, s) = afb type sz s;
          s = (if base \<noteq> 0 then write_bar b devfn latency_timer i cmd (base OR type) s else s) in
      (if type AND BAR_MEM_LIMIT_64 \<noteq> 0 then i + 2 else i + 1, cmd, s))"

function map_bars ::
  "'h bus \<Rightarrow> (u32 \<Rightarrow> u32 \<Rightarrow> ('h, 'x) bar_state_scheme \<Rightarrow> u32 \<times> ('h, 'x) bar_state_scheme) \<Rightarrow> u32 \<Rightarrow> u8 \<Rightarrow> nat \<Rightarrow> u16
   \<Rightarrow> ('h, 'x) bar_state_scheme \<Rightarrow> ('h, 'x) bar_state_scheme" where
  "map_bars b afb devfn latency_timer i cmd s =
     (if i < 6 then
        case map_bar b afb devfn latency_timer i cmd s of (i, cmd, s) \<Rightarrow> map_bars b afb devfn latency_timer i cmd s
      else s)"
  by pat_completeness auto
termination
  by (relation "measure (\<lambda>(b, afb, devfn, lt, i, cmd, s). 6 - i)")
    (auto simp: map_bar_def Let_def split: prod.splits if_splits)

declare map_bars.simps [simp del]

subsection \<open>What configuration accesses keep\<close>

text \<open>
  A predicate that does not look at the hardware is kept by every configuration access, and by
  the loop over the registers when \<open>addr_for_bar\<close> keeps it.
\<close>

definition hw_blind :: "(('h, 'x) pci_state_scheme \<Rightarrow> bool) \<Rightarrow> bool" where
  "hw_blind P \<longleftrightarrow> (\<forall>s h. P s \<longrightarrow> P (s\<lparr>hw := h\<rparr>))"

lemma hw_blindD: "hw_blind P \<Longrightarrow> P s \<Longrightarrow> P (s\<lparr>hw := h\<rparr>)"
  by (simp add: hw_blind_def)

lemma config_write_keeps:
  "hw_blind P \<Longrightarrow> P s \<Longrightarrow> P (pci_write_config8 b d r v8 s)"
  "hw_blind P \<Longrightarrow> P s \<Longrightarrow> P (pci_write_config16 b d r v16 s)"
  "hw_blind P \<Longrightarrow> P s \<Longrightarrow> P (pci_write_config32 b d r v32 s)"
  by (simp_all add: pci_write_config8_def pci_write_config16_def pci_write_config32_def pci_set_conf_addr_def
      Let_def hw_blind_def)

lemma config_read_keeps:
  "hw_blind P \<Longrightarrow> P s \<Longrightarrow> P (snd (pci_read_config8 b d r s))"
  "hw_blind P \<Longrightarrow> P s \<Longrightarrow> P (snd (pci_read_config16 b d r s))"
  "hw_blind P \<Longrightarrow> P s \<Longrightarrow> P (snd (pci_read_config32 b d r s))"
  by (simp_all add: pci_read_config8_def pci_read_config16_def pci_read_config32_def pci_set_conf_addr_def
      Let_def hw_blind_def split: prod.splits)

lemma write_bar_keeps: "hw_blind P \<Longrightarrow> P s \<Longrightarrow> P (write_bar b d lt i cmd v s)"
  unfolding write_bar_def Let_def using config_write_keeps [where P = P] by blast

lemma map_bar_keeps:
  assumes blind: "hw_blind P" and afb: "\<And>type sz s. P s \<Longrightarrow> P (snd (afb type sz s))" and "P s"
  shows "P (snd (snd (map_bar b afb devfn lt i cmd s)))"
proof -
  let ?s1 = "pci_write_config32 b devfn (PCI_BAR i) 0xffffffff s"
  let ?s2 = "snd (pci_read_config32 b devfn (PCI_BAR i) ?s1)"
  have 2: "P ?s2" by (rule config_read_keeps(3) [OF blind config_write_keeps(3) [OF blind \<open>P s\<close>]])
  show ?thesis
    using 2 afb [OF 2] write_bar_keeps [OF blind afb [OF 2]]
    by (simp add: map_bar_def Let_def split_beta)
qed

lemma map_bars_keeps:
  assumes blind: "hw_blind P" and afb: "\<And>type sz s. P s \<Longrightarrow> P (snd (afb type sz s))"
  shows "P s \<Longrightarrow> P (map_bars b afb devfn lt i cmd s)"
proof (induction "6 - i" arbitrary: i cmd s rule: less_induct)
  case less
  obtain i' cmd' s' where step: "map_bar b afb devfn lt i cmd s = (i', cmd', s')" by (cases "map_bar b afb devfn lt i cmd s")
  have "P s'" using map_bar_keeps [where P = P and afb = afb and b = b and devfn = devfn and lt = lt and i = i and cmd = cmd,
        OF blind afb less.prems] step by simp
  moreover have "i < i'" using step by (auto simp: map_bar_def Let_def split: prod.splits if_splits)
  ultimately show ?case
    using less.hyps [of i' s' cmd'] less.prems step by (subst map_bars.simps) auto
qed

subsection \<open>Rounding\<close>

lemma pow2_unat: "k < 32 \<Longrightarrow> unat (2 ^ k :: u32) = 2 ^ k"
proof -
  assume "k < 32"
  then have "(2 :: nat) ^ k < 2 ^ 32" by (intro power_strict_increasing) simp_all
  then show ?thesis using unat_of_nat32 [of "2 ^ k"] by simp
qed

lemma ROUND_DOWN_unat:
  assumes "k < 32"
  shows "unat (ROUND_DOWN n (2 ^ k)) = unat n div 2 ^ k * 2 ^ k"
proof -
  have "ROUND_DOWN n (2 ^ k) = n AND NOT (mask k)" by (simp add: ROUND_DOWN_def minus_exp_eq_not_mask)
  also have "\<dots> = push_bit k (drop_bit k n)" by (rule bit_word_eqI) (auto simp: bit_simps)
  finally have "unat (ROUND_DOWN n (2 ^ k)) = take_bit 32 (push_bit k (drop_bit k (unat n)))"
    by (simp add: unsigned_push_bit_eq unsigned_drop_bit_eq take_bit_nat_eq_self [OF unat32_less])
  also have "push_bit k (drop_bit k (unat n)) = unat n div 2 ^ k * 2 ^ k"
    by (simp add: push_bit_eq_mult drop_bit_eq_div)
  also have "take_bit 32 (unat n div 2 ^ k * 2 ^ k) = unat n div 2 ^ k * 2 ^ k"
  proof (rule take_bit_nat_eq_self)
    have "unat n div 2 ^ k * 2 ^ k \<le> unat n" by (rule div_times_less_eq_dividend)
    then show "unat n div 2 ^ k * 2 ^ k < 2 ^ 32" using unat32_less [of n] by (rule le_less_trans)
  qed
  finally show ?thesis .
qed

lemma ROUND_UP_unat:
  assumes "k < 32" "unat n + 2 ^ k \<le> 2 ^ 32"
  shows "unat (ROUND_UP n (2 ^ k)) = (unat n + (2 ^ k - 1)) div 2 ^ k * 2 ^ k"
proof -
  have k: "unat (2 ^ k - 1 :: u32) = 2 ^ k - 1"
    using assms(1) by (simp add: unat_minus_one pow2_unat)
  have "unat (n + (2 ^ k - 1)) = unat n + (2 ^ k - 1)"
    using assms(2) k by (subst unat_add_small) auto
  then show ?thesis
    unfolding ROUND_UP_def by (simp add: ROUND_DOWN_unat [OF assms(1)] add_diff_eq)
qed

lemma ceil_bounds:
  fixes x d :: nat
  assumes "0 < d"
  shows "x \<le> (x + (d - 1)) div d * d" "(x + (d - 1)) div d * d < x + d"
proof -
  have e: "(x + (d - 1)) div d * d + (x + (d - 1)) mod d = x + (d - 1)" by (rule div_mult_mod_eq)
  have "(x + (d - 1)) mod d < d" using assms by simp
  with e show "x \<le> (x + (d - 1)) div d * d" by linarith
  from e assms show "(x + (d - 1)) div d * d < x + d" by linarith
qed

text \<open>Rounding up wraps around to 0 when less than one unit is left below 4 GB.\<close>

lemma ROUND_UP_wraps:
  assumes "k < 32" "2 ^ 32 - 2 ^ k < unat n"
  shows "ROUND_UP n (2 ^ k) = 0"
proof -
  have le: "(2 :: nat) ^ k \<le> 2 ^ 32" using assms(1) by (intro power_increasing) simp_all
  have k: "unat (2 ^ k - 1 :: u32) = 2 ^ k - 1"
    using assms(1) by (simp add: unat_minus_one pow2_unat)
  have "unat (n + (2 ^ k - 1)) = (unat n + (2 ^ k - 1)) mod 2 ^ 32" by (simp add: unat_word_ariths k)
  also have "\<dots> = unat n + (2 ^ k - 1) - 2 ^ 32"
    using assms(2) le unat32_less [of n] by (subst le_mod_geq) (simp_all add: mod_less)
  finally have "unat (n + (2 ^ k - 1)) < 2 ^ k" using unat32_less [of n] zero_less_power [of "2 :: nat" k] by linarith
  then have "unat (ROUND_UP n (2 ^ k)) = 0"
    unfolding ROUND_UP_def by (simp add: ROUND_DOWN_unat [OF assms(1)] add_diff_eq)
  then show ?thesis by (simp add: unat_eq_0)
qed

lemma ROUND_UP_pow2:
  assumes "j \<le> k" "k < 31"
  shows "ROUND_UP (2 ^ k) (2 ^ j) = 2 ^ k"
proof -
  have le: "(2 :: nat) ^ k \<le> 2 ^ 30" "(2 :: nat) ^ j \<le> 2 ^ 30" using assms by (intro power_increasing; simp)+
  have "(2 :: nat) ^ k = 2 ^ (k - j) * 2 ^ j" using assms(1) by (simp flip: power_add)
  moreover have "(2 ^ (k - j) * 2 ^ j + (2 ^ j - 1)) div 2 ^ j = 2 ^ (k - j) + (2 ^ j - 1) div (2 :: nat) ^ j" by (subst div_mult_self3) simp_all
  ultimately have "(2 ^ k + (2 ^ j - 1)) div 2 ^ j * 2 ^ j = (2 :: nat) ^ k" by simp
  then have "unat (ROUND_UP (2 ^ k) (2 ^ j)) = 2 ^ k"
    using ROUND_UP_unat [of j "2 ^ k"] assms le by (simp add: pow2_unat)
  then show ?thesis using assms(2) by (simp add: word_unat_eq_iff pow2_unat)
qed

text \<open>The allocation step on numbers: aligned, next to the old end, and inside the window.\<close>

lemma bump_spec:
  assumes k: "k < 32" and nowrap: "unat avail + 2 * 2 ^ k \<le> 2 ^ 32"
  shows "unat avail \<le> unat (snd (bump avail (2 ^ k) limit))"
    "unat (snd (bump avail (2 ^ k) limit)) \<le> unat avail + 2 * 2 ^ k"
    "fst (bump avail (2 ^ k) limit) \<noteq> 0 \<Longrightarrow>
       2 ^ k dvd unat (fst (bump avail (2 ^ k) limit)) \<and> unat avail \<le> unat (fst (bump avail (2 ^ k) limit)) \<and>
       unat (fst (bump avail (2 ^ k) limit)) + 2 ^ k = unat (snd (bump avail (2 ^ k) limit)) \<and>
       unat (snd (bump avail (2 ^ k) limit)) \<le> unat limit"
proof -
  let ?r = "ROUND_UP avail (2 ^ k)" and ?n = "(unat avail + (2 ^ k - 1)) div 2 ^ k * 2 ^ k"
  have p: "(0 :: nat) < 2 ^ k" by simp
  have r: "unat ?r = ?n" using nowrap by (intro ROUND_UP_unat k) simp
  note b = ceil_bounds [OF p, of "unat avail"]
  have "unat (?r + 2 ^ k) = ?n + 2 ^ k" if "?n + 2 ^ k < 2 ^ 32"
    using that by (subst unat_add_small) (simp_all add: r pow2_unat [OF k])
  moreover have "?n + 2 ^ k < 2 ^ 32" using b nowrap by linarith
  ultimately have s: "unat (?r + 2 ^ k) = ?n + 2 ^ k" by blast
  have dvd: "2 ^ k dvd ?n" by simp
  show "unat avail \<le> unat (snd (bump avail (2 ^ k) limit))"
    "unat (snd (bump avail (2 ^ k) limit)) \<le> unat avail + 2 * 2 ^ k"
    using b by (simp_all add: bump_def Let_def s)
  show "fst (bump avail (2 ^ k) limit) \<noteq> 0 \<Longrightarrow>
       2 ^ k dvd unat (fst (bump avail (2 ^ k) limit)) \<and> unat avail \<le> unat (fst (bump avail (2 ^ k) limit)) \<and>
       unat (fst (bump avail (2 ^ k) limit)) + 2 ^ k = unat (snd (bump avail (2 ^ k) limit)) \<and>
       unat (snd (bump avail (2 ^ k) limit)) \<le> unat limit"
    using b dvd by (simp add: bump_def Let_def s r word_less_nat_alt not_less split: if_splits)
qed

subsection \<open>A sequence of requests\<close>

text \<open>
  The contract of an \<open>addr_for_bar\<close> for one of its windows: \<open>mine\<close> tells the requests for that
  window, \<open>avail\<close> its first free address, \<open>limit\<close> its end. A request for \<open>2 ^ k\<close> bytes, when
  rounding cannot wrap around, returns 0 or an aligned block behind everything handed out before.
\<close>

primrec alloc_all :: "('q \<Rightarrow> u32 \<Rightarrow> 's \<Rightarrow> u32 \<times> 's) \<Rightarrow> ('q \<times> u32) list \<Rightarrow> 's \<Rightarrow> u32 list \<times> 's" where
  "alloc_all f [] s = ([], s)"
| "alloc_all f (x # xs) s =
     (let (r, s) = f (fst x) (snd x) s; (rs, s) = alloc_all f xs s in (r # rs, s))"

text \<open>What a list of requests asks for, rounding included, and what a block of the window is.\<close>

definition demand :: "('q \<Rightarrow> bool) \<Rightarrow> ('q \<times> u32) list \<Rightarrow> nat" where
  "demand mine reqs = (\<Sum>x\<leftarrow>filter (mine \<circ> fst) reqs. 2 * unat (snd x))"

definition pow2_sizes :: "('q \<Rightarrow> bool) \<Rightarrow> ('q \<times> u32) list \<Rightarrow> bool" where
  "pow2_sizes mine reqs \<longleftrightarrow> (\<forall>x\<in>set reqs. mine (fst x) \<longrightarrow> (\<exists>k < 32. snd x = 2 ^ k))"

definition block_ok :: "nat \<Rightarrow> nat \<Rightarrow> u32 \<Rightarrow> u32 \<Rightarrow> bool" where
  "block_ok lo hi r sz \<longleftrightarrow> unat sz dvd unat r \<and> lo \<le> unat r \<and> unat r + unat sz \<le> hi"

lemma block_ok_mono: "block_ok lo hi r sz \<Longrightarrow> lo' \<le> lo \<Longrightarrow> hi \<le> hi' \<Longrightarrow> block_ok lo' hi' r sz"
  by (simp add: block_ok_def)

locale bump_allocator =
  fixes alloc :: "'q \<Rightarrow> u32 \<Rightarrow> 's \<Rightarrow> u32 \<times> 's"
    and mine :: "'q \<Rightarrow> bool"
    and window_ok :: "'s \<Rightarrow> bool"
    and avail :: "'s \<Rightarrow> nat"
    and limit :: "'s \<Rightarrow> nat"
  assumes alloc_mine: "window_ok s \<Longrightarrow> mine q \<Longrightarrow> k < 32 \<Longrightarrow> avail s + 2 * 2 ^ k \<le> 2 ^ 32 \<Longrightarrow> alloc q (2 ^ k) s = (r, s') \<Longrightarrow>
      window_ok s' \<and> limit s' = limit s \<and> avail s \<le> avail s' \<and> avail s' \<le> avail s + 2 * 2 ^ k \<and>
      (r \<noteq> 0 \<longrightarrow> 2 ^ k dvd unat r \<and> avail s \<le> unat r \<and> unat r + 2 ^ k \<le> avail s' \<and> avail s' \<le> limit s)"
    and alloc_other: "window_ok s \<Longrightarrow> \<not> mine q \<Longrightarrow> alloc q sz s = (r, s') \<Longrightarrow>
      window_ok s' \<and> limit s' = limit s \<and> avail s' = avail s"
begin

lemma alloc_first:
  assumes "window_ok s" "pow2_sizes mine (x # xs)" "avail s + demand mine (x # xs) \<le> 2 ^ 32" "alloc (fst x) (snd x) s = (r, s')"
  shows "window_ok s' \<and> limit s' = limit s \<and> avail s \<le> avail s' \<and> avail s' + demand mine xs \<le> 2 ^ 32 \<and> pow2_sizes mine xs \<and>
    (mine (fst x) \<longrightarrow> r \<noteq> 0 \<longrightarrow> block_ok (avail s) (limit s) r (snd x) \<and> unat r + unat (snd x) \<le> avail s')"
proof (cases "mine (fst x)")
  case True
  then obtain k where k: "k < 32" "snd x = 2 ^ k" using assms(2) by (auto simp: pow2_sizes_def)
  have d: "demand mine (x # xs) = 2 * 2 ^ k + demand mine xs"
    using True k by (simp add: demand_def pow2_unat)
  then show ?thesis
    using alloc_mine [of s "fst x" k r s'] assms True k by (auto simp: block_ok_def pow2_unat pow2_sizes_def)
next
  case False
  then show ?thesis
    using alloc_other [of s "fst x" "snd x" r s'] assms by (auto simp: demand_def pow2_sizes_def)
qed

lemma alloc_all_blocks:
  assumes "window_ok s" "pow2_sizes mine reqs" "avail s + demand mine reqs \<le> 2 ^ 32" "alloc_all alloc reqs s = (rs, s')"
  shows "length rs = length reqs \<and> avail s \<le> avail s' \<and> limit s' = limit s \<and>
    (\<forall>i < length reqs. mine (fst (reqs ! i)) \<longrightarrow> rs ! i \<noteq> 0 \<longrightarrow> block_ok (avail s) (limit s) (rs ! i) (snd (reqs ! i)))"
  using assms
proof (induction reqs arbitrary: s rs)
  case (Cons x xs)
  obtain r s1 rs1 where first: "alloc (fst x) (snd x) s = (r, s1)" and rest: "alloc_all alloc xs s1 = (rs1, s')"
    and rs: "rs = r # rs1"
    using Cons.prems(4) by (auto split: prod.splits)
  note a = alloc_first [OF Cons.prems(1-3) first]
  with Cons.IH [OF _ _ _ rest] have ih: "length rs1 = length xs" "avail s1 \<le> avail s'" "limit s' = limit s1"
    "\<And>i. i < length xs \<Longrightarrow> mine (fst (xs ! i)) \<Longrightarrow> rs1 ! i \<noteq> 0 \<Longrightarrow> block_ok (avail s1) (limit s1) (rs1 ! i) (snd (xs ! i))"
    by auto
  have "block_ok (avail s) (limit s) (rs ! i) (snd ((x # xs) ! i))"
    if "i < length (x # xs)" "mine (fst ((x # xs) ! i))" "rs ! i \<noteq> 0" for i
    using that a ih(4) by (cases i) (auto simp: rs intro: block_ok_mono)
  with a ih rs show ?case by auto
qed simp

lemma alloc_all_ordered:
  assumes "window_ok s" "pow2_sizes mine reqs" "avail s + demand mine reqs \<le> 2 ^ 32" "alloc_all alloc reqs s = (rs, s')"
    and "i < j" "j < length reqs" "mine (fst (reqs ! i))" "mine (fst (reqs ! j))" "rs ! i \<noteq> 0" "rs ! j \<noteq> 0"
  shows "unat (rs ! i) + unat (snd (reqs ! i)) \<le> unat (rs ! j)"
  using assms
proof (induction reqs arbitrary: s rs i j)
  case (Cons x xs)
  obtain r s1 rs1 where first: "alloc (fst x) (snd x) s = (r, s1)" and rest: "alloc_all alloc xs s1 = (rs1, s')"
    and rs: "rs = r # rs1"
    using Cons.prems(4) by (auto split: prod.splits)
  note a = alloc_first [OF Cons.prems(1-3) first]
  obtain j' where j: "j = Suc j'" using Cons.prems(5) by (cases j) auto
  show ?case
  proof (cases i)
    case 0
    have "block_ok (avail s1) (limit s1) (rs1 ! j') (snd (xs ! j'))"
      using alloc_all_blocks [OF _ _ _ rest] a Cons.prems(6,8,10) by (simp add: rs j)
    then show ?thesis using a 0 j Cons.prems(7,9) by (auto simp: rs block_ok_def)
  next
    case (Suc i')
    then show ?thesis using Cons.IH [OF _ _ _ rest, of i' j'] a Cons.prems(5-10) by (simp add: rs j)
  qed
qed simp

end

subsection \<open>Two windows with one pointer each\<close>

text \<open>The \<open>addr_for_bar\<close> that \<open>brd_amigaone.c\<close> and \<open>brd_sam460.c\<close> both have keeps the contract, for each of its windows.\<close>

definition windows_alloc :: "u32 \<Rightarrow> u32 \<Rightarrow> ('h, 'x) bar_state_scheme \<Rightarrow> u32 \<times> ('h, 'x) bar_state_scheme" where
  "windows_alloc type sz s =
     (if sz = 0 then (0, s)
      else if type = BAR_SPACE_IO then
        (case bump (ioavail s) sz (iolen s) of (ret, a) \<Rightarrow> (ret, s\<lparr>ioavail := a\<rparr>))
      else (case bump (memavail s) sz (membase s + memlen s) of (ret, a) \<Rightarrow> (ret, s\<lparr>memavail := a\<rparr>)))"

lemma pow2_nonzero: "k < 32 \<Longrightarrow> (2 :: u32) ^ k \<noteq> 0"
  using pow2_unat [of k] by (metis power_not_zero unat_0 zero_neq_numeral)

interpretation mem_window: bump_allocator windows_alloc "\<lambda>type. type \<noteq> BAR_SPACE_IO" "\<lambda>_. True"
  "\<lambda>s. unat (memavail s)" "\<lambda>s. unat (membase s + memlen s)"
proof unfold_locales
  fix s s' :: "('h, 'x) bar_state_scheme" and q r :: u32 and k :: nat
  assume "q \<noteq> BAR_SPACE_IO" "k < 32" "unat (memavail s) + 2 * 2 ^ k \<le> 2 ^ 32" "windows_alloc q (2 ^ k) s = (r, s')"
  then show "True \<and> unat (membase s' + memlen s') = unat (membase s + memlen s) \<and>
    unat (memavail s) \<le> unat (memavail s') \<and> unat (memavail s') \<le> unat (memavail s) + 2 * 2 ^ k \<and>
    (r \<noteq> 0 \<longrightarrow> 2 ^ k dvd unat r \<and> unat (memavail s) \<le> unat r \<and> unat r + 2 ^ k \<le> unat (memavail s') \<and>
      unat (memavail s') \<le> unat (membase s + memlen s))"
    using bump_spec [of k "memavail s" "membase s + memlen s"]
    by (auto simp: windows_alloc_def pow2_nonzero split: prod.splits)
qed (auto simp: windows_alloc_def split: prod.splits if_splits)

interpretation io_window: bump_allocator windows_alloc "\<lambda>type. type = BAR_SPACE_IO" "\<lambda>_. True"
  "\<lambda>s. unat (ioavail s)" "\<lambda>s. unat (iolen s)"
proof unfold_locales
  fix s s' :: "('h, 'x) bar_state_scheme" and q r :: u32 and k :: nat
  assume "q = BAR_SPACE_IO" "k < 32" "unat (ioavail s) + 2 * 2 ^ k \<le> 2 ^ 32" "windows_alloc q (2 ^ k) s = (r, s')"
  then show "True \<and> unat (iolen s') = unat (iolen s) \<and>
    unat (ioavail s) \<le> unat (ioavail s') \<and> unat (ioavail s') \<le> unat (ioavail s) + 2 * 2 ^ k \<and>
    (r \<noteq> 0 \<longrightarrow> 2 ^ k dvd unat r \<and> unat (ioavail s) \<le> unat r \<and> unat r + 2 ^ k \<le> unat (ioavail s') \<and>
      unat (ioavail s') \<le> unat (iolen s))"
    using bump_spec [of k "ioavail s" "iolen s"]
    by (auto simp: windows_alloc_def pow2_nonzero split: prod.splits)
qed (auto simp: windows_alloc_def split: prod.splits if_splits)

text \<open>Whatever is asked for, neither pointer moves past the end of its window.\<close>

lemma windows_alloc_limits:
  assumes "ioavail s \<le> iolen s" "memavail s \<le> membase s + memlen s"
  shows "ioavail (snd (windows_alloc type sz s)) \<le> iolen s \<and> memavail (snd (windows_alloc type sz s)) \<le> membase s + memlen s"
  using assms by (auto simp: windows_alloc_def bump_def Let_def)

lemma fold_keeps: "(\<And>x s. P s \<Longrightarrow> P (f x s)) \<Longrightarrow> P s \<Longrightarrow> P (fold f xs s)"
  by (induction xs arbitrary: s) simp_all

end
