(* ===== verification/Brd_AmigaOne.thy ===== *)
theory Brd_AmigaOne
  imports Bar Board
begin

text \<open>
  The AmigaOne board: \<open>brd_amigaone.c\<close>. The state is the hardware, the PCI windows and the board
  information; the bus is a parameter. The operations are those of the file: setting up the
  windows, the south bridge, every PCI device, finding the size of memory and filling in \<open>brd\<close>.
  The arguments of \<open>printf\<close> that read configuration registers are evaluated left to right.
\<close>

record 'h amigaone = "'h bar_state" +
  bd :: bd_t

definition pci_irq_map :: "u8 list" where "pci_irq_map = [9, 10, 11, 7]"

definition setup_pci_params :: "'h amigaone \<Rightarrow> 'h amigaone" where
  "setup_pci_params s = (pci_set_addr 0xfec00cf8 0xfee00cfc s)
     \<lparr>iobase := 0xfe000000, iolen := 0xc00000, ioavail := 0x800000,
      membase := 0x80000000, memlen := 0x7d000000, memavail := 0x80000000\<rparr>"

definition addr_for_bar :: "u32 \<Rightarrow> u32 \<Rightarrow> ('h, 'x) bar_state_scheme \<Rightarrow> u32 \<times> ('h, 'x) bar_state_scheme" where
  "addr_for_bar type sz s =
     (if sz = 0 then (0, s)
      else if type = BAR_SPACE_IO then
        (case bump (ioavail s) sz (iolen s) of (ret, a) \<Rightarrow> (ret, s\<lparr>ioavail := a\<rparr>))
      else (case bump (memavail s) sz (membase s + memlen s) of (ret, a) \<Rightarrow> (ret, s\<lparr>memavail := a\<rparr>)))"

definition setup_isa :: "'h bus \<Rightarrow> u32 \<Rightarrow> 'h amigaone \<Rightarrow> 'h amigaone" where
  "setup_isa b devfn s =
     (let s = pci_write_config8 b devfn 0x4a 0x04 s;
          s = pci_write_config8 b devfn 0x50 0x0e s;
          s = pci_write_config8 b devfn 0x51 0x76 s;
          s = pci_write_config8 b devfn 0x52 0x34 s;
          s = pci_write_config8 b devfn 0x54 0x00 s;
          s = pci_write_config8 b devfn 0x55 (push_bit 4 (pci_irq_map ! 0)) s;
          s = pci_write_config8 b devfn 0x56 (push_bit 4 (pci_irq_map ! 2) OR pci_irq_map ! 1) s in
      pci_write_config8 b devfn 0x57 (push_bit 4 (pci_irq_map ! 3)) s)"

definition setup_fdc :: "'h bus \<Rightarrow> u32 \<Rightarrow> 'h amigaone \<Rightarrow> 'h amigaone" where
  "setup_fdc b devfn s =
     (let s = pci_write_config8 b devfn 0x85 3 s;
          h = write8 b (iobase s + 0x3f0) 0xe3 (hw s);
          h = write8 b (iobase s + 0x3f1) (push_bit 2 0x3f) h;
          h = write8 b (iobase s + 0x3f0) 0xe2 h;
          (c, h) = read8 b (iobase s + 0x3f1) h;
          h = write8 b (iobase s + 0x3f0) 0xe2 h;
          h = write8 b (iobase s + 0x3f1) (c OR 0x10) h in
      pci_write_config8 b devfn 0x85 1 (s\<lparr>hw := h\<rparr>))"

definition setup_ide :: "'h bus \<Rightarrow> u32 \<Rightarrow> 'h amigaone \<Rightarrow> 'h amigaone" where
  "setup_ide b devfn s =
     (let s = pci_write_config8 b devfn 0x40 0x03 s;
          s = pci_write_config8 b devfn REG_COMMAND 0x07 s;
          s = pci_write_config8 b devfn 0x09 0x8a s;
          s = pci_write_config8 b devfn 0x3D 0x00 s;
          s = pci_write_config8 b devfn 0x3C 0xff s in
      pci_write_config8 b devfn 0x0D 0x20 s)"

text \<open>The registers of the USB functions of the south bridge.\<close>

definition setup_usb :: "'h bus \<Rightarrow> u32 \<Rightarrow> 'h amigaone \<Rightarrow> 'h amigaone" where
  "setup_usb b devfn s =
     (let s = pci_write_config8 b devfn 0x05 0x17 s;
          s = pci_write_config8 b devfn 0x06 0x01 s;
          s = pci_write_config8 b devfn 0x41 0x12 s in
      pci_write_config8 b devfn 0x42 0x03 s)"

definition route_irq :: "u32 \<Rightarrow> u8 \<Rightarrow> u8 \<Rightarrow> u8" where
  "route_irq devfn pin irq =
     (if pin > 0 \<and> pin < 5 \<and> irq = 0xff then
        if PCI_SLOT devfn = 6 then pci_irq_map ! 3
        else if PCI_SLOT devfn = 7 then pci_irq_map ! (unat pin - 1)
        else pci_irq_map ! ((unat (PCI_SLOT devfn) + unat pin - 1) mod 4)
      else irq)"

text \<open>The second half of \<open>setup_pci_device\<close>: the interrupt line and the base address registers.\<close>

definition setup_irq_bars :: "'h bus \<Rightarrow> u32 \<Rightarrow> u16 \<Rightarrow> u8 \<Rightarrow> u8 \<Rightarrow> 'h amigaone \<Rightarrow> 'h amigaone" where
  "setup_irq_bars b devfn cmd latency_timer irq s =
     (let (pin, s) = pci_read_config8 b devfn 0x3D s;
          irq = route_irq devfn pin irq;
          s = (if irq \<noteq> 0xff then pci_write_config8 b devfn 0x3C irq s else s) in
      map_bars b addr_for_bar devfn latency_timer 0 cmd s)"

definition setup_pci_device :: "'h bus \<Rightarrow> u32 \<Rightarrow> 'h amigaone \<Rightarrow> 'h amigaone" where
  "setup_pci_device b devfn s =
     (let (vendev, s) = pci_read_config32 b devfn 0x00 s in
      if vendev = 0xffffffff then s else
      let (cmd, s) = pci_read_config16 b devfn REG_COMMAND s;
          (_, s) = pci_read_config32 b devfn 0x08 s;
          (_, s) = pci_read_config16 b devfn 0x3C s;
          cmd = cmd AND NOT (REG_COMMAND_BM OR REG_COMMAND_MEM OR REG_COMMAND_IO);
          s = pci_write_config16 b devfn REG_COMMAND cmd s in
      if PCI_SLOT devfn = 7 then
        if PCI_FUNC devfn = 0 then setup_fdc b devfn (setup_isa b devfn s)
        else if PCI_FUNC devfn = 1 then setup_ide b devfn s
        else if PCI_FUNC devfn = 2 \<or> PCI_FUNC devfn = 3 then setup_irq_bars b devfn cmd 0x40 5 (setup_usb b devfn s)
        else if PCI_FUNC devfn = 4 \<or> PCI_FUNC devfn = 6 then s
        else setup_irq_bars b devfn cmd 0x80 0xff s
      else setup_irq_bars b devfn cmd 0x80 0xff s)"

definition setup_slot :: "'h bus \<Rightarrow> nat \<Rightarrow> 'h amigaone \<Rightarrow> 'h amigaone" where
  "setup_slot b i s =
     (let devfn = PCI_DEV 0 (of_nat i) 0;
          s = setup_pci_device b devfn s;
          (ht, s) = pci_read_config8 b devfn 0x0E s in
      if ht AND 0x80 \<noteq> 0 then fold (\<lambda>j. setup_pci_device b (PCI_DEV 0 (of_nat i) (of_nat j))) [1..<8] s else s)"

definition amigaone_setup :: "'h bus \<Rightarrow> 'h amigaone \<Rightarrow> 'h amigaone" where
  "amigaone_setup b s = fold (setup_slot b) [0..<32] (setup_pci_params s)"

subsection \<open>Memory size\<close>

abbreviation PATTERN :: u32 where "PATTERN \<equiv> 0xaaaaaaaa"

text \<open>The loop that halves \<open>i\<close> until the last word of the area can be written and read back.\<close>

function probe_down :: "'h bus \<Rightarrow> u32 \<Rightarrow> u32 \<Rightarrow> 'h \<Rightarrow> u32 \<times> 'h" where
  "probe_down b start i h =
     (if i > 4 then
        let p = start + i - 4;
            h = write32 b p PATTERN h;
            (v, h) = read32 b p h in
        if v = PATTERN then (i, write32 b p 0 h) else probe_down b start (i div 2) h
      else (i, h))"
  by pat_completeness auto
termination
  by (relation "measure (\<lambda>(b, start, i, h). unat i)") (auto simp: unat_div word_less_nat_alt)

declare probe_down.simps [simp del]

partial_function (option) find_memory_size :: "'h bus \<Rightarrow> u32 \<Rightarrow> 'h \<Rightarrow> (u32 \<times> 'h) option" where [code]:
  "find_memory_size b start h =
     (case probe_down b start (if start \<noteq> 0 then start else 0x80000000) h of (i, h) \<Rightarrow>
        if start + i + 32 * 1024 < 0x80000000 then
          let p = start + i + 32 * 1024;
              h = write32 b p PATTERN h in
          case read32 b p h of (v, h) \<Rightarrow>
            if v = PATTERN then
              Option.bind (find_memory_size b i (write32 b p 0 h)) (\<lambda>(j, h). Some (i + j, h))
            else Some (i, h)
        else Some (i, h))"

text \<open>
  The search runs on the memory that holds the program's data: what it stores reaches this memory as well as
  the devices, what it loads is what the bus answers.
\<close>

definition with_ram :: "'h bus \<Rightarrow> (mem \<times> 'h) bus" where
  "with_ram b =
     \<lparr>bus_load = (\<lambda>n a (m, h). case bus_load b n a h of (v, h) \<Rightarrow> (v, (m, h))),
      bus_store = (\<lambda>n a v (m, h).
        (if n = 4 then put_be32 m a v else if n = 2 then put_be16 m a (ucast v) else m(a := ucast v), bus_store b n a v h))\<rparr>"

definition no_claim :: "u32 \<Rightarrow> u32 \<Rightarrow> mem \<Rightarrow> 'h amigaone \<Rightarrow> (u32 \<times> mem \<times> 'h amigaone) option" where
  "no_claim addr sz m s = Some (if addr + sz < bi_memsize (bd s) then addr else 0, m, s)"

text \<open>
  \<open>amigaone_init\<close> fills in \<open>brd\<close> and \<open>bd\<close>. \<open>g5\<close> tells whether \<open>TARGET_G5\<close> is defined, \<open>bd_addr\<close> is the
  address of \<open>bd\<close>; the other fields of \<open>brd\<close> keep the values given.
\<close>

definition amigaone_init ::
  "bool \<Rightarrow> u32 \<Rightarrow> 'h bus \<Rightarrow> 'h amigaone brd_t \<Rightarrow> 'h amigaone \<Rightarrow> mem \<Rightarrow> ('h amigaone brd_t \<times> 'h amigaone \<times> mem) option" where
  "amigaone_init g5 bd_addr b brd s m =
     (let brd = brd\<lparr>claim := no_claim, brd_setup := Some (\<lambda>m s. Done (m, amigaone_setup b s)), exec_addr := 0x1000000,
            serial_base := 0xfe0003f8, info := bd_addr\<rparr> in
      Option.bind (find_memory_size (with_ram b) 0 (m, hw s)) (\<lambda>(memsize, m, h).
        let memsize = (if g5 \<and> memsize > 0x40000000 then 0x40000000 else memsize) in
        Some (brd, s\<lparr>hw := h, bd := (bd s)\<lparr>bi_memsize := memsize, bi_flashstart := 0xfff00000,
          bi_flashsize := 1, bi_bootflags := 1, bi_intfreq := 1150000000, bi_busfreq := 100000000,
          bi_baudrate := 115200\<rparr>\<rparr>, m)))"

subsection \<open>Claims\<close>

interpretation a1_ram: memory_board no_claim "\<lambda>s. bi_memsize (bd s)"
proof
  show "no_claim addr sz m f = Some (addr, m, f)" if "unat addr + unat sz < unat (bi_memsize (bd f))" for addr sz f m
    using that add_less_unat [of addr sz] order_less_trans [OF that unat32_less] by (simp add: no_claim_def)
qed (auto simp: no_claim_def add_less_unat)

subsection \<open>Addresses of base address registers\<close>

lemma addr_for_bar_windows_alloc: "addr_for_bar = windows_alloc"
  by (simp add: fun_eq_iff addr_for_bar_def windows_alloc_def)

interpretation a1_mem: bump_allocator addr_for_bar "\<lambda>type. type \<noteq> BAR_SPACE_IO" "\<lambda>_. True"
  "\<lambda>s. unat (memavail s)" "\<lambda>s. unat (membase s + memlen s)"
  unfolding addr_for_bar_windows_alloc by (rule mem_window.bump_allocator_axioms)

interpretation a1_io: bump_allocator addr_for_bar "\<lambda>type. type = BAR_SPACE_IO" "\<lambda>_. True"
  "\<lambda>s. unat (ioavail s)" "\<lambda>s. unat (iolen s)"
  unfolding addr_for_bar_windows_alloc by (rule io_window.bump_allocator_axioms)

text \<open>
  C16. Whatever sequence of requests the devices of the AmigaOne make, as long as they ask for at
  most 1 GB of memory space in total, the memory blocks handed out are aligned to their size, lie in
  the window from \<open>0x80000000\<close> to \<open>0xfd000000\<close>, and do not overlap each other.
\<close>

theorem amigaone_memory_bars:
  assumes "alloc_all addr_for_bar reqs (setup_pci_params s) = (rs, s')"
    and "pow2_sizes (\<lambda>type. type \<noteq> BAR_SPACE_IO) reqs"
    and "demand (\<lambda>type. type \<noteq> BAR_SPACE_IO) reqs \<le> 2 ^ 31"
    and "i < length reqs" "fst (reqs ! i) \<noteq> BAR_SPACE_IO" "rs ! i \<noteq> 0"
  shows "unat (snd (reqs ! i)) dvd unat (rs ! i) \<and> 0x80000000 \<le> unat (rs ! i) \<and>
    unat (rs ! i) + unat (snd (reqs ! i)) \<le> 0xfd000000 \<and>
    (\<forall>j. j < i \<longrightarrow> fst (reqs ! j) \<noteq> BAR_SPACE_IO \<longrightarrow> rs ! j \<noteq> 0 \<longrightarrow>
      unat (rs ! j) + unat (snd (reqs ! j)) \<le> unat (rs ! i))"
proof -
  have params: "unat (memavail (setup_pci_params s)) = 0x80000000"
    "unat (membase (setup_pci_params s) + memlen (setup_pci_params s)) = 0xfd000000"
    by (simp_all add: setup_pci_params_def)
  have fits: "unat (memavail (setup_pci_params s)) + demand (\<lambda>type. type \<noteq> BAR_SPACE_IO) reqs \<le> 2 ^ 32"
    using assms(3) by (simp add: params)
  have "block_ok 0x80000000 0xfd000000 (rs ! i) (snd (reqs ! i))"
    using a1_mem.alloc_all_blocks [OF TrueI assms(2) fits assms(1)] assms(4-6) unfolding params by blast
  moreover have "unat (rs ! j) + unat (snd (reqs ! j)) \<le> unat (rs ! i)"
    if "j < i" "fst (reqs ! j) \<noteq> BAR_SPACE_IO" "rs ! j \<noteq> 0" for j
    by (rule a1_mem.alloc_all_ordered [OF TrueI assms(2) fits assms(1) that(1) assms(4) that(2) assms(5) that(3) assms(6)])
  ultimately show ?thesis by (simp add: block_ok_def)
qed

theorem amigaone_memory_bars_witness:
  "\<exists>rs s'. alloc_all addr_for_bar [(0, 0x1000), (1, 0x100), (8, 0x100000)]
       (setup_pci_params \<lparr>hw = (), pci_conf_addr = 0, pci_data_addr = 0, iobase = 0, iolen = 0, membase = 0, memlen = 0,
          ioavail = 0, memavail = 0, bd = bd_zero\<rparr>) = (rs, s') \<and> rs = [0x80000000, 0x800000, 0x80100000] \<and>
     unat (rs ! 0) + 0x1000 \<le> unat (rs ! 2)"
proof -
  let ?reqs = "[(0, 0x1000), (1, 0x100), (8, 0x100000)] :: (u32 \<times> u32) list"
  let ?s = "setup_pci_params \<lparr>hw = (), pci_conf_addr = 0, pci_data_addr = 0, iobase = 0, iolen = 0, membase = 0, memlen = 0,
          ioavail = 0, memavail = 0, bd = bd_zero\<rparr>"
  obtain rs s' where run: "alloc_all addr_for_bar ?reqs ?s = (rs, s')" by (cases "alloc_all addr_for_bar ?reqs ?s")
  then have rs: "rs = [0x80000000, 0x800000, 0x80100000]"
    by (simp add: addr_for_bar_def bump_def BAR_SPACE_IO_def ROUND_UP_def ROUND_DOWN_def setup_pci_params_def pci_set_addr_def)
  have "\<exists>k < 32. (0x1000 :: u32) = 2 ^ k" by (rule exI [of _ 12]) simp
  moreover have "\<exists>k < 32. (0x100000 :: u32) = 2 ^ k" by (rule exI [of _ 20]) simp
  ultimately have sizes: "pow2_sizes (\<lambda>type. type \<noteq> BAR_SPACE_IO) ?reqs"
    by (simp add: pow2_sizes_def BAR_SPACE_IO_def)
  have "unat (rs ! 0) + unat (snd (?reqs ! 0)) \<le> unat (rs ! 2)"
    using amigaone_memory_bars [OF run sizes, of 2] by (simp add: demand_def BAR_SPACE_IO_def rs)
  with run rs show ?thesis by auto
qed

subsection \<open>The windows during set-up\<close>

definition windows_ok :: "bd_t \<Rightarrow> 'h amigaone \<Rightarrow> bool" where
  "windows_ok d s \<longleftrightarrow> ioavail s \<le> 0xc00000 \<and> memavail s \<le> 0xfd000000 \<and> iobase s = 0xfe000000 \<and> iolen s = 0xc00000 \<and>
     membase s = 0x80000000 \<and> memlen s = 0x7d000000 \<and> pci_conf_addr s = 0xfec00cf8 \<and> pci_data_addr s = 0xfee00cfc \<and> bd s = d"

lemma windows_ok_blind: "hw_blind (windows_ok d)"
  by (simp add: hw_blind_def windows_ok_def)

lemmas windows_keeps =
  config_write_keeps [OF windows_ok_blind] config_read_keeps [OF windows_ok_blind] hw_blindD [OF windows_ok_blind]

lemma addr_for_bar_windows: "windows_ok d s \<Longrightarrow> windows_ok d (snd (addr_for_bar type sz s))"
  by (auto simp: windows_ok_def addr_for_bar_def bump_def Let_def split: if_splits)

lemma setup_bridge_windows:
  assumes "windows_ok d s"
  shows "windows_ok d (setup_isa b devfn s)" "windows_ok d (setup_fdc b devfn s)" "windows_ok d (setup_ide b devfn s)"
    "windows_ok d (setup_usb b devfn s)"
  using assms by (simp_all add: setup_isa_def setup_fdc_def setup_ide_def setup_usb_def Let_def split_beta windows_keeps)

lemma setup_irq_bars_windows: "windows_ok d s \<Longrightarrow> windows_ok d (setup_irq_bars b devfn cmd lt irq s)"
  unfolding setup_irq_bars_def Let_def split_beta
  by (rule map_bars_keeps [OF windows_ok_blind addr_for_bar_windows]) (simp_all add: windows_keeps)

lemma setup_pci_device_windows: "windows_ok d s \<Longrightarrow> windows_ok d (setup_pci_device b devfn s)"
  by (simp add: setup_pci_device_def Let_def split_beta windows_keeps setup_bridge_windows setup_irq_bars_windows)

lemma setup_slot_windows: "windows_ok d s \<Longrightarrow> windows_ok d (setup_slot b i s)"
  by (simp add: setup_slot_def Let_def split_beta windows_keeps setup_pci_device_windows
      fold_keeps [where P = "windows_ok d"] del: upt_rec_numeral)

lemma setup_pci_params_windows: "windows_ok (bd s) (setup_pci_params s)"
  by (simp add: windows_ok_def setup_pci_params_def pci_set_addr_def)

lemma amigaone_setup_keeps: "windows_ok (bd s) (amigaone_setup b s)"
  unfolding amigaone_setup_def by (rule fold_keeps [where P = "windows_ok (bd s)", OF setup_slot_windows setup_pci_params_windows])

text \<open>
  C18. Whatever the devices answer, setting up the AmigaOne keeps the windows and the addresses of
  the configuration port as \<open>setup_pci_params\<close> set them, never moves an allocation pointer past the
  end of its window, and does not touch the board information.
\<close>

theorem amigaone_setup_windows: "windows_ok (bd s) (amigaone_setup b s)"
  by (rule amigaone_setup_keeps)

lemma alloc_all_keeps:
  assumes "alloc_all addr_for_bar reqs s = (rs, s')" "windows_ok d s"
  shows "windows_ok d s'"
  using assms
proof (induction reqs arbitrary: s rs)
  case (Cons x xs)
  then show ?case
    using addr_for_bar_windows [OF Cons.prems(2), of "fst x" "snd x"] by (auto simp: Let_def split: prod.splits)
qed simp

lemma alloc_all_append:
  "alloc_all f xs s = (rs, s1) \<Longrightarrow> alloc_all f ys s1 = (qs, s2) \<Longrightarrow> alloc_all f (xs @ ys) s = (rs @ qs, s2)"
  by (induction xs arbitrary: s rs) (auto simp: Let_def split: prod.splits)

text \<open>
  C21. What the missing overflow check costs, after any requests: once less than \<open>2 ^ k\<close> bytes are left below 4 GB,
  a memory register of this size is refused, but rounding up has wrapped around, and the next memory register that is not
  larger is placed at \<open>2 ^ k\<close>, in main memory and far below the window, which starts at 2 GB.
\<close>

theorem amigaone_bar_wraps:
  assumes run: "alloc_all addr_for_bar reqs (setup_pci_params s) = (rs, s')" and left: "2 ^ 32 - 2 ^ k < unat (memavail s')"
    and mem: "t \<noteq> BAR_SPACE_IO" "u \<noteq> BAR_SPACE_IO" and sizes: "j \<le> k" "k \<le> 30"
  shows "alloc_all addr_for_bar (reqs @ [(t, 2 ^ k), (u, 2 ^ j)]) (setup_pci_params s) = (rs @ [0, 2 ^ k], s'\<lparr>memavail := 2 ^ k + 2 ^ j\<rparr>)"
proof (rule alloc_all_append [OF run])
  have lim: "membase s' + memlen s' = 0xfd000000"
    using alloc_all_keeps [OF run setup_pci_params_windows] by (simp add: windows_ok_def)
  have p: "unat (2 ^ k :: u32) = 2 ^ k" "unat (2 ^ j :: u32) = 2 ^ j" "(2 ^ k :: u32) \<noteq> 0" "(2 ^ j :: u32) \<noteq> 0"
    using sizes by (simp_all add: pow2_unat pow2_nonzero)
  have le: "(2 :: nat) ^ k \<le> 2 ^ 30" "(2 :: nat) ^ j \<le> 2 ^ k" using sizes by (intro power_increasing; simp)+
  have "ROUND_UP (memavail s') (2 ^ k) = 0" by (rule ROUND_UP_wraps) (use sizes left in simp_all)
  moreover have "ROUND_UP (2 ^ k) (2 ^ j) = (2 ^ k :: u32)" by (rule ROUND_UP_pow2) (use sizes in simp_all)
  moreover have sum: "2 ^ k + 2 ^ j \<le> (2147483648 :: nat)"
  proof -
    have "(2 :: nat) ^ k \<le> 1073741824" using le(1) by simp
    then show ?thesis using le(2) by linarith
  qed
  moreover have "unat (2 ^ k + 2 ^ j :: u32) = 2 ^ k + 2 ^ j"
    using unat_add_small [of "2 ^ k :: u32" "2 ^ j"] sum by (simp add: p)
  ultimately show "alloc_all addr_for_bar [(t, 2 ^ k), (u, 2 ^ j)] s' = ([0, 2 ^ k], s'\<lparr>memavail := 2 ^ k + 2 ^ j\<rparr>)"
    using mem le p by (simp add: addr_for_bar_def bump_def Let_def lim word_less_nat_alt)
qed

theorem amigaone_bar_wraps_witness:
  "\<exists>s'. alloc_all addr_for_bar [(0, 0x40000000), (0, 0x20000000), (8, 0x10000000), (0, 0x1000), (0, 0x10000000), (0, 0x1000)]
     (setup_pci_params \<lparr>hw = (), pci_conf_addr = 0, pci_data_addr = 0, iobase = 0, iolen = 0, membase = 0, memlen = 0,
        ioavail = 0, memavail = 0, bd = bd_zero\<rparr>) = ([0x80000000, 0xc0000000, 0xe0000000, 0xf0000000, 0, 0x10000000], s')"
proof -
  let ?s = "setup_pci_params \<lparr>hw = (), pci_conf_addr = 0, pci_data_addr = 0, iobase = 0, iolen = 0, membase = 0, memlen = 0,
        ioavail = 0, memavail = 0, bd = bd_zero\<rparr>"
  let ?reqs = "[(0, 0x40000000), (0, 0x20000000), (8, 0x10000000), (0, 0x1000)] :: (u32 \<times> u32) list"
  obtain rs s' where run: "alloc_all addr_for_bar ?reqs ?s = (rs, s')" by (cases "alloc_all addr_for_bar ?reqs ?s")
  then have "rs = [0x80000000, 0xc0000000, 0xe0000000, 0xf0000000]" "memavail s' = 0xf0001000"
    by (auto simp: addr_for_bar_def bump_def BAR_SPACE_IO_def ROUND_UP_def ROUND_DOWN_def setup_pci_params_def pci_set_addr_def)
  then show ?thesis
    using amigaone_bar_wraps [OF run, of 28 0 0 12] by (simp add: BAR_SPACE_IO_def)
qed

subsection \<open>The size of memory\<close>

text \<open>
  What the search relies on: \<open>M\<close> bytes of memory from address 0, in which a word can be written and
  read back; behind them, below 2 GB, nothing returns the pattern.
\<close>

definition ram_below :: "'h bus \<Rightarrow> nat \<Rightarrow> bool" where
  "ram_below b M \<longleftrightarrow>
     (\<forall>a h. unat a + 4 \<le> M \<longrightarrow> fst (read32 b a (write32 b a PATTERN h)) = PATTERN) \<and>
     (\<forall>a h. M \<le> unat a \<longrightarrow> unat a < 2 ^ 31 \<longrightarrow> fst (read32 b a (write32 b a PATTERN h)) \<noteq> PATTERN)"

text \<open>
  The words it stores to when there are \<open>M\<close> bytes: those it tries behind the memory, the last one in memory, and with
  three times a power of two the last one of the larger part and one 32 KB behind it. A property of the hardware
  that \<open>stays\<close> so under loads, and under stores to these words, is one of what the search leaves.
\<close>

definition search_word :: "nat \<Rightarrow> u32 \<Rightarrow> bool" where
  "search_word M a \<longleftrightarrow> M \<le> unat a \<and> unat a < 2 ^ 31 \<or> unat a + 4 = M \<or>
     (\<exists>k. M = 3 * 2 ^ k \<and> (unat a + 4 = 2 ^ Suc k \<or> unat a = 2 ^ Suc k + 2 ^ 15))"

definition stays :: "'h bus \<Rightarrow> (u32 \<Rightarrow> bool) \<Rightarrow> ('h \<Rightarrow> bool) \<Rightarrow> bool" where
  "stays b W P \<longleftrightarrow> (\<forall>a v h. W a \<longrightarrow> P h \<longrightarrow> P (write32 b a v h)) \<and> (\<forall>a h. P h \<longrightarrow> P (snd (read32 b a h)))"

lemma stays_write: "stays b W P \<Longrightarrow> W a \<Longrightarrow> P h \<Longrightarrow> P (write32 b a v h)"
  by (simp add: stays_def)

lemma stays_probe: "stays b W P \<Longrightarrow> W a \<Longrightarrow> P h \<Longrightarrow> read32 b a (write32 b a v h) = (w, h1) \<Longrightarrow> P h1"
  unfolding stays_def by (metis snd_conv)

lemma stays_True: "stays b (\<lambda>_. True) (\<lambda>_. True)"
  by (simp add: stays_def)

lemma ram_hit: "ram_below b M \<Longrightarrow> unat a + 4 \<le> M \<Longrightarrow> \<exists>h'. read32 b a (write32 b a PATTERN h) = (PATTERN, h')"
  unfolding ram_below_def by (metis prod.collapse)

lemma ram_miss: "ram_below b M \<Longrightarrow> M \<le> unat a \<Longrightarrow> unat a < 2 ^ 31 \<Longrightarrow>
    \<exists>v h'. read32 b a (write32 b a PATTERN h) = (v, h') \<and> v \<noteq> PATTERN"
  unfolding ram_below_def by (metis prod.collapse)

lemma pow2_half: "0 < n \<Longrightarrow> n < 32 \<Longrightarrow> (2 ^ n :: u32) div 2 = 2 ^ (n - 1)"
proof -
  assume n: "0 < n" "n < 32"
  have "unat ((2 ^ n :: u32) div 2) = 2 ^ n div 2" using n by (simp add: unat_div pow2_unat)
  also have "\<dots> = 2 ^ (n - 1)" using n by (cases n) simp_all
  finally show ?thesis using n by (simp add: word_unat_eq_iff pow2_unat)
qed

lemma pow2_ge8: "3 \<le> n \<Longrightarrow> (8 :: nat) \<le> 2 ^ n"
  using power_increasing [of 3 n "2 :: nat"] by simp

lemma probe_addr:
  fixes start :: u32
  assumes "3 \<le> n" "n < 32" "unat start + 2 ^ n \<le> 2 ^ 31"
  shows "unat (start + 2 ^ n - 4) = unat start + 2 ^ n - 4" "4 < (2 ^ n :: u32)"
proof -
  have "unat (start + 2 ^ n) = unat start + 2 ^ n"
    using assms by (subst unat_add_small) (simp_all add: pow2_unat)
  then show "unat (start + 2 ^ n - 4) = unat start + 2 ^ n - 4"
    using pow2_ge8 [OF assms(1)] by (subst unat_sub) (simp_all add: word_le_nat_alt)
  show "4 < (2 ^ n :: u32)" using pow2_ge8 [OF assms(1)] assms(2) by (simp add: word_less_nat_alt pow2_unat)
qed

text \<open>The loop stops at the largest power of two whose area behind \<open>start\<close> ends in memory.\<close>

lemma probe_down_finds:
  assumes ram: "ram_below b M" and m: "3 \<le> m" "m \<le> n" "n < 32"
    and hit: "unat start + 2 ^ m \<le> M" and miss: "n = m \<or> M + 4 \<le> unat start + 2 ^ Suc m"
    and fits: "unat start + 2 ^ n \<le> 2 ^ 31"
    and P: "stays b W P" "\<And>a. M \<le> unat a \<Longrightarrow> unat a < 2 ^ 31 \<Longrightarrow> W a" "W (start + 2 ^ m - 4)" "P h"
  shows "\<exists>h'. probe_down b start (2 ^ n) h = (2 ^ m, h') \<and> P h'"
  using m(2,3) miss fits P(4)
proof (induction "n - m" arbitrary: n h)
  case 0
  then have [simp]: "n = m" by simp
  note a = probe_addr [OF m(1), of start] 
  obtain h1 where "read32 b (start + 2 ^ m - 4) (write32 b (start + 2 ^ m - 4) PATTERN h) = (PATTERN, h1)"
    using ram_hit [OF ram, of "start + 2 ^ m - 4" h] a 0 hit pow2_ge8 [OF m(1)] by auto
  then show ?case using a 0 stays_write [OF P(1,3)] stays_probe [OF P(1,3)] by (subst probe_down.simps) simp
next
  case (Suc d)
  then have n: "m < n" "3 \<le> n" "n < 32" using m(1) by simp_all
  have le: "(2 :: nat) ^ Suc m \<le> 2 ^ n" using n(1) by (intro power_increasing) simp_all
  note a = probe_addr [OF n(2,3), of start]
  have out: "M \<le> unat (start + 2 ^ n - 4)" "unat (start + 2 ^ n - 4) < 2 ^ 31"
    using a Suc.prems n le by fastforce+
  then obtain v h1 where r: "read32 b (start + 2 ^ n - 4) (write32 b (start + 2 ^ n - 4) PATTERN h) = (v, h1)" "v \<noteq> PATTERN"
    using ram_miss [OF ram, of "start + 2 ^ n - 4" h] by blast
  have "P h1" using stays_probe [OF P(1) P(2) [OF out] Suc.prems(5) r(1)] .
  have "(2 :: nat) ^ (n - Suc 0) \<le> 2 ^ n" by (intro power_increasing) simp_all
  then have "unat start + 2 ^ (n - Suc 0) \<le> 2 ^ 31" using Suc.prems(4) by linarith
  then have "\<exists>h'. probe_down b start (2 ^ (n - 1)) h1 = (2 ^ m, h') \<and> P h'"
    using Suc n \<open>P h1\<close> by (intro Suc.hyps(1)) auto
  then show ?case using a r Suc.prems n by (subst probe_down.simps) (simp add: pow2_half)
qed

text \<open>The check for more memory 32 KB behind the area found, and one call of \<open>find_memory_size\<close>.\<close>

lemma check_addr:
  fixes start :: u32
  assumes "m < 32" "unat start + 2 ^ m \<le> 2 ^ 31"
  shows "unat (start + 2 ^ m + 32 * 1024) = unat start + 2 ^ m + 2 ^ 15"
proof -
  have "unat (start + 2 ^ m) = unat start + 2 ^ m"
    using assms unat_add_small [of start "2 ^ m"] by (simp add: pow2_unat)
  then show ?thesis using assms unat_add_small [of "start + 2 ^ m" "32 * 1024"] by simp
qed

lemma check_hit:
  fixes start :: u32
  assumes ram: "ram_below b M" and m: "m < 32" "unat start + 2 ^ m \<le> 2 ^ 31"
    and M: "unat start + 2 ^ m + 2 ^ 15 + 4 \<le> M" "M \<le> 2 ^ 31"
  defines "p \<equiv> start + 2 ^ m + 32 * 1024"
  shows "p < 0x80000000" "\<exists>h'. read32 b p (write32 b p PATTERN h) = (PATTERN, h')"
proof -
  have p: "unat p = unat start + 2 ^ m + 2 ^ 15" unfolding p_def by (rule check_addr [OF m])
  show "p < 0x80000000" using M p by (simp add: word_less_nat_alt)
  show "\<exists>h'. read32 b p (write32 b p PATTERN h) = (PATTERN, h')" using ram_hit [OF ram, of p h] M p by simp
qed

lemma find_memory_size_step:
  assumes ram: "ram_below b M" and loop: "probe_down b start (if start \<noteq> 0 then start else 0x80000000) h = (2 ^ m, h1)"
    and m: "m < 32" "unat start + 2 ^ m \<le> 2 ^ 31"
    and P: "stays b W P" "\<And>a. M \<le> unat a \<Longrightarrow> unat a < 2 ^ 31 \<Longrightarrow> W a" "P h1"
  shows "M \<le> unat start + 2 ^ m + 2 ^ 15 \<Longrightarrow> \<exists>h'. find_memory_size b start h = Some (2 ^ m, h') \<and> P h'"
    "unat start + 2 ^ m + 2 ^ 15 + 4 \<le> M \<Longrightarrow> M \<le> 2 ^ 31 \<Longrightarrow> W (start + 2 ^ m + 32 * 1024) \<Longrightarrow>
       \<exists>h'. find_memory_size b start h = Option.bind (find_memory_size b (2 ^ m) h') (\<lambda>(j, h). Some (2 ^ m + j, h)) \<and> P h'"
proof -
  let ?p = "start + 2 ^ m + 32 * 1024"
  note unfold = find_memory_size.simps [of b start h, unfolded loop prod.case]
  show "\<exists>h'. find_memory_size b start h = Some (2 ^ m, h') \<and> P h'" if M: "M \<le> unat start + 2 ^ m + 2 ^ 15"
  proof (cases "?p < 0x80000000")
    case True
    then have out: "M \<le> unat ?p" "unat ?p < 2 ^ 31" using M check_addr [OF m] by (auto simp: word_less_nat_alt)
    then obtain v h2 where r: "read32 b ?p (write32 b ?p PATTERN h1) = (v, h2)" "v \<noteq> PATTERN"
      using ram_miss [OF ram, of ?p h1] by blast
    then show ?thesis using True stays_probe [OF P(1) P(2) [OF out] P(3) r(1)] unfolding unfold by simp
  qed (simp add: unfold P(3))
  show "\<exists>h'. find_memory_size b start h = Option.bind (find_memory_size b (2 ^ m) h') (\<lambda>(j, h). Some (2 ^ m + j, h)) \<and> P h'"
    if M: "unat start + 2 ^ m + 2 ^ 15 + 4 \<le> M" "M \<le> 2 ^ 31" and W: "W ?p"
    using check_hit(1) [OF ram m M] check_hit(2) [OF ram m M, of h1] stays_write [OF P(1) W] stays_probe [OF P(1) W P(3)]
    unfolding unfold by auto
qed

text \<open>The first call, and a call for the memory behind a power of two.\<close>

lemma first_probe:
  assumes "ram_below b M" "3 \<le> m" "m \<le> 31" "2 ^ m \<le> M" "m = 31 \<or> M + 4 \<le> 2 ^ Suc m"
    and P: "stays b W P" "\<And>a. M \<le> unat a \<Longrightarrow> unat a < 2 ^ 31 \<Longrightarrow> W a" "W (2 ^ m - 4)" "P h"
  shows "\<exists>h'. probe_down b 0 (if 0 \<noteq> (0 :: u32) then 0 else 0x80000000) h = (2 ^ m, h') \<and> P h'"
  using probe_down_finds [OF assms(1,2), of 31 0 W P h] assms(3-5) P by auto

lemma next_probe:
  assumes "ram_below b M" "3 \<le> m" "m \<le> n" "n < 31" "2 ^ n + 2 ^ m \<le> M" "n = m \<or> M + 4 \<le> 2 ^ n + 2 ^ Suc m"
    and P: "stays b W P" "\<And>a. M \<le> unat a \<Longrightarrow> unat a < 2 ^ 31 \<Longrightarrow> W a" "W (2 ^ n + 2 ^ m - 4)" "P h"
  shows "\<exists>h'. probe_down b (2 ^ n) (if 2 ^ n \<noteq> (0 :: u32) then 2 ^ n else 0x80000000) h = (2 ^ m, h') \<and> P h'"
proof -
  have "(2 :: nat) ^ Suc n \<le> 2 ^ 31" using assms(4) by (intro power_increasing) simp_all
  then show ?thesis
    using probe_down_finds [OF assms(1-3), of "2 ^ n" W P h] assms(4-6) P by (simp add: pow2_unat pow2_nonzero)
qed

lemma find_memory_size_pow2:
  assumes "ram_below b (2 ^ k)" "3 \<le> k" "k \<le> 31" and P: "stays b (search_word (2 ^ k)) P" "P h"
  shows "\<exists>h'. find_memory_size b 0 h = Some (2 ^ k, h') \<and> P h'"
proof -
  have k: "(4 :: nat) \<le> 2 ^ k" "(2 :: nat) ^ k \<le> 2 ^ 31"
    using pow2_ge8 [OF assms(2)] assms(3) by (simp, intro power_increasing) simp_all
  have W: "search_word (2 ^ k) a" if "2 ^ k \<le> unat a" "unat a < 2 ^ 31" for a using that by (simp add: search_word_def)
  have "unat (2 ^ k - 4 :: u32) + 4 = 2 ^ k" using probe_addr(1) [OF assms(2), of 0] assms(3) k by simp
  then have last: "search_word (2 ^ k) (2 ^ k - 4)" by (simp add: search_word_def)
  obtain h1 where h1: "probe_down b 0 (if 0 \<noteq> (0 :: u32) then 0 else 0x80000000) h = (2 ^ k, h1)" "P h1"
    using first_probe [OF assms(1-3) _ _ P(1) W last P(2)] k(1) by auto
  then show ?thesis
    using find_memory_size_step(1) [OF assms(1) _ _ _ P(1) W, of 0 h k h1] assms(3) k(2) by simp
qed

lemma pow2_bounds:
  assumes "16 \<le> k" "k \<le> c"
  shows "(2 :: nat) ^ 16 \<le> 2 ^ k" "(2 :: nat) ^ k \<le> 2 ^ c"
  using assms by (intro power_increasing; simp)+

lemma find_memory_size_3pow2:
  assumes ram: "ram_below b (3 * 2 ^ k)" and k: "16 \<le> k" "k \<le> 29" and P: "stays b (search_word (3 * 2 ^ k)) P" "P h"
  shows "\<exists>h'. find_memory_size b 0 h = Some (3 * 2 ^ k, h') \<and> P h'"
proof -
  note c = pow2_bounds [OF k]
  have kk: "Suc k < 32" "unat (2 ^ Suc k :: u32) = 2 * 2 ^ k" using k by (simp_all add: pow2_unat del: power_Suc) simp
  let ?W = "search_word (3 * 2 ^ k)"
  have W: "?W a" if "3 * 2 ^ k \<le> unat a" "unat a < 2 ^ 31" for a using that by (simp add: search_word_def)
  have "unat (2 ^ Suc k - 4 :: u32) + 4 = 2 ^ Suc k" using probe_addr(1) [of "Suc k" 0] k c by simp
  then have w1: "?W (2 ^ Suc k - 4)" by (auto simp: search_word_def)
  have "unat (0 + 2 ^ Suc k + 32 * 1024 :: u32) = 2 ^ Suc k + 2 ^ 15" using check_addr [of "Suc k" 0] k c by simp
  then have w2: "?W (0 + 2 ^ Suc k + 32 * 1024)" by (auto simp: search_word_def)
  have "unat (2 ^ Suc k + 2 ^ k - 4 :: u32) + 4 = 3 * 2 ^ k"
    using probe_addr(1) [of k "2 ^ Suc k"] k c unfolding kk(2) by simp
  then have w3: "?W (2 ^ Suc k + 2 ^ k - 4)" by (simp add: search_word_def)
  obtain h1 where "probe_down b 0 (if 0 \<noteq> (0 :: u32) then 0 else 0x80000000) h = (2 ^ Suc k, h1)" "P h1"
    using first_probe [OF ram _ _ _ _ P(1) W w1 P(2)] k c by auto
  from find_memory_size_step(2) [OF ram this(1) kk(1) _ P(1) W this(2) _ _ w2] obtain h2 where
    first: "find_memory_size b 0 h = Option.bind (find_memory_size b (2 ^ Suc k) h2) (\<lambda>(j, h). Some (2 ^ Suc k + j, h))" "P h2"
    using c by auto
  obtain h3 where "probe_down b (2 ^ Suc k) (if 2 ^ Suc k \<noteq> (0 :: u32) then 2 ^ Suc k else 0x80000000) h2 = (2 ^ k, h3)" "P h3"
    using next_probe [OF ram _ _ _ _ _ P(1) W w3 first(2)] k c by auto
  from find_memory_size_step(1) [OF ram this(1) _ _ P(1) W this(2)] obtain h4 where "find_memory_size b (2 ^ Suc k) h2 = Some (2 ^ k, h4)" "P h4"
    using c k unfolding kk(2) by auto
  with first show ?thesis by simp
qed

lemma ram_search:
  assumes "ram_below b M" "(\<exists>k. 3 \<le> k \<and> k \<le> 31 \<and> M = 2 ^ k) \<or> (\<exists>k. 16 \<le> k \<and> k \<le> 29 \<and> M = 3 * 2 ^ k)"
    and "stays b (search_word M) P" "P h"
  shows "\<exists>h'. find_memory_size b 0 h = Some (of_nat M, h') \<and> P h'"
  using assms find_memory_size_pow2 [of b _ P h] find_memory_size_3pow2 [of b _ P h] by fastforce

lemma stays_UNIV: "stays b W (\<lambda>_. True)"
  by (simp add: stays_def)

text \<open>On memory: all but these words keeps its contents.\<close>

definition searched :: "nat \<Rightarrow> u32 set" where
  "searched M = (\<Union>a\<in>{a. search_word M a}. region a 4)"

lemma with_ram_below: "ram_below b M \<Longrightarrow> ram_below (with_ram b) M"
  by (simp add: ram_below_def with_ram_def read32_def write32_def split_beta)

lemma with_ram_stays:
  "stays (with_ram b) (search_word M) (\<lambda>(m', h). \<forall>y. y \<notin> searched M \<longrightarrow> m' y = m y)"
  by (auto simp: searched_def stays_def with_ram_def read32_def write32_def split_beta put_be32_frame)

text \<open>
  C19. The search for memory returns, and finds exactly the memory there is, when its size is a
  power of two up to 2 GB, or three times a power of two from 192 KB to 1.5 GB.
\<close>

theorem find_memory_size_exact:
  assumes "ram_below b M"
    and "(\<exists>k. 3 \<le> k \<and> k \<le> 31 \<and> M = 2 ^ k) \<or> (\<exists>k. 16 \<le> k \<and> k \<le> 29 \<and> M = 3 * 2 ^ k)"
  shows "\<exists>h'. find_memory_size b 0 h = Some (of_nat M, h')"
  using ram_search [OF assms stays_UNIV TrueI] by blast

text \<open>
  A machine with \<open>M\<close> bytes of memory, one cell per address, that satisfies the hypothesis.
\<close>

definition ram_bus :: "u32 \<Rightarrow> (u32 \<Rightarrow> u32) bus" where
  "ram_bus M = \<lparr>bus_load = (\<lambda>n a h. (if a < M then h a else 0xffffffff, h)),
     bus_store = (\<lambda>n a v h. if a < M then h(a := v) else h)\<rparr>"

lemma ram_bus_below: "ram_below (ram_bus M) (unat M)"
  by (auto simp: ram_below_def ram_bus_def read32_def write32_def word_less_nat_alt)

lemma search_256M:
  assumes "search_word 0x10000000 a"
  shows "0xffffffc \<le> unat a" "unat a < 2 ^ 31"
proof -
  have "0x10000000 \<noteq> 3 * (2 :: nat) ^ k" for k
  proof
    assume k: "0x10000000 = 3 * (2 :: nat) ^ k"
    have "(0x10000000 :: nat) mod 3 = 0" unfolding k by simp
    then show False by simp
  qed
  then have "0x10000000 \<le> unat a \<and> unat a < 2 ^ 31 \<or> unat a + 4 = 0x10000000" using assms unfolding search_word_def by blast
  then show "0xffffffc \<le> unat a" "unat a < 2 ^ 31" by auto
qed

theorem find_memory_size_exact_witness:
  "\<exists>h'. find_memory_size (ram_bus 0x30000000) 0 (\<lambda>_. 0) = Some (of_nat (3 * 2 ^ 28), h')"
proof (rule find_memory_size_exact)
  show "ram_below (ram_bus 0x30000000) (3 * 2 ^ 28)" using ram_bus_below [of "0x30000000"] by simp
qed (rule disjI2, rule exI [of _ 28], simp)

text \<open>A call that starts in the middle of the first area finds its end and calls itself again.\<close>

lemma search_repeats:
  assumes "find_memory_size b start h = Some y" and k: "16 \<le> k" "k \<le> 28"
  shows "ram_below b (7 * 2 ^ k) \<Longrightarrow> start = 2 ^ Suc k \<Longrightarrow> False"
  using assms(1)
proof (induction rule: find_memory_size.raw_induct [rotated 1, consumes 1])
  case (1 f b start h y)
  note c = pow2_bounds [OF k]
  have kk: "Suc k < 32" "unat (2 ^ Suc k :: u32) = 2 * 2 ^ k" using k by (simp_all add: pow2_unat del: power_Suc) simp
  have fits: "unat start + 2 ^ Suc k \<le> 2 ^ 31" "unat start + 2 ^ Suc k + 2 ^ 15 + 4 \<le> 7 * 2 ^ k" "7 * (2 :: nat) ^ k \<le> 2 ^ 31"
    using c unfolding 1(4) kk(2) by simp_all
  obtain h1 where loop: "probe_down b start (if start \<noteq> 0 then start else 0x80000000) h = (2 ^ Suc k, h1)"
    using next_probe [OF 1(3) _ _ _ _ _ stays_True, of "Suc k" "Suc k" h] k c unfolding 1(4) by auto
  let ?p = "start + 2 ^ Suc k + 32 * 1024"
  obtain h2 where "?p < 0x80000000" "read32 b ?p (write32 b ?p PATTERN h1) = (PATTERN, h2)"
    using check_hit(1) [OF 1(3) kk(1) fits] check_hit(2) [OF 1(3) kk(1) fits, of h1] by blast
  with 1(2) loop obtain j where "f b (2 ^ Suc k) (write32 b ?p 0 h2) = Some j"
    by (auto simp: Let_def bind_eq_Some_conv)
  then show False by (rule 1(1) [OF _ 1(3) refl])
qed

text \<open>
  C20. With seven times a power of two bytes of memory, for instance 448 MB, the search never
  returns: the call for the memory behind the first two areas passes the size of the second area
  instead of its end, which is then searched again and again.
\<close>

theorem find_memory_size_diverges:
  assumes ram: "ram_below b (7 * 2 ^ k)" and k: "16 \<le> k" "k \<le> 28"
  shows "find_memory_size b 0 h = None"
proof -
  note c = pow2_bounds [OF k]
  have kk: "Suc (Suc k) < 32" "Suc k < 32" "unat (2 ^ Suc (Suc k) :: u32) = 4 * 2 ^ k"
    using k by (simp_all add: pow2_unat del: power_Suc) simp
  obtain h1 where "probe_down b 0 (if 0 \<noteq> (0 :: u32) then 0 else 0x80000000) h = (2 ^ Suc (Suc k), h1)"
    using first_probe [OF ram _ _ _ _ stays_True, of "Suc (Suc k)" h] k c by auto
  from find_memory_size_step(2) [OF ram this kk(1) _ stays_True] obtain h2 where
    first: "find_memory_size b 0 h = Option.bind (find_memory_size b (2 ^ Suc (Suc k)) h2) (\<lambda>(j, h). Some (2 ^ Suc (Suc k) + j, h))"
    using c by auto
  obtain h3 where
    "probe_down b (2 ^ Suc (Suc k)) (if 2 ^ Suc (Suc k) \<noteq> (0 :: u32) then 2 ^ Suc (Suc k) else 0x80000000) h2 = (2 ^ Suc k, h3)"
    using next_probe [OF ram _ _ _ _ _ stays_True, of "Suc k" "Suc (Suc k)" h2] k c by auto
  from find_memory_size_step(2) [OF ram this kk(2) _ stays_True] obtain h4 where
    second: "find_memory_size b (2 ^ Suc (Suc k)) h2 = Option.bind (find_memory_size b (2 ^ Suc k) h4) (\<lambda>(j, h). Some (2 ^ Suc k + j, h))"
    using c unfolding kk(3) by auto
  have "find_memory_size b (2 ^ Suc k) h4 = None"
    using search_repeats [OF _ k ram refl] by (metis not_Some_eq)
  with first second show ?thesis by simp
qed

theorem find_memory_size_diverges_witness: "find_memory_size (ram_bus 0x1c000000) 0 (\<lambda>_. 0) = None"
proof (rule find_memory_size_diverges [where k = 26])
  show "ram_below (ram_bus 0x1c000000) (7 * 2 ^ 26)" using ram_bus_below [of "0x1c000000"] by simp
qed simp_all

end
