(* ===== verification/Fdt.thy ===== *)
theory Fdt
  imports CString
begin

text \<open>
  The flattened device tree reader of \<open>fdt.c\<close>, on a blob in memory. \<open>fdt_find_prop\<close> walks the tokens
  of the structure block until it meets the property, the end of the node or the end of the
  block; a blob without an end may keep it running, so the walk is a partial function. A pointer
  result is \<open>None\<close> for \<open>NULL\<close>.
\<close>

subsection \<open>fdt.c\<close>

abbreviation FDT_MAGIC :: u32 where "FDT_MAGIC \<equiv> 0xD00DFEED"

definition FDT_BEGIN_NODE :: u32 where "FDT_BEGIN_NODE = 1"
definition FDT_END_NODE :: u32 where "FDT_END_NODE = 2"
definition FDT_PROP :: u32 where "FDT_PROP = 3"
definition FDT_NOP :: u32 where "FDT_NOP = 4"
definition FDT_END :: u32 where "FDT_END = 9"

definition ALIGN4 :: "u32 \<Rightarrow> u32" where "ALIGN4 x = (x + 3) AND NOT 3"

record fdt_header =
  magic :: u32
  totalsize :: u32
  off_dt_struct :: u32
  off_dt_strings :: u32
  off_mem_rsvmap :: u32
  version :: u32
  last_comp_version :: u32
  boot_cpuid_phys :: u32
  size_dt_strings :: u32
  size_dt_struct :: u32

definition fdt_header_at :: "mem \<Rightarrow> u32 \<Rightarrow> fdt_header" where
  "fdt_header_at m h = \<lparr>magic = get_be32 m h, totalsize = get_be32 m (h + 4), off_dt_struct = get_be32 m (h + 8),
     off_dt_strings = get_be32 m (h + 12), off_mem_rsvmap = get_be32 m (h + 16), version = get_be32 m (h + 20),
     last_comp_version = get_be32 m (h + 24), boot_cpuid_phys = get_be32 m (h + 28),
     size_dt_strings = get_be32 m (h + 32), size_dt_struct = get_be32 m (h + 36)\<rparr>"

text \<open>\<open>BE32\<close> is the identity on the target.\<close>

definition fdt32 :: "mem \<Rightarrow> u32 \<Rightarrow> u32" where
  "fdt32 m p = get_be32 m p"

definition fdt_check :: "mem \<Rightarrow> u32 \<Rightarrow> int" where
  "fdt_check m fdt = (if fdt32 m fdt = FDT_MAGIC then 0 else - 1)"

text \<open>
  One pass of the loop of \<open>fdt_find_prop\<close>, with its variables \<open>p\<close>, \<open>depth\<close> and \<open>in_target\<close>: \<open>Inl\<close> is a
  return, of the data pointer with the length for \<open>*lenp\<close>; \<open>Inr\<close> goes on with the new values.
\<close>

definition find_prop_token ::
  "mem \<Rightarrow> cstr \<Rightarrow> cstr \<Rightarrow> u32 \<Rightarrow> u32 \<Rightarrow> int \<Rightarrow> bool \<Rightarrow> ((u32 \<times> u32) option + u32 \<times> int \<times> bool) option" where
  "find_prop_token m node_name prop_name strings p depth in_target =
     (let tag = fdt32 m p; p = p + 4 in
      if tag = FDT_BEGIN_NODE then
        Option.bind (strlen (at m p)) (\<lambda>nlen.
        let q = p + ALIGN4 (of_nat nlen + 1); depth = depth + 1 in
        if depth = 2 then
          Option.bind (strcmp (at m p) node_name) (\<lambda>d. Some (Inr (q, depth, if d = 0 then True else in_target)))
        else Some (Inr (q, depth, in_target)))
      else if tag = FDT_END_NODE then
        Some (if depth = 2 \<and> in_target then Inl None
              else if depth - 1 < 0 then Inl None
              else Inr (p, depth - 1, False))
      else if tag = FDT_PROP then
        let len = fdt32 m p; nameoff = fdt32 m (p + 4); data = p + 8; q = data + ALIGN4 len in
        if in_target then
          Option.bind (strcmp (at m (strings + nameoff)) prop_name) (\<lambda>d.
            Some (if d = 0 then Inl (Some (data, len)) else Inr (q, depth, in_target)))
        else Some (Inr (q, depth, in_target))
      else if tag = FDT_NOP then Some (Inr (p, depth, in_target))
      else Some (Inl None))"

partial_function (option) find_prop_loop ::
  "mem \<Rightarrow> cstr \<Rightarrow> cstr \<Rightarrow> u32 \<Rightarrow> u32 \<Rightarrow> int \<Rightarrow> bool \<Rightarrow> (u32 \<times> u32) option option" where [code]:
  "find_prop_loop m node_name prop_name strings p depth in_target =
     Option.bind (find_prop_token m node_name prop_name strings p depth in_target) (\<lambda>r.
       case r of
         Inl res \<Rightarrow> Some res
       | Inr (p, depth, in_target) \<Rightarrow> find_prop_loop m node_name prop_name strings p depth in_target)"

definition fdt_find_prop :: "mem \<Rightarrow> u32 \<Rightarrow> cstr \<Rightarrow> cstr \<Rightarrow> (u32 \<times> u32) option option" where
  "fdt_find_prop m fdt node_name prop_name =
     (let h = fdt_header_at m fdt in
      find_prop_loop m node_name prop_name (fdt + off_dt_strings h) (fdt + off_dt_struct h) 0 False)"

text \<open>The readers return the value they store through \<open>out\<close>, or \<open>None\<close> for the result \<open>-1\<close>.\<close>

definition fdt_get_prop_u32 :: "mem \<Rightarrow> u32 \<Rightarrow> cstr \<Rightarrow> cstr \<Rightarrow> u32 option option" where
  "fdt_get_prop_u32 m fdt node_name prop_name =
     Option.bind (fdt_find_prop m fdt node_name prop_name) (\<lambda>r. Some (case r of
         None \<Rightarrow> None
       | Some (data, len) \<Rightarrow> if sint len < 4 then None else Some (fdt32 m data)))"

definition fdt_get_prop_u32_idx :: "mem \<Rightarrow> u32 \<Rightarrow> cstr \<Rightarrow> cstr \<Rightarrow> nat \<Rightarrow> u32 option option" where
  "fdt_get_prop_u32_idx m fdt node_name prop_name idx =
     Option.bind (fdt_find_prop m fdt node_name prop_name) (\<lambda>r. Some (case r of
         None \<Rightarrow> None
       | Some (data, len) \<Rightarrow>
           if sint len < sint (of_nat ((idx + 1) * 4) :: u32) then None else Some (fdt32 m (data + of_nat idx * 4))))"

text \<open>\<open>fdt_get_prop_str\<close> also returns memory with the string copied to \<open>buf\<close>.\<close>

definition fdt_get_prop_str :: "mem \<Rightarrow> u32 \<Rightarrow> cstr \<Rightarrow> cstr \<Rightarrow> u32 \<Rightarrow> int \<Rightarrow> (int \<times> mem) option" where
  "fdt_get_prop_str m fdt node_name prop_name buf buflen =
     Option.bind (fdt_find_prop m fdt node_name prop_name) (\<lambda>r. Some (case r of
         None \<Rightarrow> (- 1, m)
       | Some (data, len) \<Rightarrow>
           if sint len < 1 then (- 1, m)
           else let copy = (if sint len < buflen then sint len else buflen - 1) in
             (copy, (memcpy m buf data (nat copy))(buf + of_int copy := 0))))"

subsection \<open>Tokens\<close>

text \<open>
  The structure block as a sequence of tokens, and the memory that holds it: \<open>token_len\<close> is the
  number of bytes of a token, padding included.
\<close>

datatype token =
  Begin_Node "u8 list" | End_Node | Prop "u8 list" "u8 list" | Nop | End

fun token_at :: "mem \<Rightarrow> u32 \<Rightarrow> u32 \<Rightarrow> token \<Rightarrow> bool" where
  "token_at m strings p (Begin_Node name) \<longleftrightarrow> fdt32 m p = FDT_BEGIN_NODE \<and> cstring (at m (p + 4)) name"
| "token_at m strings p End_Node \<longleftrightarrow> fdt32 m p = FDT_END_NODE"
| "token_at m strings p (Prop name v) \<longleftrightarrow> fdt32 m p = FDT_PROP \<and> fdt32 m (p + 4) = of_nat (length v) \<and>
     cstring (at m (strings + fdt32 m (p + 8))) name \<and> bytes m (p + 12) (length v) = v"
| "token_at m strings p Nop \<longleftrightarrow> fdt32 m p = FDT_NOP"
| "token_at m strings p End \<longleftrightarrow> fdt32 m p = FDT_END"

fun token_len :: "token \<Rightarrow> u32" where
  "token_len (Begin_Node name) = 4 + ALIGN4 (of_nat (length name) + 1)"
| "token_len (Prop name v) = 12 + ALIGN4 (of_nat (length v))"
| "token_len _ = 4"

fun tokens_at :: "mem \<Rightarrow> u32 \<Rightarrow> u32 \<Rightarrow> token list \<Rightarrow> bool" where
  "tokens_at m strings p [] \<longleftrightarrow> True"
| "tokens_at m strings p (t # ts) \<longleftrightarrow> token_at m strings p t \<and> tokens_at m strings (p + token_len t) ts"

text \<open>The walk on tokens: the value of the property, if it is found.\<close>

fun walk_prop :: "u8 list \<Rightarrow> u8 list \<Rightarrow> token list \<Rightarrow> int \<Rightarrow> bool \<Rightarrow> u8 list option" where
  "walk_prop node pr [] depth hit = None"
| "walk_prop node pr (Begin_Node name # ts) depth hit = walk_prop node pr ts (depth + 1) (hit \<or> depth = 1 \<and> name = node)"
| "walk_prop node pr (End_Node # ts) depth hit =
     (if depth = 2 \<and> hit \<or> depth < 1 then None else walk_prop node pr ts (depth - 1) False)"
| "walk_prop node pr (Prop name v # ts) depth hit = (if hit \<and> name = pr then Some v else walk_prop node pr ts depth hit)"
| "walk_prop node pr (Nop # ts) depth hit = walk_prop node pr ts depth hit"
| "walk_prop node pr (End # ts) depth hit = None"

definition holds_value :: "mem \<Rightarrow> (u32 \<times> u32) option \<Rightarrow> u8 list option \<Rightarrow> bool" where
  "holds_value m r v \<longleftrightarrow> (case (r, v) of
       (None, None) \<Rightarrow> True
     | (Some (data, len), Some v) \<Rightarrow> len = of_nat (length v) \<and> bytes m data (length v) = v
     | _ \<Rightarrow> False)"

lemma holds_value_simps:
  "holds_value m r None \<longleftrightarrow> r = None"
  "holds_value m r (Some v) \<longleftrightarrow> (\<exists>data. r = Some (data, of_nat (length v)) \<and> bytes m data (length v) = v)"
  by (auto simp: holds_value_def split: option.splits)

lemma find_prop_walks:
  assumes node: "cstring node_name node" and pr: "cstring prop_name pr"
  shows "tokens_at m strings p ts \<Longrightarrow> End \<in> set ts \<Longrightarrow>
    \<exists>r. find_prop_loop m node_name prop_name strings p depth hit = Some r \<and> holds_value m r (walk_prop node pr ts depth hit)"
proof (induction ts arbitrary: p depth hit)
  case (Cons t ts)
  note tags = FDT_BEGIN_NODE_def FDT_END_NODE_def FDT_PROP_def FDT_NOP_def FDT_END_def
  have ih: "t \<noteq> End \<Longrightarrow> \<exists>r. find_prop_loop m node_name prop_name strings (p + token_len t) depth hit = Some r \<and>
      holds_value m r (walk_prop node pr ts depth hit)" for depth hit
    using Cons by simp
  show ?case
  proof (cases t)
    case (Begin_Node name)
    with Cons.prems have name: "cstring (at m (p + 4)) name" and tag: "fdt32 m p = FDT_BEGIN_NODE" by simp_all
    obtain d where "strcmp (at m (p + 4)) node_name = Some d" "d = 0 \<longleftrightarrow> name = node"
      using strcmp_cstring [OF name node] by blast
    then show ?thesis
      using ih [of "depth + 1" "hit \<or> depth = 1 \<and> name = node"] tag strlen_cstring [OF name] Begin_Node
      by (auto simp: find_prop_loop.simps [of m node_name prop_name strings p depth] find_prop_token_def Let_def add.assoc)
  next
    case (Prop name v)
    with Cons.prems have name: "cstring (at m (strings + fdt32 m (p + 8))) name" and tag: "fdt32 m p = FDT_PROP"
      and len: "fdt32 m (p + 4) = of_nat (length v)" "bytes m (p + 12) (length v) = v" by simp_all
    obtain d where "strcmp (at m (strings + fdt32 m (p + 8))) prop_name = Some d" "d = 0 \<longleftrightarrow> name = pr"
      using strcmp_cstring [OF name pr] by blast
    then show ?thesis
      using ih [of depth hit] tag len Prop
      by (auto simp: find_prop_loop.simps [of m node_name prop_name strings p depth] find_prop_token_def Let_def tags holds_value_def
          add.assoc)
  next
    case End_Node
    then show ?thesis
      using ih [of "depth - 1" False] Cons.prems
      by (auto simp: find_prop_loop.simps [of m node_name prop_name strings p depth] find_prop_token_def tags holds_value_def)
  next
    case Nop
    then show ?thesis
      using ih [of depth hit] Cons.prems
      by (auto simp: find_prop_loop.simps [of m node_name prop_name strings p depth] find_prop_token_def tags holds_value_def)
  next
    case End
    then show ?thesis
      using Cons.prems
      by (auto simp: find_prop_loop.simps [of m node_name prop_name strings p depth] find_prop_token_def tags holds_value_def)
  qed
qed simp

subsection \<open>Trees\<close>

text \<open>A device tree and its tokens: a node has a name, properties and sub-nodes, in this order.\<close>

datatype dtree = DNode (dt_name: "u8 list") (dt_props: "(u8 list \<times> u8 list) list") (dt_kids: "dtree list")

fun flat :: "dtree \<Rightarrow> token list" where
  "flat (DNode name ps ks) = Begin_Node name # map (\<lambda>(a, v). Prop a v) ps @ concat (map flat ks) @ [End_Node]"

text \<open>
  What the code looks up in a tree. In the node asked for it tries the properties, then, as long as
  nothing is found, those of the first sub-node, of the first sub-node of that, and so on: \<open>in_target\<close>
  stays set until the first end of a node.
\<close>

fun chain_lookup :: "u8 list \<Rightarrow> dtree \<Rightarrow> u8 list option" where
  "chain_lookup pr (DNode name ps ks) =
     (case map_of ps pr of Some v \<Rightarrow> Some v | None \<Rightarrow> (case ks of [] \<Rightarrow> None | k # _ \<Rightarrow> chain_lookup pr k))"

fun kids_lookup :: "u8 list \<Rightarrow> u8 list \<Rightarrow> dtree list \<Rightarrow> u8 list option" where
  "kids_lookup node pr [] = None"
| "kids_lookup node pr (k # ks) =
     (if dt_name k = node then
        case chain_lookup pr k of Some v \<Rightarrow> Some v | None \<Rightarrow> if dt_kids k = [] then None else kids_lookup node pr ks
      else kids_lookup node pr ks)"

definition fdt_image :: "mem \<Rightarrow> u32 \<Rightarrow> dtree \<Rightarrow> bool" where
  "fdt_image m fdt t \<longleftrightarrow>
     (let h = fdt_header_at m fdt in
      tokens_at m (fdt + off_dt_strings h) (fdt + off_dt_struct h) (flat t @ [End]))"

lemma walk_props:
  "walk_prop node pr (map (\<lambda>(a, v). Prop a v) ps @ ts) d hit =
     (if hit \<and> map_of ps pr \<noteq> None then map_of ps pr else walk_prop node pr ts d hit)"
  by (induction ps) auto

lemma walk_skip: "2 \<le> d \<Longrightarrow> walk_prop node pr (flat t @ ts) d False = walk_prop node pr ts d False"
proof (induction t arbitrary: ts d rule: flat.induct)
  case (1 name ps ks)
  have "walk_prop node pr (concat (map flat ks') @ ts) d' False = walk_prop node pr ts d' False"
    if "set ks' \<subseteq> set ks" "2 \<le> d'" for ks' ts d'
    using that 1 by (induction ks' arbitrary: ts) simp_all
  from this [of ks "d + 1"] 1(2) show ?case by (simp add: walk_props)
qed

lemma walk_skip_all: "2 \<le> d \<Longrightarrow> walk_prop node pr (concat (map flat ks) @ ts) d False = walk_prop node pr ts d False"
  by (induction ks) (simp_all add: walk_skip)

lemma walk_chain:
  "2 \<le> d \<Longrightarrow> walk_prop node pr (flat t @ ts) d True =
     (case chain_lookup pr t of Some v \<Rightarrow> Some v | None \<Rightarrow> walk_prop node pr ts d False)"
proof (induction pr t arbitrary: ts d rule: chain_lookup.induct)
  case (1 pr name ps ks)
  show ?case
  proof (cases ks)
    case (Cons k ks')
    then show ?thesis
      using 1(1) [of k ks' "d + 1" "concat (map flat ks') @ End_Node # ts"] 1(2)
      by (auto simp: walk_props walk_skip_all split: option.split)
  qed (use 1(2) in \<open>auto simp: walk_props split: option.split\<close>)
qed

lemma walk_kids: "walk_prop node pr (concat (map flat ks) @ [End_Node, End]) 1 False = kids_lookup node pr ks"
proof (induction ks)
  case (Cons k ks)
  obtain name ps kks where k: "k = DNode name ps kks" by (cases k)
  show ?case
  proof (cases kks)
    case Nil
    then show ?thesis using Cons by (auto simp: k walk_props split: option.split)
  next
    case (Cons k' kks')
    then show ?thesis
      using Cons.IH walk_chain [of 2 node pr k' "concat (map flat kks') @ End_Node # concat (map flat ks) @ [End_Node, End]"]
      by (auto simp: k walk_props walk_skip_all walk_skip split: option.split)
  qed
qed simp

lemma walk_root: "walk_prop node pr (flat t @ [End]) 0 False = kids_lookup node pr (dt_kids t)"
  using walk_kids [of node pr "dt_kids t"] by (cases t) (simp add: walk_props)

lemma find_prop_tree:
  assumes "fdt_image m fdt t" "cstring node_name node" "cstring prop_name pr"
  shows "\<exists>r. fdt_find_prop m fdt node_name prop_name = Some r \<and> holds_value m r (kids_lookup node pr (dt_kids t))"
  using find_prop_walks [OF assms(2,3), of m _ _ "flat t @ [End]" 0 False] assms(1)
  unfolding fdt_image_def fdt_find_prop_def walk_root Let_def by simp

text \<open>
  C24. On the image of any device tree, \<open>fdt_find_prop\<close> terminates and returns the data and length of
  the property \<open>kids_lookup\<close> finds, and \<open>NULL\<close> when there is none.
\<close>

theorem fdt_find_prop_spec:
  assumes "fdt_image m fdt t" "cstring node_name node" "cstring prop_name pr"
  shows "case kids_lookup node pr (dt_kids t) of
      None \<Rightarrow> fdt_find_prop m fdt node_name prop_name = Some None
    | Some v \<Rightarrow> \<exists>data. fdt_find_prop m fdt node_name prop_name = Some (Some (data, of_nat (length v))) \<and>
        bytes m data (length v) = v"
  using find_prop_tree [OF assms] by (auto simp: holds_value_simps split: option.splits)

text \<open>For a node with a name of its own the lookup is what a device tree promises, if the node has the property.\<close>

definition be32_of :: "u8 list \<Rightarrow> nat \<Rightarrow> u32" where
  "be32_of v i = push_bit 24 (ucast (v ! i)) OR push_bit 16 (ucast (v ! (i + 1)))
     OR push_bit 8 (ucast (v ! (i + 2))) OR ucast (v ! (i + 3))"

lemma fdt32_bytes:
  assumes "bytes m a n = v" "i + 4 \<le> n"
  shows "fdt32 m (a + of_nat i) = be32_of v i"
proof -
  have "v ! (i + j) = m (a + of_nat i + of_nat j)" if "j < 4" for j
    using nth_bytes [of "i + j" n m a] assms that by (simp add: add.assoc)
  from this [of 0] this [of 1] this [of 2] this [of 3] show ?thesis
    by (simp add: fdt32_def get_be32_def be32_of_def)
qed

text \<open>The readers on the image of a tree, for values of a sensible length.\<close>

definition cell_of :: "u8 list option \<Rightarrow> nat \<Rightarrow> u32 option" where
  "cell_of v idx = (case v of Some v \<Rightarrow> if (idx + 1) * 4 \<le> length v then Some (be32_of v (idx * 4)) else None | None \<Rightarrow> None)"

lemma fdt_get_prop_u32_idx_tree:
  assumes "fdt_image m fdt t" "cstring node_name node" "cstring prop_name pr" "idx + 1 < 2 ^ 29"
    and "\<And>v. kids_lookup node pr (dt_kids t) = Some v \<Longrightarrow> length v < 2 ^ 31"
  shows "fdt_get_prop_u32_idx m fdt node_name prop_name idx = Some (cell_of (kids_lookup node pr (dt_kids t)) idx)"
proof (cases "kids_lookup node pr (dt_kids t)")
  case None
  then show ?thesis
    using find_prop_tree [OF assms(1-3)] by (simp add: holds_value_simps fdt_get_prop_u32_idx_def cell_of_def)
next
  case (Some v)
  then obtain data where find: "fdt_find_prop m fdt node_name prop_name = Some (Some (data, of_nat (length v)))"
    "bytes m data (length v) = v"
    using find_prop_tree [OF assms(1-3)] by (auto simp: holds_value_simps)
  have "fdt32 m (data + of_nat idx * 4) = be32_of v (idx * 4)" if "(idx + 1) * 4 \<le> length v"
    using fdt32_bytes [OF find(2), of "idx * 4"] that by simp
  moreover have "sint (of_nat (length v) :: u32) < sint (of_nat ((idx + 1) * 4) :: u32) \<longleftrightarrow> length v < (idx + 1) * 4"
    using assms(4,5) Some by (simp add: sint_of_nat_small del: of_nat_mult of_nat_add)
  ultimately show ?thesis using find(1) Some by (simp add: fdt_get_prop_u32_idx_def cell_of_def)
qed

lemma fdt_get_prop_u32_is_idx: "fdt_get_prop_u32 m fdt node_name prop_name = fdt_get_prop_u32_idx m fdt node_name prop_name 0"
proof -
  have "sint (of_nat ((0 + 1) * 4) :: u32) = 4" by (subst sint_of_nat_small) simp_all
  then show ?thesis unfolding fdt_get_prop_u32_def fdt_get_prop_u32_idx_def by (simp only:) (auto intro!: Option.bind_cong split: option.split)
qed

lemma fdt_get_prop_str_tree:
  assumes "fdt_image m fdt t" "cstring node_name node" "cstring prop_name pr" "1 < buflen"
    and "\<And>v. kids_lookup node pr (dt_kids t) = Some v \<Longrightarrow> length v < 2 ^ 31"
  shows "fdt_get_prop_str m fdt node_name prop_name buf (int buflen) = Some (case kids_lookup node pr (dt_kids t) of
      None \<Rightarrow> (- 1, m)
    | Some v \<Rightarrow> if v = [] then (- 1, m)
        else let n = min (length v) (buflen - 1) in (int n, (store_bytes m buf (take n v))(buf + of_nat n := 0)))"
proof (cases "kids_lookup node pr (dt_kids t)")
  case None
  then show ?thesis
    using find_prop_tree [OF assms(1-3)] by (simp add: holds_value_simps fdt_get_prop_str_def)
next
  case (Some v)
  then obtain data where find: "fdt_find_prop m fdt node_name prop_name = Some (Some (data, of_nat (length v)))"
    "bytes m data (length v) = v"
    using find_prop_tree [OF assms(1-3)] by (auto simp: holds_value_simps)
  have take: "bytes m data n = take n v" if "n \<le> length v" for n
    using find(2) bytes_add [of m data n "length v - n"] that by (metis append_eq_conv_conj le_add_diff_inverse length_bytes)
  have len: "sint (of_nat (length v) :: u32) = int (length v)" using assms(5) Some by (simp add: sint_of_nat_small)
  have "nat (int buflen - 1) = buflen - Suc 0" by arith
  then show ?thesis
    using find(1) Some assms(4) take [of "min (length v) (buflen - 1)"]
    by (auto simp: fdt_get_prop_str_def len memcpy_def Let_def min_def of_nat_diff Suc_le_eq)
qed

subsection \<open>An example\<close>

text \<open>A tree with a node \<open>memory\<close>, which has a property \<open>reg\<close> of three cells and a sub-node \<open>s\<close> with a property \<open>x\<close>.\<close>

definition example_tree :: dtree where
  "example_tree = DNode [] []
     [DNode [0x6d, 0x65, 0x6d, 0x6f, 0x72, 0x79] [([0x72, 0x65, 0x67], [0, 0, 0, 0, 0, 0, 0, 0, 0x40, 0, 0, 0])]
        [DNode [0x73] [([0x78], [7])] []]]"

definition example_blob :: "u8 list" where
  "example_blob =
     [0xd0, 0x0d, 0xfe, 0xed, 0, 0, 0, 130, 0, 0, 0, 40, 0, 0, 0, 124] @ replicate 24 0 @
     [0, 0, 0, 1, 0, 0, 0, 0,
      0, 0, 0, 1, 0x6d, 0x65, 0x6d, 0x6f, 0x72, 0x79, 0, 0,
      0, 0, 0, 3, 0, 0, 0, 12, 0, 0, 0, 0, 0, 0, 0, 0, 0, 0, 0, 0, 0x40, 0, 0, 0,
      0, 0, 0, 1, 0x73, 0, 0, 0,
      0, 0, 0, 3, 0, 0, 0, 1, 0, 0, 0, 4, 7, 0, 0, 0,
      0, 0, 0, 2, 0, 0, 0, 2, 0, 0, 0, 2, 0, 0, 0, 9,
      0x72, 0x65, 0x67, 0, 0x78, 0]"

definition example_mem :: mem where
  "example_mem a = (if unat a < length example_blob then example_blob ! unat a else 0)"

lemma cstring_code [code]:
  "cstring s xs \<longleftrightarrow> list_all (\<lambda>i. s i = xs ! i) [0..<length xs] \<and> list_all (\<lambda>x. x \<noteq> 0) xs \<and> s (length xs) = 0"
  by (auto simp: cstring_def list_all_iff)

lemma example_image: "fdt_image example_mem 0 example_tree"
  by code_simp

lemma example_names:
  "cstring (lit ''memory'') [0x6d, 0x65, 0x6d, 0x6f, 0x72, 0x79]" "cstring (lit ''reg'') [0x72, 0x65, 0x67]"
  "cstring (lit ''x'') [0x78]"
  using cstring_lit [of "''memory''"] cstring_lit [of "''reg''"] cstring_lit [of "''x''"]
  by (simp_all add: chars_def char_byte_def)

theorem fdt_find_prop_spec_witness:
  "\<exists>data. fdt_find_prop example_mem 0 (lit ''memory'') (lit ''reg'') = Some (Some (data, 12)) \<and>
     bytes example_mem data 12 = [0, 0, 0, 0, 0, 0, 0, 0, 0x40, 0, 0, 0]"
  using fdt_find_prop_spec [OF example_image example_names(1,2)] by (simp add: example_tree_def eval_nat_numeral)

end
