(* ===== verification/Brd_Sam460.thy ===== *)
theory Brd_Sam460
  imports Bar Board Fdt
begin

text \<open>
  The SAM460ex board: \<open>brd_sam460.c\<close>. Besides the bus, the code drives the processor with
  \<open>mtspr\<close>, \<open>mfspr\<close>, \<open>mtdcr\<close> and \<open>tlbwe\<close>; these instructions are parameters too (\<open>cpu\<close>). The board
  reads memory size, initial RAM disk and boot arguments from the flattened device tree, programs
  the TLB, the interrupt controllers and the timer, and sets up PCI.
\<close>

subsection \<open>State\<close>

record 'h cpu =
  mtspr :: "nat \<Rightarrow> u32 \<Rightarrow> 'h \<Rightarrow> 'h"
  mfspr :: "nat \<Rightarrow> 'h \<Rightarrow> u32 \<times> 'h"
  mtdcr :: "nat \<Rightarrow> u32 \<Rightarrow> 'h \<Rightarrow> 'h"
  tlbwe :: "u32 \<Rightarrow> nat \<Rightarrow> nat \<Rightarrow> 'h \<Rightarrow> 'h"

record bd_460ex_t = bd_t +
  bi_s_version :: "u8 list"
  bi_r_version :: "u8 list"
  bi_procfreq :: u32
  bi_plb_busfreq :: u32
  bi_pci_busfreq :: u32
  bi_pci_enetaddr :: "u8 list"
  bi_enet1addr :: "u8 list"
  bi_opbfreq :: u32
  bi_iic_fast :: "u32 list"
  bi_phynum :: "u32 list"
  bi_phymode :: "u32 list"

text \<open>The static board information before \<open>sam460_init\<close>.\<close>

definition bd_460ex_zero :: bd_460ex_t where
  "bd_460ex_zero = bd_t.extend bd_zero \<lparr>bi_s_version = replicate 4 0, bi_r_version = replicate 32 0, bi_procfreq = 0,
     bi_plb_busfreq = 0, bi_pci_busfreq = 0, bi_pci_enetaddr = replicate 6 0, bi_enet1addr = replicate 6 0, bi_opbfreq = 0,
     bi_iic_fast = replicate 2 0, bi_phynum = replicate 4 0, bi_phymode = replicate 4 0\<rparr>"

record 'h sam460 = "'h bar_state" +
  bd :: bd_460ex_t

subsection \<open>TLB, interrupt controllers, timer\<close>

definition TLB_VALID :: u32 where "TLB_VALID = 0x200"
definition TLB_1K :: u32 where "TLB_1K = 0x00"
definition TLB_16K :: u32 where "TLB_16K = 0x20"
definition TLB_1M :: u32 where "TLB_1M = 0x50"
definition TLB_16M :: u32 where "TLB_16M = 0x70"
definition TLB_256M :: u32 where "TLB_256M = 0x90"
definition SA_I :: u32 where "SA_I = 0x400"
definition SA_G :: u32 where "SA_G = 0x100"
definition AC_X :: u32 where "AC_X = 0x24"
definition AC_W :: u32 where "AC_W = 0x12"
definition AC_R :: u32 where "AC_R = 0x09"
definition AC_RW :: u32 where "AC_RW = AC_R OR AC_W"
definition AC_RWX :: u32 where "AC_RWX = AC_R OR AC_W OR AC_X"

definition write_tlb :: "'h cpu \<Rightarrow> nat \<Rightarrow> u32 \<Rightarrow> u32 \<Rightarrow> u32 \<Rightarrow> 'h \<Rightarrow> 'h" where
  "write_tlb c index w0 w1 w2 h =
     (let h = mtspr c 946 0 h;
          h = tlbwe c w0 index 0 h;
          h = tlbwe c w1 index 1 h in
      tlbwe c w2 index 2 h)"

text \<open>The writes to the four controllers, in order.\<close>

definition uic_writes :: "(nat \<times> u32) list" where
  "uic_writes =
     [(0xc0, 0xffffffff), (0xc2, 0), (0xc3, 5), (0xc4, 0xffffffff), (0xc5, 0), (0xc7, 0), (0xc0, 0xffffffff),
      (0xd0, 0xffffffff), (0xd2, 0), (0xd3, 0), (0xd4, 0xefffffff), (0xd5, 0), (0xd7, 0), (0xd0, 0xffffffff),
      (0xe0, 0xffffffff), (0xe2, 0), (0xe3, 0), (0xe4, 0xffffffff), (0xe5, 0), (0xe7, 0), (0xe0, 0xffffffff),
      (0xf0, 0xffffffff), (0xf2, 0), (0xf3, 0), (0xf4, 0xffefffff), (0xf5, 0), (0xf7, 0), (0xf0, 0xffffffff)]"

definition setup_uic :: "'h cpu \<Rightarrow> 'h \<Rightarrow> 'h" where
  "setup_uic c h = fold (\<lambda>(dcrn, val). mtdcr c dcrn val) uic_writes h"

definition setup_timer :: "'h cpu \<Rightarrow> u32 \<Rightarrow> 'h \<Rightarrow> 'h" where
  "setup_timer c intfreq h =
     (let reload = intfreq div 1000;
          (tcr, h) = mfspr c 340 h;
          h = mtspr c 340 (tcr AND NOT 0x04400000) h;
          h = mtspr c 22 0 h;
          h = mtspr c 54 0 h;
          h = mtspr c 336 0x08000000 h;
          h = mtspr c 54 reload h;
          h = mtspr c 22 reload h;
          (tcr, h) = mfspr c 340 h;
          h = mtspr c 340 (tcr OR 0x04400000) h in
      mtspr c 63 0 h)"

record tlb_row =
  epn :: u32
  tsize :: u32
  rpn :: u32
  erpn :: u32
  attr :: u32

definition tlb_entry :: "u32 \<Rightarrow> u32 \<Rightarrow> u32 \<Rightarrow> u32 \<Rightarrow> u32 \<Rightarrow> tlb_row" where
  "tlb_entry e sz r er ac = \<lparr>epn = e, tsize = sz, rpn = r, erpn = er, attr = ac\<rparr>"

definition tlbtab :: "tlb_row list" where
  "tlbtab =
    [tlb_entry 0xF0000000 TLB_256M 0xF0000000 0x4 (AC_RWX OR SA_G),
     tlb_entry 0xD0000000 TLB_256M 0x00000000 0xC (AC_RW OR SA_G OR SA_I),
     tlb_entry 0x80000000 TLB_256M 0x80000000 0xC (AC_RW OR SA_G OR SA_I),
     tlb_entry 0x90000000 TLB_256M 0x90000000 0xC (AC_RW OR SA_G OR SA_I),
     tlb_entry 0xA0000000 TLB_256M 0xA0000000 0xD (AC_RW OR SA_G OR SA_I),
     tlb_entry 0xB0000000 TLB_256M 0xB0000000 0xD (AC_RW OR SA_G OR SA_I),
     tlb_entry 0xC0000000 TLB_256M 0xC0000000 0xD (AC_RW OR SA_G OR SA_I),
     tlb_entry 0xE0000000 TLB_16M 0x00000000 0xD (AC_RW OR SA_G OR SA_I),
     tlb_entry 0xE1000000 TLB_16M 0x20000000 0xD (AC_RW OR SA_G OR SA_I),
     tlb_entry 0xE3000000 TLB_1K 0x10000000 0xD (AC_RW OR SA_G OR SA_I),
     tlb_entry 0xE3001000 TLB_1K 0x30000000 0xD (AC_RW OR SA_G OR SA_I),
     tlb_entry 0xE4000000 TLB_16K 0x08010000 0xC (AC_RW OR SA_G OR SA_I),
     tlb_entry 0xE5000000 TLB_1M 0x00000000 0x4 (AC_RWX OR SA_I),
     tlb_entry 0xEF000000 TLB_16M 0xEF000000 0x4 (AC_RWX OR SA_G OR SA_I),
     tlb_entry 0xE2000000 TLB_1M 0xBFF00000 0x4 (AC_RWX OR SA_G OR SA_I)]"

text \<open>The number of 256 MB pages for SDRAM: at least one, at most what the TLB has room for.\<close>

definition ram_pages :: "u32 \<Rightarrow> nat" where
  "ram_pages memsize =
     (let n = length tlbtab; pages = unat (drop_bit 28 (memsize + 0xfffffff)); pages = (if pages = 0 then 1 else pages) in
      if pages > 64 - n then 64 - n else pages)"

definition write_row :: "'h cpu \<Rightarrow> nat \<Rightarrow> 'h \<Rightarrow> 'h" where
  "write_row c i h =
     (let r = tlbtab ! i in write_tlb c i (epn r OR TLB_VALID OR tsize r) (rpn r OR erpn r) (attr r) h)"

definition setup_tlb :: "'h cpu \<Rightarrow> u32 \<Rightarrow> 'h \<Rightarrow> 'h" where
  "setup_tlb c memsize h =
     (let n = length tlbtab;
          h = fold (\<lambda>i. write_tlb c (n + i) (push_bit 28 (of_nat i) OR TLB_VALID OR TLB_256M) (push_bit 28 (of_nat i)) (AC_RWX OR SA_I))
                [0..<ram_pages memsize] h in
      fold (write_row c) [0..<n] h)"

subsection \<open>PCI\<close>

abbreviation PCIX_REG_BASE :: u32 where "PCIX_REG_BASE \<equiv> 0xDEC80000"

definition setup_pom :: "'h bus \<Rightarrow> 'h sam460 \<Rightarrow> 'h sam460" where
  "setup_pom b s =
     (let h = hw s;
          h = write32_le b (PCIX_REG_BASE + 0x70) 0 h;
          h = write32_le b (PCIX_REG_BASE + 0x84) 0 h;
          h = write32_le b (PCIX_REG_BASE + 0x68) 0x80000000 h;
          h = write32_le b (PCIX_REG_BASE + 0x6c) 0x0000000C h;
          h = write32_le b (PCIX_REG_BASE + 0x74) 0x80000000 h;
          h = write32_le b (PCIX_REG_BASE + 0x78) 0x00000000 h;
          h = write32_le b (PCIX_REG_BASE + 0x70) 0xF0000001 h;
          h = write32_le b (PCIX_REG_BASE + 0x7c) 0x90000000 h;
          h = write32_le b (PCIX_REG_BASE + 0x80) 0x0000000C h;
          h = write32_le b (PCIX_REG_BASE + 0x88) 0x90000000 h;
          h = write32_le b (PCIX_REG_BASE + 0x8c) 0x00000000 h;
          h = write32_le b (PCIX_REG_BASE + 0x84) 0xF0000001 h;
          h = write32_le b (PCIX_REG_BASE + 0x9c) 0x00000000 h;
          h = write32_le b (PCIX_REG_BASE + 0xa0) 0x00000000 h;
          h = write32_le b (PCIX_REG_BASE + 0x98) (NOT (bi_memsize (bd s) - 1) OR 3) h in
      s\<lparr>hw := h\<rparr>)"

definition pci_irq_map :: "u8 list" where "pci_irq_map = [32, 32, 32, 32]"

definition setup_pci_params :: "'h sam460 \<Rightarrow> 'h sam460" where
  "setup_pci_params s = (pci_set_addr 0xDEC00000 0xDEC00004 s)
     \<lparr>iobase := 0xD8000000, iolen := 0x10000, ioavail := 0x100,
      membase := 0x80000000, memlen := 0x20000000, memavail := 0x80000000\<rparr>"

definition addr_for_bar :: "u32 \<Rightarrow> u32 \<Rightarrow> ('h, 'x) bar_state_scheme \<Rightarrow> u32 \<times> ('h, 'x) bar_state_scheme" where
  "addr_for_bar type sz s =
     (if sz = 0 then (0, s)
      else if type = BAR_SPACE_IO then
        (case bump (ioavail s) sz (iolen s) of (ret, a) \<Rightarrow> (ret, s\<lparr>ioavail := a\<rparr>))
      else (case bump (memavail s) sz (membase s + memlen s) of (ret, a) \<Rightarrow> (ret, s\<lparr>memavail := a\<rparr>)))"

definition route_irq :: "u32 \<Rightarrow> u32 \<Rightarrow> u8 \<Rightarrow> u8" where
  "route_irq devfn vendev pin =
     (if pin > 0 \<and> pin < 5 then
        if vendev AND 0xffff = 0x126f \<and> drop_bit 16 vendev = 0x0501 then 116
        else pci_irq_map ! ((unat (PCI_SLOT devfn) + unat pin - 1) mod 4)
      else 0xff)"

definition setup_pci_device :: "'h bus \<Rightarrow> u32 \<Rightarrow> 'h sam460 \<Rightarrow> 'h sam460" where
  "setup_pci_device b devfn s =
     (let (vendev, s) = pci_read_config32 b devfn 0x00 s in
      if vendev = 0xffffffff \<or> vendev = 0 then s else
      let (cmd, s) = pci_read_config16 b devfn REG_COMMAND s;
          (_, s) = pci_read_config32 b devfn 0x08 s;
          (_, s) = pci_read_config16 b devfn 0x3C s;
          cmd = cmd AND NOT (REG_COMMAND_BM OR REG_COMMAND_MEM OR REG_COMMAND_IO);
          s = pci_write_config16 b devfn REG_COMMAND cmd s;
          (pin, s) = pci_read_config8 b devfn 0x3D s;
          irq = route_irq devfn vendev pin;
          s = (if irq \<noteq> 0xff then pci_write_config8 b devfn 0x3C irq s else s) in
      map_bars b addr_for_bar devfn 0x80 0 cmd s)"

definition setup_slot :: "'h bus \<Rightarrow> nat \<Rightarrow> 'h sam460 \<Rightarrow> 'h sam460" where
  "setup_slot b i s =
     (let devfn = PCI_DEV 0 (of_nat i) 0;
          s = setup_pci_device b devfn s;
          (ht, s) = pci_read_config8 b devfn 0x0E s in
      if ht AND 0x80 \<noteq> 0 then fold (\<lambda>j. setup_pci_device b (PCI_DEV 0 (of_nat i) (of_nat j))) [1..<8] s else s)"

definition sam460_setup :: "'h bus \<Rightarrow> 'h sam460 \<Rightarrow> 'h sam460" where
  "sam460_setup b s = fold (setup_slot b) [0..<32] (setup_pci_params (setup_pom b s))"

definition no_claim :: "u32 \<Rightarrow> u32 \<Rightarrow> mem \<Rightarrow> 'h sam460 \<Rightarrow> (u32 \<times> mem \<times> 'h sam460) option" where
  "no_claim addr sz m s = Some (if addr + sz < bi_memsize (bd s) then addr else 0, m, s)"

subsection \<open>sam460_init\<close>

text \<open>
  What \<open>sam460_init\<close> takes from the device tree at \<open>fdt\<close>: the memory size, \<open>brd\<close> with the initial RAM
  disk and the boot arguments, and memory with the arguments copied to \<open>bootargs_buf\<close>.
\<close>

definition read_fdt :: "u32 \<Rightarrow> u32 \<Rightarrow> 'f brd_t \<Rightarrow> mem \<Rightarrow> (u32 \<times> 'f brd_t \<times> mem) option" where
  "read_fdt bootargs_buf fdt brd m =
     (if fdt_check m fdt \<noteq> 0 then Some (512 * 1024 * 1024, brd, m)
      else
        Option.bind (fdt_get_prop_u32_idx m fdt (lit ''memory'') (lit ''reg'') 2) (\<lambda>ms.
        Option.bind (fdt_get_prop_u32 m fdt (lit ''chosen'') (lit ''linux,initrd-start'')) (\<lambda>is.
        Option.bind (fdt_get_prop_u32 m fdt (lit ''chosen'') (lit ''linux,initrd-end'')) (\<lambda>ie.
        Option.bind (fdt_get_prop_str m fdt (lit ''chosen'') (lit ''bootargs'') bootargs_buf 256) (\<lambda>(n, m).
          let brd = brd\<lparr>initrd_start := (case is of Some v \<Rightarrow> v | None \<Rightarrow> 0),
                initrd_end := (case ie of Some v \<Rightarrow> v | None \<Rightarrow> 0)\<rparr>;
              brd = (if n > 0 then brd\<lparr>bootargs := bootargs_buf\<rparr> else brd) in
          Some (case ms of Some v \<Rightarrow> v | None \<Rightarrow> 512 * 1024 * 1024, brd, m))))))"

definition stack_for :: "u32 \<Rightarrow> u32" where
  "stack_for memsize =
     (let ram_top = (if memsize > push_bit 28 8 then push_bit 28 8 else memsize) in
      (ram_top - 0x100000) AND NOT 0xf)"

definition sam460_init ::
  "u32 \<Rightarrow> u32 \<Rightarrow> 'h bus \<Rightarrow> 'h cpu \<Rightarrow> u32 \<Rightarrow> 'h sam460 brd_t \<Rightarrow> 'h sam460 \<Rightarrow> mem \<Rightarrow> ('h sam460 brd_t \<times> 'h sam460 \<times> mem) option" where
  "sam460_init bd_addr bootargs_buf b c fdt_addr brd s m =
     (let brd = brd\<lparr>claim := no_claim, brd_setup := Some (\<lambda>m s. Done (m, sam460_setup b s)), exec_addr := 0x1000000,
            serial_base := 0xEF600300, info := bd_addr\<rparr> in
      Option.bind (read_fdt bootargs_buf fdt_addr brd m) (\<lambda>(memsize, brd, m).
        let h = setup_uic c (setup_tlb c memsize (hw s));
            brd = brd\<lparr>stack_top := stack_for memsize\<rparr>;
            d = (bd s)\<lparr>bi_memstart := 0, bi_memsize := memsize, bi_flashstart := 0xfff00000, bi_flashsize := 1,
              bi_bootflags := 1, bi_intfreq := 1150000000, bi_busfreq := 230000000, bi_baudrate := 115200,
              bi_procfreq := 1150000000, bi_plb_busfreq := 230000000, bi_pci_busfreq := 66000000, bi_opbfreq := 115000000\<rparr>;
            h = setup_timer c (bi_intfreq d) h in
        Some (brd, s\<lparr>hw := h, bd := d\<rparr>, m)))"

subsection \<open>Claims\<close>

interpretation sam_ram: memory_board no_claim "\<lambda>s. bi_memsize (bd s)"
proof
  show "no_claim addr sz m f = Some (addr, m, f)" if "unat addr + unat sz < unat (bi_memsize (bd f))" for addr sz f m
    using that add_less_unat [of addr sz] order_less_trans [OF that unat32_less] by (simp add: no_claim_def)
qed (auto simp: no_claim_def add_less_unat)

subsection \<open>Addresses of base address registers\<close>

lemma sam_addr_for_bar_windows_alloc: "addr_for_bar = windows_alloc"
  by (simp add: fun_eq_iff addr_for_bar_def windows_alloc_def)

interpretation sam_mem: bump_allocator addr_for_bar "\<lambda>type. type \<noteq> BAR_SPACE_IO" "\<lambda>_. True"
  "\<lambda>s. unat (memavail s)" "\<lambda>s. unat (membase s + memlen s)"
  unfolding sam_addr_for_bar_windows_alloc by (rule mem_window.bump_allocator_axioms)

interpretation sam_io: bump_allocator addr_for_bar "\<lambda>type. type = BAR_SPACE_IO" "\<lambda>_. True"
  "\<lambda>s. unat (ioavail s)" "\<lambda>s. unat (iolen s)"
  unfolding sam_addr_for_bar_windows_alloc by (rule io_window.bump_allocator_axioms)

text \<open>
  C25. On the SAM460ex, as long as the devices ask for powers of two, at most 1 GB of memory space and 1 GB of I/O
  space in total, so that no address computed wraps around, every block handed out is aligned, lies in the memory window that the two outbound maps
  cover or in the 64 KB of I/O space, and does not overlap an earlier block of its space.
\<close>

theorem sam460_bars:
  assumes run: "alloc_all addr_for_bar reqs (setup_pci_params s) = (rs, s')"
    and mem: "pow2_sizes (\<lambda>type. type \<noteq> BAR_SPACE_IO) reqs" "demand (\<lambda>type. type \<noteq> BAR_SPACE_IO) reqs \<le> 2 ^ 31"
    and io: "pow2_sizes (\<lambda>type. type = BAR_SPACE_IO) reqs" "demand (\<lambda>type. type = BAR_SPACE_IO) reqs \<le> 2 ^ 32 - 2 ^ 8"
    and i: "i < length reqs" "rs ! i \<noteq> 0"
  shows "(if fst (reqs ! i) = BAR_SPACE_IO then block_ok 0x100 0x10000 (rs ! i) (snd (reqs ! i))
      else block_ok 0x80000000 0xa0000000 (rs ! i) (snd (reqs ! i))) \<and>
    (\<forall>j. j < i \<longrightarrow> rs ! j \<noteq> 0 \<longrightarrow> (fst (reqs ! j) = BAR_SPACE_IO \<longleftrightarrow> fst (reqs ! i) = BAR_SPACE_IO) \<longrightarrow>
      unat (rs ! j) + unat (snd (reqs ! j)) \<le> unat (rs ! i))"
proof -
  let ?s = "setup_pci_params s"
  have p: "unat (memavail ?s) = 0x80000000" "unat (membase ?s + memlen ?s) = 0xa0000000" "unat (ioavail ?s) = 0x100" "unat (iolen ?s) = 0x10000"
    by (simp_all add: setup_pci_params_def)
  have fm: "unat (memavail ?s) + demand (\<lambda>type. type \<noteq> BAR_SPACE_IO) reqs \<le> 2 ^ 32"
    and fi: "unat (ioavail ?s) + demand (\<lambda>type. type = BAR_SPACE_IO) reqs \<le> 2 ^ 32"
    using mem(2) io(2) by (simp_all add: p)
  note bm = sam_mem.alloc_all_blocks [OF TrueI mem(1) fm run, unfolded p]
    and bi = sam_io.alloc_all_blocks [OF TrueI io(1) fi run, unfolded p]
  note om = sam_mem.alloc_all_ordered [OF TrueI mem(1) fm run _ i(1) _ _ _ i(2)]
    and oi = sam_io.alloc_all_ordered [OF TrueI io(1) fi run _ i(1) _ _ _ i(2)]
  show ?thesis using bm bi om oi i by auto
qed

theorem sam460_bars_witness:
  "\<exists>rs s'. alloc_all addr_for_bar [(1, 0x80), (0, 0x10000000)]
       (setup_pci_params \<lparr>hw = (), pci_conf_addr = 0, pci_data_addr = 0, iobase = 0, iolen = 0, membase = 0, memlen = 0,
          ioavail = 0, memavail = 0, bd = bd_460ex_zero\<rparr>) = (rs, s') \<and> rs = [0x100, 0x80000000] \<and> block_ok 0x80000000 0xa0000000 (rs ! 1) 0x10000000"
proof -
  let ?reqs = "[(1, 0x80), (0, 0x10000000)] :: (u32 \<times> u32) list"
  let ?s = "setup_pci_params \<lparr>hw = (), pci_conf_addr = 0, pci_data_addr = 0, iobase = 0, iolen = 0, membase = 0, memlen = 0,
          ioavail = 0, memavail = 0, bd = bd_460ex_zero\<rparr>"
  obtain rs s' where run: "alloc_all addr_for_bar ?reqs ?s = (rs, s')" by (cases "alloc_all addr_for_bar ?reqs ?s")
  then have rs: "rs = [0x100, 0x80000000]"
    by (simp add: addr_for_bar_def bump_def BAR_SPACE_IO_def ROUND_UP_def ROUND_DOWN_def setup_pci_params_def pci_set_addr_def)
  have k: "\<exists>k < 32. (0x80 :: u32) = 2 ^ k" "\<exists>k < 32. (0x10000000 :: u32) = 2 ^ k"
    by (rule exI [of _ 7], simp) (rule exI [of _ 28], simp)
  then have sizes: "pow2_sizes (\<lambda>type. type \<noteq> BAR_SPACE_IO) ?reqs" "pow2_sizes (\<lambda>type. type = BAR_SPACE_IO) ?reqs"
    by (simp_all add: pow2_sizes_def BAR_SPACE_IO_def)
  have "block_ok 0x80000000 0xa0000000 (rs ! 1) (snd (?reqs ! 1))"
    using sam460_bars [OF run sizes(1) _ sizes(2), of 1] by (simp add: demand_def BAR_SPACE_IO_def rs)
  with run rs show ?thesis by simp
qed

subsection \<open>The windows during set-up\<close>

definition windows_ok :: "bd_460ex_t \<Rightarrow> 'h sam460 \<Rightarrow> bool" where
  "windows_ok d s \<longleftrightarrow> ioavail s \<le> 0x10000 \<and> memavail s \<le> 0xa0000000 \<and> iobase s = 0xD8000000 \<and> iolen s = 0x10000 \<and>
     membase s = 0x80000000 \<and> memlen s = 0x20000000 \<and> pci_conf_addr s = 0xDEC00000 \<and> pci_data_addr s = 0xDEC00004 \<and> bd s = d"

lemma sam_windows_ok_blind: "hw_blind (windows_ok d)"
  by (simp add: hw_blind_def windows_ok_def)

lemmas sam_windows_keeps =
  config_write_keeps [OF sam_windows_ok_blind] config_read_keeps [OF sam_windows_ok_blind] hw_blindD [OF sam_windows_ok_blind]

lemma sam_addr_for_bar_windows: "windows_ok d s \<Longrightarrow> windows_ok d (snd (addr_for_bar type sz s))"
  by (auto simp: windows_ok_def addr_for_bar_def bump_def Let_def split: if_splits)

lemma sam_setup_pci_device_windows: "windows_ok d s \<Longrightarrow> windows_ok d (setup_pci_device b devfn s)"
  by (simp add: setup_pci_device_def Let_def split_beta sam_windows_keeps
      map_bars_keeps [OF sam_windows_ok_blind sam_addr_for_bar_windows])

lemma sam_setup_slot_windows: "windows_ok d s \<Longrightarrow> windows_ok d (setup_slot b i s)"
  by (simp add: setup_slot_def Let_def split_beta sam_windows_keeps sam_setup_pci_device_windows
      fold_keeps [where P = "windows_ok d"] del: upt_rec_numeral)

text \<open>
  Whatever the devices answer, setting up the SAM460ex keeps the windows and the configuration
  port as they were set, never moves an allocation pointer past the end of its window, and does not
  touch the board information.
\<close>

lemma sam460_setup_keeps: "windows_ok (bd s) (sam460_setup b s)"
proof -
  have "windows_ok (bd s) (setup_pci_params (setup_pom b s))"
    by (simp add: windows_ok_def setup_pci_params_def pci_set_addr_def setup_pom_def Let_def)
  then show ?thesis
    unfolding sam460_setup_def by (rule fold_keeps [rotated]) (rule sam_setup_slot_windows)
qed

text \<open>
  C27. Whatever the devices answer, setting up the SAM460ex keeps the windows and the addresses of the configuration
  port as \<open>setup_pci_params\<close> set them, never moves an allocation pointer past the end of its window, and does not touch
  the board information, in which \<open>sam460_init\<close> has put the size of memory.
\<close>

theorem sam460_setup_windows: "windows_ok (bd s) (sam460_setup b s)"
  by (rule sam460_setup_keeps)

subsection \<open>The address map\<close>

text \<open>
  What the code relies on in the processor: \<open>tlbwe\<close> writes one word of one entry, and writing MMUCR
  does not change entries. \<open>tlb\<close> views the hardware: entry, word.
\<close>

definition tlb_port :: "'h cpu \<Rightarrow> ('h \<Rightarrow> nat \<Rightarrow> nat \<Rightarrow> u32) \<Rightarrow> bool" where
  "tlb_port c tlb \<longleftrightarrow>
     (\<forall>v i w h. tlb (tlbwe c v i w h) = (tlb h)(i := (tlb h i)(w := v))) \<and> (\<forall>v h. tlb (mtspr c 946 v h) = tlb h)"

text \<open>
  The meaning of an entry, as the comments above \<open>write_tlb\<close> give it: word 0 holds the effective
  page, the valid bit and the size, four to the power of the size field kilobytes; word 1 holds
  the real page and the upper four bits of the 36-bit real address.
\<close>

definition tlb_valid :: "(nat \<Rightarrow> u32) \<Rightarrow> bool" where
  "tlb_valid e \<longleftrightarrow> e 0 AND 0x200 \<noteq> 0"

definition tlb_base :: "(nat \<Rightarrow> u32) \<Rightarrow> nat" where
  "tlb_base e = unat (e 0 AND 0xfffffc00)"

definition tlb_len :: "(nat \<Rightarrow> u32) \<Rightarrow> nat" where
  "tlb_len e = 1024 * 4 ^ unat (drop_bit 4 (e 0) AND 0xf)"

definition tlb_covers :: "(nat \<Rightarrow> u32) \<Rightarrow> u32 \<Rightarrow> bool" where
  "tlb_covers e a \<longleftrightarrow> tlb_valid e \<and> tlb_base e \<le> unat a \<and> unat a < tlb_base e + tlb_len e"

definition tlb_real :: "(nat \<Rightarrow> u32) \<Rightarrow> u32 \<Rightarrow> nat" where
  "tlb_real e a = unat (e 1 AND 0xf) * 2 ^ 32 + unat (e 1 AND 0xfffffc00) + (unat a - tlb_base e)"

text \<open>The words that \<open>setup_tlb\<close> leaves in entry \<open>i\<close>.\<close>

definition row_words :: "nat \<Rightarrow> nat \<Rightarrow> u32" where
  "row_words i = (let r = tlbtab ! i in (\<lambda>_. 0)(0 := epn r OR TLB_VALID OR tsize r, 1 := rpn r OR erpn r, 2 := attr r))"

definition page_words :: "nat \<Rightarrow> nat \<Rightarrow> u32" where
  "page_words i = (\<lambda>_. 0)(0 := push_bit 28 (of_nat i) OR TLB_VALID OR TLB_256M, 1 := push_bit 28 (of_nat i), 2 := AC_RWX OR SA_I)"

lemma write_tlb_words:
  assumes "tlb_port c tlb"
  shows "tlb (write_tlb c i w0 w1 w2 h) = (tlb h)(i := (tlb h i)(0 := w0, 1 := w1, 2 := w2))"
  using assms by (auto simp: tlb_port_def write_tlb_def Let_def)

lemma write_pages_words:
  assumes "tlb_port c tlb"
  shows "tlb (fold (\<lambda>i. write_tlb c (n + i) (push_bit 28 (of_nat i) OR TLB_VALID OR TLB_256M) (push_bit 28 (of_nat i)) (AC_RWX OR SA_I))
      [0..<k] h) j w = (if n \<le> j \<and> j < n + k \<and> w < 3 then page_words (j - n) w else tlb h j w)"
  by (induction k) (auto simp: write_tlb_words [OF assms] page_words_def)

lemma write_rows_words:
  assumes "tlb_port c tlb"
  shows "tlb (fold (write_row c) [0..<k] h) j w = (if j < k \<and> w < 3 then row_words j w else tlb h j w)"
  by (induction k) (auto simp: write_tlb_words [OF assms] write_row_def row_words_def Let_def)

lemma setup_tlb_words:
  assumes "tlb_port c tlb" "w < 3"
  shows "tlb (setup_tlb c memsize h) j w =
    (if j < 15 then row_words j w else if j < 15 + ram_pages memsize then page_words (j - 15) w else tlb h j w)"
proof -
  have "length tlbtab = 15" by (simp add: tlbtab_def)
  then show ?thesis
    using assms by (simp add: setup_tlb_def Let_def write_pages_words write_rows_words)
qed

text \<open>The decoded map: the table and up to eight pages of SDRAM.\<close>

definition map_words :: "nat \<Rightarrow> nat \<Rightarrow> u32" where
  "map_words i = (if i < 15 then row_words i else page_words (i - 15))"

definition tlb_disjoint :: "(nat \<Rightarrow> u32) \<Rightarrow> (nat \<Rightarrow> u32) \<Rightarrow> bool" where
  "tlb_disjoint e e' \<longleftrightarrow> tlb_base e + tlb_len e \<le> tlb_base e' \<or> tlb_base e' + tlb_len e' \<le> tlb_base e"

text \<open>The area of effective addresses of every entry: its start and its length.\<close>

definition map_ranges :: "(nat \<times> nat) list" where
  "map_ranges =
    [(0xF0000000, 2 ^ 28), (0xD0000000, 2 ^ 28), (0x80000000, 2 ^ 28), (0x90000000, 2 ^ 28), (0xA0000000, 2 ^ 28),
     (0xB0000000, 2 ^ 28), (0xC0000000, 2 ^ 28), (0xE0000000, 2 ^ 24), (0xE1000000, 2 ^ 24), (0xE3000000, 2 ^ 10),
     (0xE3001000, 2 ^ 10), (0xE4000000, 2 ^ 14), (0xE5000000, 2 ^ 20), (0xEF000000, 2 ^ 24), (0xE2000000, 2 ^ 20),
     (0, 2 ^ 28), (0x10000000, 2 ^ 28), (0x20000000, 2 ^ 28), (0x30000000, 2 ^ 28),
     (0x40000000, 2 ^ 28), (0x50000000, 2 ^ 28), (0x60000000, 2 ^ 28), (0x70000000, 2 ^ 28)]"

lemmas tlb_literals = TLB_VALID_def TLB_1K_def TLB_16K_def TLB_1M_def TLB_16M_def TLB_256M_def

lemma map_words_ranges: "map (\<lambda>i. (tlb_base (map_words i), tlb_len (map_words i))) [0..<23] = map_ranges"
  by (simp add: upt_rec map_words_def row_words_def page_words_def tlbtab_def tlb_entry_def tlb_base_def tlb_len_def tlb_literals
      map_ranges_def)

lemma ram_pages_small:
  assumes "memsize \<le> 0x80000000"
  shows "ram_pages memsize \<le> 8" "unat memsize \<le> ram_pages memsize * 2 ^ 28"
proof -
  have m: "unat memsize \<le> 2 ^ 31" using assms by (simp add: word_le_nat_alt)
  then have "unat (memsize + 0xfffffff) = unat memsize + 0xfffffff"
    by (subst unat_add_small) simp_all
  then have p: "unat (drop_bit 28 (memsize + 0xfffffff)) = (unat memsize + 0xfffffff) div 2 ^ 28"
    using m by (simp only: unsigned_drop_bit_eq) (simp add: drop_bit_eq_div take_bit_nat_eq_self)
  have "length tlbtab = 15" by (simp add: tlbtab_def)
  then show "ram_pages memsize \<le> 8" "unat memsize \<le> ram_pages memsize * 2 ^ 28"
    using m p by (auto simp: ram_pages_def Let_def)
qed

lemma map_ranges_disjoint: "sorted_wrt (\<lambda>(a, n) (b, k). a + n \<le> b \<or> b + k \<le> a) map_ranges"
  by (simp add: map_ranges_def)

lemma map_range: "i < 23 \<Longrightarrow> map_ranges ! i = (tlb_base (map_words i), tlb_len (map_words i))"
  unfolding map_words_ranges [symmetric] by (simp del: upt_rec_numeral)

lemma map_disjoint:
  assumes "i < 23" "j < 23" "i \<noteq> j" "tlb_covers (map_words i) a"
  shows "\<not> tlb_covers (map_words j) a"
proof -
  have len: "length map_ranges = 23" by (simp add: map_ranges_def)
  have "tlb_base (map_words i) + tlb_len (map_words i) \<le> tlb_base (map_words j) \<or>
      tlb_base (map_words j) + tlb_len (map_words j) \<le> tlb_base (map_words i)"
    using assms(3) sorted_wrt_nth_less [OF map_ranges_disjoint, of i j] sorted_wrt_nth_less [OF map_ranges_disjoint, of j i]
      assms(1,2) len by (cases "i < j") (auto simp: map_range)
  then show ?thesis using assms(4) by (auto simp: tlb_covers_def)
qed

lemma page_decode:
  assumes "i < 8"
  shows "tlb_valid (page_words i)" "tlb_base (page_words i) = i * 2 ^ 28" "tlb_len (page_words i) = 2 ^ 28"
    "page_words i 1 AND 0xf = 0" "unat (page_words i 1 AND 0xfffffc00) = i * 2 ^ 28"
proof -
  have i: "i \<in> {0, 1, 2, 3, 4, 5, 6, 7}" using assms by auto
  show "tlb_valid (page_words i)" "tlb_base (page_words i) = i * 2 ^ 28" "tlb_len (page_words i) = 2 ^ 28"
    "page_words i 1 AND 0xf = 0" "unat (page_words i 1 AND 0xfffffc00) = i * 2 ^ 28"
    using i by (auto simp: page_words_def tlb_valid_def tlb_base_def tlb_len_def tlb_literals)
qed

text \<open>
  C22. With up to 2 GB of memory, \<open>setup_tlb\<close> leaves a map in which the entries it wrote never cover an
  address twice, and every address of memory is covered, by an entry behind those of the table, and
  translated to itself.
\<close>

theorem setup_tlb_map:
  fixes c :: "'h cpu" and h :: 'h
  assumes port: "tlb_port c tlb" and size: "memsize \<le> 0x80000000"
  defines "e \<equiv> tlb (setup_tlb c memsize h)" and "n \<equiv> 15 + ram_pages memsize"
  shows "(\<forall>i < n. \<forall>j < n. \<forall>a. i \<noteq> j \<longrightarrow> tlb_covers (e i) a \<longrightarrow> \<not> tlb_covers (e j) a) \<and>
    (\<forall>a < memsize. \<exists>i. 15 \<le> i \<and> i < n \<and> tlb_covers (e i) a \<and> tlb_real (e i) a = unat a)"
proof -
  note pages = ram_pages_small [OF size]
  have e: "e i w = map_words i w" if "i < n" "w < 3" for i w
    using setup_tlb_words [OF port that(2), of memsize h i] that(1) by (auto simp: e_def n_def map_words_def)
  have cov: "tlb_covers (e i) a \<longleftrightarrow> tlb_covers (map_words i) a" and real: "tlb_real (e i) a = tlb_real (map_words i) a"
    if "i < n" for i a
    using e [OF that] by (simp_all add: tlb_covers_def tlb_valid_def tlb_base_def tlb_len_def tlb_real_def)
  have n: "n \<le> 23" using pages(1) by (simp add: n_def)
  have one: "\<not> tlb_covers (e j) a" if "i < n" "j < n" "i \<noteq> j" "tlb_covers (e i) a" for i j a
    using map_disjoint [of i j a] that n by (simp add: cov)
  have all: "\<exists>i. 15 \<le> i \<and> i < n \<and> tlb_covers (e i) a \<and> tlb_real (e i) a = unat a" if "a < memsize" for a
  proof -
    let ?p = "unat a div 2 ^ 28"
    have "unat a < ram_pages memsize * 2 ^ 28" using that pages(2) by (simp add: word_less_nat_alt)
    then have p: "?p < ram_pages memsize" by (simp add: div_less_iff_less_mult)
    then have p8: "?p < 8" using pages(1) by simp
    have in_n: "15 + ?p < n" using p by (simp add: n_def)
    have inside: "?p * 2 ^ 28 \<le> unat a" "unat a < ?p * 2 ^ 28 + 2 ^ 28"
    proof -
      have "unat a mod 2 ^ 28 < 2 ^ 28" by simp
      then show "?p * 2 ^ 28 \<le> unat a" "unat a < ?p * 2 ^ 28 + 2 ^ 28"
        using div_mult_mod_eq [of "unat a" "2 ^ 28"] by linarith+
    qed
    have words: "map_words (15 + ?p) = page_words ?p" by (simp add: map_words_def)
    have "tlb_covers (page_words ?p) a \<and> tlb_real (page_words ?p) a = unat a"
      unfolding tlb_covers_def tlb_real_def page_decode(2-5) [OF p8] using page_decode(1) [OF p8] inside by simp
    then show ?thesis using in_n cov [OF in_n] real [OF in_n] words by (intro exI [of _ "15 + ?p"]) simp
  qed
  show ?thesis using one all by blast
qed

text \<open>A processor whose state is its TLB.\<close>

definition tlb_cpu :: "(nat \<Rightarrow> nat \<Rightarrow> u32) cpu" where
  "tlb_cpu = \<lparr>mtspr = (\<lambda>_ _ h. h), mfspr = (\<lambda>_ h. (0, h)), mtdcr = (\<lambda>_ _ h. h), tlbwe = (\<lambda>v i w h. h(i := (h i)(w := v)))\<rparr>"

lemma tlb_cpu_port: "tlb_port tlb_cpu id"
  by (simp add: tlb_port_def tlb_cpu_def)

theorem setup_tlb_map_witness:
  "\<exists>i. 15 \<le> i \<and> i < 15 + ram_pages 0x80000000 \<and> tlb_covers (setup_tlb tlb_cpu 0x80000000 (\<lambda>_ _. 0) i) 0x12345678"
proof -
  have "\<forall>a < 0x80000000. \<exists>i. 15 \<le> i \<and> i < 15 + ram_pages 0x80000000 \<and> tlb_covers (setup_tlb tlb_cpu 0x80000000 (\<lambda>_ _. 0) i) a"
    using setup_tlb_map [OF tlb_cpu_port, of "0x80000000" "\<lambda>_ _. 0"] by auto
  moreover have "(0x12345678 :: u32) < 0x80000000" by simp
  ultimately show ?thesis by blast
qed

text \<open>
  C26. With more than 2 GB the map is not one: at 3 GB, the first address of the PCI window is covered
  both by the entry of the table and by a page of SDRAM.
\<close>

theorem setup_tlb_overlap:
  assumes port: "tlb_port c tlb"
  shows "tlb_covers (tlb (setup_tlb c 0xC0000000 h) 2) 0x80000000 \<and> tlb_covers (tlb (setup_tlb c 0xC0000000 h) 23) 0x80000000 \<and>
    tlb_real (tlb (setup_tlb c 0xC0000000 h) 2) 0x80000000 = 0xC80000000 \<and>
    tlb_real (tlb (setup_tlb c 0xC0000000 h) 23) 0x80000000 = 0x80000000"
proof -
  have "length tlbtab = 15" by (simp add: tlbtab_def)
  then have p: "ram_pages 0xC0000000 = 12" by (simp add: ram_pages_def Let_def)
  have "tlb (setup_tlb c 0xC0000000 h) 2 w = row_words 2 w" "tlb (setup_tlb c 0xC0000000 h) 23 w = page_words 8 w" if "w < 3" for w
    using setup_tlb_words [OF port that, of "0xC0000000" h] by (simp_all add: p)
  then show ?thesis
    by (simp add: tlb_covers_def tlb_valid_def tlb_base_def tlb_len_def tlb_real_def row_words_def page_words_def tlbtab_def
        tlb_entry_def tlb_literals)
qed

theorem setup_tlb_overlap_witness: "tlb_covers (setup_tlb tlb_cpu 0xC0000000 (\<lambda>_ _. 0) 23) 0x80000000"
  using setup_tlb_overlap [OF tlb_cpu_port, of "\<lambda>_ _. 0"] by simp

subsection \<open>sam460_init\<close>

text \<open>The value of a property in the tree, by the names of the node and the property.\<close>

definition tree_prop :: "dtree \<Rightarrow> string \<Rightarrow> string \<Rightarrow> u8 list option" where
  "tree_prop t node pr = kids_lookup (chars node) (chars pr) (dt_kids t)"

definition values_fit :: "dtree \<Rightarrow> bool" where
  "values_fit t \<longleftrightarrow> (\<forall>node pr v. kids_lookup node pr (dt_kids t) = Some v \<longrightarrow> length v < 2 ^ 31)"

lemma tree_readers:
  assumes "fdt_image m fdt t" "CHR 0x00 \<notin> set node" "CHR 0x00 \<notin> set pr" "values_fit t"
  shows "idx + 1 < 2 ^ 29 \<Longrightarrow> fdt_get_prop_u32_idx m fdt (lit node) (lit pr) idx = Some (cell_of (tree_prop t node pr) idx)"
    "fdt_get_prop_u32 m fdt (lit node) (lit pr) = Some (cell_of (tree_prop t node pr) 0)"
    "1 < buflen \<Longrightarrow> fdt_get_prop_str m fdt (lit node) (lit pr) buf (int buflen) = Some (case tree_prop t node pr of
        None \<Rightarrow> (- 1, m)
      | Some v \<Rightarrow> if v = [] then (- 1, m)
          else let n = min (length v) (buflen - 1) in (int n, (store_bytes m buf (take n v))(buf + of_nat n := 0)))"
  using assms cstring_lit [OF assms(2)] cstring_lit [OF assms(3)]
  unfolding tree_prop_def values_fit_def
  by (simp_all add: fdt_get_prop_u32_idx_tree fdt_get_prop_u32_is_idx fdt_get_prop_str_tree del: of_nat_less_iff)

lemma store_args_frame:
  assumes "n < 256" "x \<notin> region buf 256"
  shows "((store_bytes m buf (take n v))(buf + of_nat n := 0)) x = m x"
proof -
  have "length (take n v) \<le> 256" using assms(1) by simp
  then have "x \<notin> region buf (length (take n v))" using assms(2) region_mono by blast
  moreover have "x \<noteq> buf + of_nat n" using assms region_offset [of n 256 buf] by blast
  ultimately show ?thesis by (simp add: store_bytes_frame)
qed

lemma cstring_args:
  assumes n: "n \<le> length v" "n < 2 ^ 16"
  shows "cstring (at ((store_bytes m buf (take n v))(buf + of_nat n := 0)) buf) (takeWhile (\<lambda>c. c \<noteq> 0) (take n v))"
proof -
  let ?w = "take n v" and ?m = "(store_bytes m buf (take n v))(buf + of_nat n := 0)"
  have i: "at ?m buf i = ?w ! i" if "i < n" for i
  proof -
    have "unat (of_nat i :: u32) = i" "unat (of_nat n :: u32) = n" using that n(2) by (simp_all add: unat_of_nat32)
    then have "buf + of_nat i \<noteq> buf + (of_nat n :: u32)" using that by auto
    then show ?thesis using store_bytes_nth [of ?w i m buf] that n by (simp add: at_def)
  qed
  have "at ?m buf (length (takeWhile (\<lambda>c. c \<noteq> 0) ?w)) = 0"
  proof (cases "length (takeWhile (\<lambda>c. c \<noteq> 0) ?w) < length ?w")
    case True
    then show ?thesis using i nth_length_takeWhile [OF True] n(1) by simp
  next
    case False
    then have "length (takeWhile (\<lambda>c. c \<noteq> 0) ?w) = n" using length_takeWhile_le [of "\<lambda>c. c \<noteq> 0" ?w] n(1) by simp
    then show ?thesis by (simp add: at_def)
  qed
  moreover have "at ?m buf k = takeWhile (\<lambda>c. c \<noteq> 0) ?w ! k" if "k < length (takeWhile (\<lambda>c. c \<noteq> 0) ?w)" for k
    using i [of k] takeWhile_nth [OF that] length_takeWhile_le [of "\<lambda>c. c \<noteq> 0" ?w] that n(1) by simp
  moreover have "0 \<notin> set (takeWhile (\<lambda>c. c \<noteq> 0) ?w)" by (auto dest: set_takeWhileD)
  ultimately show ?thesis by (simp add: cstring_def)
qed

lemma read_fdt_tree:
  assumes check: "fdt_check m fdt = 0" and image: "fdt_image m fdt t"
    and len: "values_fit t"
  shows "\<exists>m'. read_fdt buf fdt brd m = Some (case cell_of (tree_prop t ''memory'' ''reg'') 2 of Some v \<Rightarrow> v | None \<Rightarrow> 512 * 1024 * 1024,
      brd\<lparr>initrd_start := (case cell_of (tree_prop t ''chosen'' ''linux,initrd-start'') 0 of Some v \<Rightarrow> v | None \<Rightarrow> 0),
        initrd_end := (case cell_of (tree_prop t ''chosen'' ''linux,initrd-end'') 0 of Some v \<Rightarrow> v | None \<Rightarrow> 0),
        bootargs := (case tree_prop t ''chosen'' ''bootargs'' of Some (_ # _) \<Rightarrow> buf | _ \<Rightarrow> bootargs brd)\<rparr>, m') \<and>
    (\<forall>x. x \<notin> region buf 256 \<longrightarrow> m' x = m x) \<and>
    (\<forall>v n. tree_prop t ''chosen'' ''bootargs'' = Some v \<longrightarrow> v \<noteq> [] \<longrightarrow> n = min (length v) 255 \<longrightarrow>
      m' = (store_bytes m buf (take n v))(buf + of_nat n := 0))"
proof -
  have ne: "CHR 0x00 \<notin> set ''memory''" "CHR 0x00 \<notin> set ''reg''" "CHR 0x00 \<notin> set ''chosen''"
    "CHR 0x00 \<notin> set ''linux,initrd-start''" "CHR 0x00 \<notin> set ''linux,initrd-end''" "CHR 0x00 \<notin> set ''bootargs''"
    by simp_all
  note r1 = tree_readers(1) [OF image ne(1,2) len, of 2, simplified]
    and r2 = tree_readers(2) [OF image ne(3,4) len] and r3 = tree_readers(2) [OF image ne(3,5) len]
    and r4 = tree_readers(3) [OF image ne(3,6) len, of 256 buf, simplified]
  show ?thesis
  proof (cases "tree_prop t ''chosen'' ''bootargs''")
    case None
    then show ?thesis by (simp add: read_fdt_def check r1 r2 r3 r4 Let_def)
  next
    case (Some v)
    show ?thesis
    proof (cases v)
      case Nil
      then show ?thesis using Some by (simp add: read_fdt_def check r1 r2 r3 r4 Let_def)
    next
      case (Cons y ys)
      then show ?thesis using Some store_args_frame [of "min (length v) 255" _ buf m v]
        by (simp add: read_fdt_def check r1 r2 r3 r4 Let_def)
    qed
  qed
qed

lemma sam460_init_run:
  assumes "fdt_check m fdt = 0" "fdt_image m fdt t" "values_fit t"
  shows "\<exists>brd' s' m'. sam460_init bd_addr buf b c fdt brd s m = Some (brd', s', m') \<and>
    bi_memsize (bd s') = (case cell_of (tree_prop t ''memory'' ''reg'') 2 of Some v \<Rightarrow> v | None \<Rightarrow> 512 * 1024 * 1024) \<and>
    stack_top brd' = stack_for (bi_memsize (bd s')) \<and> info brd' = bd_addr \<and> exec_addr brd' = 0x1000000 \<and>
    initrd_start brd' = (case cell_of (tree_prop t ''chosen'' ''linux,initrd-start'') 0 of Some v \<Rightarrow> v | None \<Rightarrow> 0) \<and>
    initrd_end brd' = (case cell_of (tree_prop t ''chosen'' ''linux,initrd-end'') 0 of Some v \<Rightarrow> v | None \<Rightarrow> 0) \<and>
    (\<forall>x. x \<notin> region buf 256 \<longrightarrow> m' x = m x) \<and>
    (\<forall>v. tree_prop t ''chosen'' ''bootargs'' = Some v \<longrightarrow> v \<noteq> [] \<longrightarrow>
      bootargs brd' = buf \<and> cstring (at m' buf) (takeWhile (\<lambda>c. c \<noteq> 0) (take 255 v))) \<and>
    (tree_prop t ''chosen'' ''bootargs'' \<in> {None, Some []} \<longrightarrow> bootargs brd' = bootargs brd)"
proof -
  let ?brd = "brd\<lparr>claim := no_claim, brd_setup := Some (\<lambda>m s. Done (m, sam460_setup b s)), exec_addr := 0x1000000, serial_base := 0xEF600300, info := bd_addr\<rparr>"
  obtain m' where r: "read_fdt buf fdt ?brd m = Some (case cell_of (tree_prop t ''memory'' ''reg'') 2 of Some v \<Rightarrow> v | None \<Rightarrow> 512 * 1024 * 1024,
      ?brd\<lparr>initrd_start := (case cell_of (tree_prop t ''chosen'' ''linux,initrd-start'') 0 of Some v \<Rightarrow> v | None \<Rightarrow> 0),
        initrd_end := (case cell_of (tree_prop t ''chosen'' ''linux,initrd-end'') 0 of Some v \<Rightarrow> v | None \<Rightarrow> 0),
        bootargs := (case tree_prop t ''chosen'' ''bootargs'' of Some (_ # _) \<Rightarrow> buf | _ \<Rightarrow> bootargs ?brd)\<rparr>, m')"
    and frame: "\<forall>x. x \<notin> region buf 256 \<longrightarrow> m' x = m x"
    and args: "\<forall>v n. tree_prop t ''chosen'' ''bootargs'' = Some v \<longrightarrow> v \<noteq> [] \<longrightarrow> n = min (length v) 255 \<longrightarrow>
      m' = (store_bytes m buf (take n v))(buf + of_nat n := 0)"
    using read_fdt_tree [OF assms, of buf ?brd] by blast
  have "cstring (at m' buf) (takeWhile (\<lambda>c. c \<noteq> 0) (take 255 v))" if "tree_prop t ''chosen'' ''bootargs'' = Some v" "v \<noteq> []" for v
  proof -
    have "m' = (store_bytes m buf (take (min (length v) 255) v))(buf + of_nat (min (length v) 255) := 0)"
      using args that by simp
    moreover have "take (min (length v) 255) v = take 255 v" by (simp add: min_def)
    ultimately show ?thesis using cstring_args [of "min (length v) 255" v m buf] by simp
  qed
  then show ?thesis using r frame by (auto simp: sam460_init_def Let_def split: list.splits)
qed

text \<open>
  C23. Started with a device tree, \<open>sam460_init\<close> returns, whatever nodes the tree has: the size of memory is
  the third cell of the property \<open>reg\<close> of \<open>memory\<close> (512 MB without it), the place of the initial RAM disk is read from
  \<open>chosen\<close>, and memory changes only in the buffer for the boot arguments. There they are the string in \<open>bootargs\<close> of
  \<open>chosen\<close>, of which everything behind 255 bytes is cut off. \<open>tree_prop\<close> looks properties up as \<open>fdt_find_prop\<close> does
  (\<open>kids_lookup\<close>), also in the sub-nodes that come first.
\<close>

theorem sam460_init_spec:
  assumes "fdt_check m fdt = 0" "fdt_image m fdt t" "values_fit t"
  shows "\<exists>brd' s' m'. sam460_init bd_addr buf b c fdt brd s m = Some (brd', s', m') \<and>
    bi_memsize (bd s') = (case cell_of (tree_prop t ''memory'' ''reg'') 2 of Some v \<Rightarrow> v | None \<Rightarrow> 512 * 1024 * 1024) \<and>
    stack_top brd' = stack_for (bi_memsize (bd s')) \<and> info brd' = bd_addr \<and> exec_addr brd' = 0x1000000 \<and>
    initrd_start brd' = (case cell_of (tree_prop t ''chosen'' ''linux,initrd-start'') 0 of Some v \<Rightarrow> v | None \<Rightarrow> 0) \<and>
    initrd_end brd' = (case cell_of (tree_prop t ''chosen'' ''linux,initrd-end'') 0 of Some v \<Rightarrow> v | None \<Rightarrow> 0) \<and>
    (\<forall>x. x \<notin> region buf 256 \<longrightarrow> m' x = m x) \<and>
    (\<forall>v. tree_prop t ''chosen'' ''bootargs'' = Some v \<longrightarrow> v \<noteq> [] \<longrightarrow>
      bootargs brd' = buf \<and> cstring (at m' buf) (takeWhile (\<lambda>c. c \<noteq> 0) (take 255 v))) \<and>
    (tree_prop t ''chosen'' ''bootargs'' \<in> {None, Some []} \<longrightarrow> bootargs brd' = bootargs brd)"
  by (rule sam460_init_run [OF assms])

lemma example_values_fit: "values_fit example_tree"
  by (auto simp: values_fit_def example_tree_def split: if_splits)

theorem sam460_init_spec_witness:
  "\<exists>brd' s' m'. sam460_init 0x3000 0x2000 \<lparr>bus_load = \<lambda>_ _ h. (0, h), bus_store = \<lambda>_ _ _ h. h\<rparr> tlb_cpu 0 brd_zero
      \<lparr>hw = \<lambda>_ _. 0, pci_conf_addr = 0, pci_data_addr = 0, iobase = 0, iolen = 0, membase = 0, memlen = 0,
          ioavail = 0, memavail = 0, bd = bd_460ex_zero\<rparr> example_mem = Some (brd', s', m') \<and>
    bi_memsize (bd s') = 0x40000000"
proof -
  have check: "fdt_check example_mem 0 = 0" by code_simp
  have "cell_of (tree_prop example_tree ''memory'' ''reg'') 2 = Some 0x40000000"
    by (simp add: tree_prop_def example_tree_def chars_def char_byte_def cell_of_def be32_of_def)
  then show ?thesis
    using sam460_init_spec [OF check example_image example_values_fit, of "0x3000" "0x2000"
        "\<lparr>bus_load = \<lambda>_ _ h. (0, h), bus_store = \<lambda>_ _ _ h. h\<rparr>" tlb_cpu brd_zero
        "\<lparr>hw = \<lambda>_ _. 0, pci_conf_addr = 0, pci_data_addr = 0, iobase = 0, iolen = 0, membase = 0, memlen = 0,
          ioavail = 0, memavail = 0, bd = bd_460ex_zero\<rparr>"] by auto
qed

end
