(* ===== verification/Brd_Pegasos2.thy ===== *)
theory Brd_Pegasos2
  imports Bar Board Prom
begin

text \<open>
  The Pegasos2 board: \<open>brd_pegasos2.c\<close>. The firmware lists the PCI devices; the code assigns addresses
  to those without \<open>assigned-addresses\<close>, truncates 64-bit registers and writes the registers that
  differ. The static array \<open>cells\<close> is a list of 35 words with checked indices: \<open>Fault\<close> is an access
  outside of it, \<open>Hang\<close> a firmware call, or a list of devices, that does not end.
\<close>

subsection \<open>State\<close>

record ('h, 'f) pegasos = "'h bar_state" +
  ioresavail :: u32
  cells :: "u32 list"
  ps :: "'f prom_state"

abbreviation IORES_START :: u32 where "IORES_START \<equiv> 0x1000"
abbreviation IORES_TOP :: u32 where "IORES_TOP \<equiv> 0x1200"
abbreviation MV64361_BASE :: u32 where "MV64361_BASE \<equiv> 0xf1000000"

definition PHYS_HI_PREFETCH :: u32 where "PHYS_HI_PREFETCH = push_bit 30 1"
definition PHYS_HI_TYPE :: "u32 \<Rightarrow> u32" where "PHYS_HI_TYPE x = drop_bit 24 x AND 3"

definition cells_bytes :: "u32 list \<Rightarrow> u8 list" where
  "cells_bytes cs = concat (map word_bytes cs)"

definition bytes_cells :: "u8 list \<Rightarrow> u32 list" where
  "bytes_cells xs = map (\<lambda>i. bytes_word (take 4 (drop (4 * i) (xs @ replicate 140 0)))) [0..<35]"

definition addr_for_bar :: "u32 \<Rightarrow> u32 \<Rightarrow> ('h, 'f) pegasos \<Rightarrow> u32 \<times> ('h, 'f) pegasos" where
  "addr_for_bar physhi sz s =
     (if sz = 0 then (0, s)
      else if PHYS_HI_TYPE physhi = 1 then
        let res = (PCI_BUS physhi = 0 \<and> PCI_SLOT physhi = 0xc);
            avail = ROUND_UP (if res then ioresavail s else ioavail s) sz in
        if avail + sz > iolen s then (0, if res then s\<lparr>ioresavail := avail\<rparr> else s\<lparr>ioavail := avail\<rparr>)
        else
          let ret = iobase s + avail;
              avail = avail + sz;
              avail = (if res \<and> avail \<ge> IORES_TOP then IORES_START + 0x30 else avail) in
          (ret, if res then s\<lparr>ioresavail := avail\<rparr> else s\<lparr>ioavail := avail\<rparr>)
      else if PHYS_HI_TYPE physhi = 2 \<or> PHYS_HI_TYPE physhi = 3 then
        let avail = ROUND_UP (memavail s) sz in
        if avail - membase s + sz > memlen s then (0, s\<lparr>memavail := avail\<rparr>)
        else (avail, s\<lparr>memavail := avail + sz\<rparr>)
      else (0, s))"

text \<open>Firmware calls on the state of the board.\<close>

definition getprop_cells :: "'f client_interface \<Rightarrow> u32 \<Rightarrow> string \<Rightarrow> ('h, 'f) pegasos \<Rightarrow> (int \<times> ('h, 'f) pegasos) outcome" where
  "getprop_cells ci ph name s =
     bindO (returns (prom_getprop ci ph name (cells_bytes (cells s)) 140 (ps s))) (\<lambda>(r, buf, p).
       Done (r, s\<lparr>cells := bytes_cells buf, ps := p\<rparr>))"

definition getprop_word :: "'f client_interface \<Rightarrow> u32 \<Rightarrow> string \<Rightarrow> ('h, 'f) pegasos \<Rightarrow> (int \<times> u32 \<times> ('h, 'f) pegasos) outcome" where
  "getprop_word ci ph name s =
     bindO (returns (prom_getprop ci ph name [0, 0, 0, 0] 4 (ps s))) (\<lambda>(r, buf, p). Done (r, bytes_word buf, s\<lparr>ps := p\<rparr>))"

definition setprop_cells :: "'f client_interface \<Rightarrow> u32 \<Rightarrow> string \<Rightarrow> nat \<Rightarrow> ('h, 'f) pegasos \<Rightarrow> (int \<times> ('h, 'f) pegasos) outcome" where
  "setprop_cells ci ph name len s =
     bindO (returns (prom_setprop ci ph name (cells_bytes (cells s)) (of_nat len) (ps s))) (\<lambda>(r, p). Done (r, s\<lparr>ps := p\<rparr>))"

subsection \<open>Assigning addresses\<close>

text \<open>
  The first loop over the cells, from \<open>reg\<close> to \<open>assigned-addresses\<close>: row \<open>i + 5\<close> is copied to row \<open>i\<close> and
  its address cell is filled in. The result is the final value of \<open>i\<close>.
\<close>

definition copy_row :: "nat \<Rightarrow> u32 list \<Rightarrow> u32 list outcome" where
  "copy_row i cs = (if i + 10 \<le> length cs then Done (take i cs @ take 5 (drop (i + 5) cs) @ drop (i + 5) cs) else Fault)"

function assign_loop :: "nat \<Rightarrow> nat \<Rightarrow> ('h, 'f) pegasos \<Rightarrow> (nat \<times> ('h, 'f) pegasos) outcome" where
  "assign_loop n i s =
     (if i + 5 < n then
        bindO (copy_row i (cells s)) (\<lambda>cs.
        case addr_for_bar (cs ! i) (cs ! (i + 4)) (s\<lparr>cells := cs\<rparr>) of (a, s) \<Rightarrow>
          assign_loop n (i + 5) (s\<lparr>cells := cs[i + 2 := a]\<rparr>))
      else Done (i, s))"
  by pat_completeness auto
termination by (relation "measure (\<lambda>(n, i, s). n - i)") auto

declare assign_loop.simps [simp del]

text \<open>
  The last loop: one row of five cells. 64-bit registers are truncated, the offset of a ROM register
  is corrected, and the register is written when its value differs and the device is the one the
  firmware lists (\<open>same\<close>). The result tells whether the property must be set.
\<close>

definition check_row ::
  "'h bus \<Rightarrow> u32 \<Rightarrow> bool \<Rightarrow> nat \<Rightarrow> bool \<Rightarrow> ('h, 'f) pegasos \<Rightarrow> (bool \<times> ('h, 'f) pegasos) outcome" where
  "check_row b devfn same i setprop s =
     (if i + 5 > length (cells s) then Fault else
      let c = cells s ! i;
          (c, setprop) = (if PHYS_HI_TYPE c = 3 then (c AND NOT (push_bit 24 1), True) else (c, setprop));
          (c, setprop) = (if c AND 0xff = 0x28 then (c + 8, True) else (c, setprop));
          s = s\<lparr>cells := (cells s)[i := c]\<rparr>;
          val = cells s ! (i + 2);
          val = (if PHYS_HI_TYPE c = 1 then (val - iobase s) OR 1 else val);
          val = (if c AND PHYS_HI_PREFETCH \<noteq> 0 then val OR 8 else val);
          (reg, s) = pci_read_config32 b devfn (ucast (c AND 0xff)) s;
          val = (if reg AND 4 \<noteq> 0 then val OR 4 else val);
          s = (if reg \<noteq> val \<and> same then pci_write_config32 b devfn (ucast (c AND 0xff)) val s else s) in
      Done (setprop, s))"

function check_rows ::
  "'h bus \<Rightarrow> u32 \<Rightarrow> bool \<Rightarrow> nat \<Rightarrow> nat \<Rightarrow> bool \<Rightarrow> ('h, 'f) pegasos \<Rightarrow> (bool \<times> ('h, 'f) pegasos) outcome" where
  "check_rows b devfn same n i setprop s =
     (if i < n then
        bindO (check_row b devfn same i setprop s) (\<lambda>(setprop, s). check_rows b devfn same n (i + 5) setprop s)
      else Done (setprop, s))"
  by pat_completeness auto
termination by (relation "measure (\<lambda>(b, devfn, same, n, i, setprop, s). n - i)") auto

declare check_rows.simps [simp del]

subsection \<open>One device\<close>

text \<open>The fix-ups before the registers: interrupt controller, USB functions, LSI SCSI cards.\<close>

definition fix_device :: "'h bus \<Rightarrow> u32 \<Rightarrow> u32 \<Rightarrow> u32 \<Rightarrow> u32 \<Rightarrow> ('h, 'f) pegasos \<Rightarrow> ('h, 'f) pegasos" where
  "fix_device b devfn vendev vendor_id device_id s =
     (let s = (if vendev = 0x82311106
               then s\<lparr>hw := write8 b (iobase s + 0x4d1) 0xe (write8 b (iobase s + 0x4d0) 0xa4 (hw s))\<rparr> else s);
          s = (if PCI_BUS devfn = 0 \<and> PCI_SLOT devfn = 0xc \<and> (PCI_FUNC devfn = 2 \<or> PCI_FUNC devfn = 3)
               then pci_write_config16 b devfn REG_COMMAND 7 s else s);
          s = (if vendor_id = 0x1000 \<and> device_id < 0x14 then pci_write_config16 b devfn REG_COMMAND 7 s else s);
          (_, s) = pci_read_config16 b devfn 0x3C s;
          (_, s) = pci_read_config16 b devfn REG_COMMAND s in
      s)"

text \<open>
  From the rows of \<open>reg\<close>, \<open>n\<close> cells, to addresses: the number of bytes of \<open>assigned-addresses\<close> now in
  \<open>cells\<close>, or \<open>None\<close> when there is nothing more to do for the device.
\<close>

definition set_interrupt :: "'h bus \<Rightarrow> u32 \<Rightarrow> bool \<Rightarrow> ('h, 'f) pegasos \<Rightarrow> ('h, 'f) pegasos" where
  "set_interrupt b devfn same s =
     (let (int_line, s) = pci_read_config8 b devfn 0x3C s in
      if (int_line = 0 \<or> int_line = 0xff) \<and> same
      then snd (pci_read_config16 b devfn 0x3C (pci_write_config8 b devfn 0x3C 9 s)) else s)"

definition assigned_addresses ::
  "'f client_interface \<Rightarrow> 'h bus \<Rightarrow> u32 \<Rightarrow> u32 \<Rightarrow> bool \<Rightarrow> nat \<Rightarrow> ('h, 'f) pegasos \<Rightarrow> ((nat \<times> bool) option \<times> ('h, 'f) pegasos) outcome" where
  "assigned_addresses ci b ph devfn same n s =
     bindO (getprop_cells ci ph ''assigned-addresses'' s) (\<lambda>(ret, s).
       if ret < 0 then
         if n < 6 then
           bindO (setprop_cells ci ph ''assigned-addresses'' 0 s) (\<lambda>(_, s). Done (None, s))
         else
           bindO (assign_loop n 0 s) (\<lambda>(i, s). Done (Some (i, True), set_interrupt b devfn same s))
       else Done (Some (nat ret div 4, False), s))"

text \<open>The part of the loop body behind the \<open>reg\<close> property, of which \<open>ret\<close> bytes are in \<open>cells\<close>.\<close>

definition check_bars ::
  "'f client_interface \<Rightarrow> 'h bus \<Rightarrow> u32 \<Rightarrow> u32 \<Rightarrow> u32 \<Rightarrow> int \<Rightarrow> ('h, 'f) pegasos \<Rightarrow> ('h, 'f) pegasos outcome" where
  "check_bars ci b ph vendor_id device_id ret s =
     (let devfn = cells s ! 0; (vendev, s) = pci_read_config32 b devfn 0x00 s;
          s = fix_device b devfn vendev vendor_id device_id s;
          n = nat ret div 4;
          same = (vendev = push_bit 16 device_id OR vendor_id) in
      if \<exists>i\<in>set [5..<n]. i mod 5 = 0 \<and> i \<ge> length (cells s) then Fault else
      bindO (assigned_addresses ci b ph devfn same n s) (\<lambda>(r, s).
      case r of
        None \<Rightarrow> Done s
      | Some (n, setprop) \<Rightarrow>
          bindO (check_rows b devfn same n 0 setprop s) (\<lambda>(setprop, s).
            if setprop then bindO (setprop_cells ci ph ''assigned-addresses'' (n * 4) s) (\<lambda>(_, s). Done s)
            else Done s)))"

definition check_device ::
  "'f client_interface \<Rightarrow> 'h bus \<Rightarrow> u32 \<Rightarrow> ('h, 'f) pegasos \<Rightarrow> ('h, 'f) pegasos outcome" where
  "check_device ci b ph s =
     bindO (returns (prom_getprop ci ph ''name'' (replicate 64 0) 64 (ps s))) (\<lambda>(ret, _, p).
     let s = s\<lparr>ps := p\<rparr> in
     if ret < 0 then Done s else
     bindO (getprop_word ci ph ''vendor-id'' s) (\<lambda>(r1, vendor_id, s).
     if r1 \<noteq> 4 then Done s else
     bindO (getprop_word ci ph ''device-id'' s) (\<lambda>(r2, device_id, s).
     if r2 \<noteq> 4 then Done s else
     bindO (getprop_word ci ph ''class-code'' s) (\<lambda>(r3, class_code, s).
     if r3 \<noteq> 4 then Done s else
     bindO (getprop_cells ci ph ''reg'' s) (\<lambda>(ret, s).
     if ret < 5 then Done s else check_bars ci b ph vendor_id device_id ret s)))))"

subsection \<open>The buses\<close>

text \<open>The loop over the devices of a bus; \<open>Some None\<close> is an access outside \<open>cells\<close>.\<close>

partial_function (option) check_devices ::
  "'f client_interface \<Rightarrow> 'h bus \<Rightarrow> u32 \<Rightarrow> ('h, 'f) pegasos \<Rightarrow> ('h, 'f) pegasos option option" where [code]:
  "check_devices ci b ph s =
     (if ph = 0 then Some (Some s)
      else case check_device ci b ph s of
        Hang \<Rightarrow> None
      | Fault \<Rightarrow> Some None
      | Done s \<Rightarrow> Option.bind (prom_peer ci ph (ps s)) (\<lambda>r. case r of (ph, p) \<Rightarrow> check_devices ci b ph (s\<lparr>ps := p\<rparr>)))"

definition check_one_bus :: "'f client_interface \<Rightarrow> 'h bus \<Rightarrow> u32 \<Rightarrow> ('h, 'f) pegasos \<Rightarrow> ('h, 'f) pegasos outcome" where
  "check_one_bus ci b ph s =
     bindO (returns (prom_child ci ph (ps s))) (\<lambda>(ph, p).
     bindO (returns (check_devices ci b ph (s\<lparr>ps := p\<rparr>))) inside)"

text \<open>The windows of a bus from its \<open>ranges\<close>, six cells each.\<close>

function ranges_loop :: "nat \<Rightarrow> nat \<Rightarrow> ('h, 'f) pegasos \<Rightarrow> ('h, 'f) pegasos outcome" where
  "ranges_loop n i s =
     (if i < n then
        if i \<ge> length (cells s) then Fault
        else
          let t = PHYS_HI_TYPE (cells s ! i) in
          if (t = 1 \<or> t = 2) \<and> i + 5 \<ge> length (cells s) then Fault
          else
            let s = (if t = 1 then s\<lparr>iobase := cells s ! (i + 3), iolen := cells s ! (i + 5)\<rparr>
                     else if t = 2 then s\<lparr>membase := cells s ! (i + 3), memlen := cells s ! (i + 5)\<rparr> else s) in
            ranges_loop n (i + 6) s
      else Done s)"
  by pat_completeness auto
termination by (relation "measure (\<lambda>(n, i, s). n - i)") auto

declare ranges_loop.simps [simp del]

definition bus_params :: "('h, 'f) pegasos \<Rightarrow> bool \<times> ('h, 'f) pegasos" where
  "bus_params s =
     (if iobase s = 0 \<or> iolen s = 0 \<or> membase s = 0 \<or> memlen s = 0 then (False, s)
      else
        let s = s\<lparr>memavail := membase s\<rparr> in
        if membase s = 0x80000000 then
          (True, pci_set_addr (MV64361_BASE + 0xc78) (MV64361_BASE + 0xc78 + 4) (s\<lparr>ioresavail := IORES_START, ioavail := IORES_TOP\<rparr>))
        else if membase s = 0xc0000000 then
          (True, pci_set_addr (MV64361_BASE + 0xcf8) (MV64361_BASE + 0xcf8 + 4) (s\<lparr>ioresavail := iolen s, ioavail := IORES_START\<rparr>))
        else (False, s))"

definition bases_for_bus :: "'f client_interface \<Rightarrow> u32 \<Rightarrow> ('h, 'f) pegasos \<Rightarrow> (bool \<times> ('h, 'f) pegasos) outcome" where
  "bases_for_bus ci ph s =
     bindO (getprop_cells ci ph ''ranges'' s) (\<lambda>(n, s).
       if n \<le> 0 then Done (False, s)
       else bindO (ranges_loop (nat n div 4) 0 s) (\<lambda>s. Done (bus_params s)))"

definition setup_bus :: "'f client_interface \<Rightarrow> 'h bus \<Rightarrow> u32 \<Rightarrow> ('h, 'f) pegasos \<Rightarrow> ('h, 'f) pegasos outcome" where
  "setup_bus ci b ph s =
     (if ph = 0 then Done s
      else bindO (bases_for_bus ci ph s) (\<lambda>(ok, s). if ok then check_one_bus ci b ph s else Done s))"

definition pegasos2_setup :: "'f client_interface \<Rightarrow> 'h bus \<Rightarrow> mem \<Rightarrow> ('h, 'f) pegasos \<Rightarrow> (mem \<times> ('h, 'f) pegasos) outcome" where
  "pegasos2_setup ci b m s =
     bindO (returns (prom_finddevice ci ''/pci'' ((ps s)\<lparr>pmem := m\<rparr>))) (\<lambda>(ph, p).
     bindO (setup_bus ci b ph (s\<lparr>ps := p\<rparr>)) (\<lambda>s.
     bindO (returns (prom_peer ci ph (ps s))) (\<lambda>(ph, p).
     bindO (setup_bus ci b ph (s\<lparr>ps := p\<rparr>)) (\<lambda>s.
     bindO (returns (prom_finddevice ci ''/rtas'' (ps s))) (\<lambda>(ph, p).
     bindO (returns (prom_setprop ci ph ''name'' (chars ''rtas'' @ [0]) 5 p)) (\<lambda>(_, p).
     Done (pmem p, s\<lparr>ps := p\<rparr>)))))))"

definition of_claim :: "'f client_interface \<Rightarrow> u32 \<Rightarrow> u32 \<Rightarrow> mem \<Rightarrow> ('h, 'f) pegasos \<Rightarrow> (u32 \<times> mem \<times> ('h, 'f) pegasos) option" where
  "of_claim ci addr sz m s =
     Option.bind (prom_claim ci addr sz 0 ((ps s)\<lparr>pmem := m\<rparr>)) (\<lambda>(a, p). Some (a, pmem p, s\<lparr>ps := p\<rparr>))"

definition pegasos2_init :: "'f client_interface \<Rightarrow> 'h bus \<Rightarrow> ('h, 'f) pegasos brd_t \<Rightarrow> ('h, 'f) pegasos \<Rightarrow> ('h, 'f) pegasos brd_t" where
  "pegasos2_init ci b brd s =
     brd\<lparr>claim := of_claim ci, brd_setup := Some (pegasos2_setup ci b), info := prom_cientry (ps s), exec_addr := 0x400000,
       serial_base := 0xfe0002f8\<rparr>"

subsection \<open>Addresses\<close>

definition mem_bar :: "u32 \<Rightarrow> bool" where
  "mem_bar physhi \<longleftrightarrow> PHYS_HI_TYPE physhi = 2 \<or> PHYS_HI_TYPE physhi = 3"

definition peg_window :: "('h, 'f) pegasos \<Rightarrow> bool" where
  "peg_window s \<longleftrightarrow> membase s \<le> memavail s \<and> unat (membase s) + unat (memlen s) \<le> 2 ^ 32"

lemma addr_for_bar_mem:
  assumes ok: "peg_window s" and "mem_bar q" and k: "k < 32" and fits: "unat (memavail s) + 2 * 2 ^ k \<le> 2 ^ 32"
    and call: "addr_for_bar q (2 ^ k) s = (r, s')"
  shows "peg_window s' \<and> unat (membase s') + unat (memlen s') = unat (membase s) + unat (memlen s) \<and>
    unat (memavail s) \<le> unat (memavail s') \<and> unat (memavail s') \<le> unat (memavail s) + 2 * 2 ^ k \<and>
    (r \<noteq> 0 \<longrightarrow> 2 ^ k dvd unat r \<and> unat (memavail s) \<le> unat r \<and> unat r + 2 ^ k \<le> unat (memavail s') \<and>
      unat (memavail s') \<le> unat (membase s) + unat (memlen s))"
proof -
  let ?a = "ROUND_UP (memavail s) (2 ^ k)" and ?n = "(unat (memavail s) + (2 ^ k - 1)) div 2 ^ k * 2 ^ k"
  have p: "(0 :: nat) < 2 ^ k" by simp
  have a: "unat ?a = ?n" using fits by (intro ROUND_UP_unat k) simp
  note bd = ceil_bounds [OF p, of "unat (memavail s)"]
  have top: "?n + 2 ^ k < 2 ^ 32" using bd fits by linarith
  then have s: "unat (?a + 2 ^ k) = ?n + 2 ^ k" by (subst unat_add_small) (simp_all add: a pow2_unat [OF k])
  have base: "unat (membase s) \<le> ?n" using ok bd by (simp add: peg_window_def word_le_nat_alt)
  then have d: "unat (?a - membase s) = ?n - unat (membase s)" by (subst unat_sub) (simp_all add: word_le_nat_alt a)
  then have e: "unat (?a - membase s + 2 ^ k) = ?n - unat (membase s) + 2 ^ k"
    using top by (subst unat_add_small) (simp_all add: pow2_unat [OF k])
  have t: "PHYS_HI_TYPE q \<noteq> 1" "PHYS_HI_TYPE q = 2 \<or> PHYS_HI_TYPE q = 3" using assms(2) by (auto simp: mem_bar_def)
  show ?thesis
  proof (cases "?a - membase s + 2 ^ k > memlen s")
    case True
    then have "r = 0" "s' = s\<lparr>memavail := ?a\<rparr>"
      using call t pow2_nonzero [OF k] by (auto simp: addr_for_bar_def Let_def)
    then show ?thesis using ok base bd a by (simp add: peg_window_def word_le_nat_alt)
  next
    case False
    then have r: "r = ?a" "s' = s\<lparr>memavail := ?a + 2 ^ k\<rparr>"
      using call t pow2_nonzero [OF k] by (auto simp: addr_for_bar_def Let_def)
    have "?n + 2 ^ k \<le> unat (membase s) + unat (memlen s)"
      using False e base by (simp add: word_less_nat_alt)
    moreover have "2 ^ k dvd ?n" by simp
    ultimately show ?thesis using ok base bd a s r by (simp add: peg_window_def word_le_nat_alt)
  qed
qed

interpretation peg_mem: bump_allocator addr_for_bar mem_bar peg_window
  "\<lambda>s. unat (memavail s)" "\<lambda>s. unat (membase s) + unat (memlen s)"
proof unfold_locales
  fix s s' :: "('h, 'f) pegasos" and q r sz
  assume "peg_window s" "\<not> mem_bar q" "addr_for_bar q sz s = (r, s')"
  then show "peg_window s' \<and> unat (membase s') + unat (memlen s') = unat (membase s) + unat (memlen s) \<and>
      unat (memavail s') = unat (memavail s)"
    by (auto simp: addr_for_bar_def mem_bar_def peg_window_def Let_def split: if_splits)
qed (rule addr_for_bar_mem)

text \<open>
  C34. On a bus of the Pegasos2 whose memory window does not pass the end of the address space, the
  memory blocks handed out are aligned, inside the window and do not overlap, for any sequence of
  requests for powers of two that asks in total for at most half of what lies between the window's start and 4 GB.
  Without this bound rounding up can wrap around to address 0 and start the window again.
\<close>

theorem pegasos2_memory_bars:
  assumes run: "alloc_all addr_for_bar reqs s = (rs, s')" and start: "memavail s = membase s"
    and window: "unat (membase s) + unat (memlen s) \<le> 2 ^ 32"
    and sizes: "pow2_sizes mem_bar reqs" "unat (membase s) + demand mem_bar reqs \<le> 2 ^ 32"
    and i: "i < length reqs" "mem_bar (fst (reqs ! i))" "rs ! i \<noteq> 0"
  shows "block_ok (unat (membase s)) (unat (membase s) + unat (memlen s)) (rs ! i) (snd (reqs ! i)) \<and>
    (\<forall>j. j < i \<longrightarrow> mem_bar (fst (reqs ! j)) \<longrightarrow> rs ! j \<noteq> 0 \<longrightarrow> unat (rs ! j) + unat (snd (reqs ! j)) \<le> unat (rs ! i))"
proof -
  have ok: "peg_window s" using start window by (simp add: peg_window_def)
  have fits: "unat (memavail s) + demand mem_bar reqs \<le> 2 ^ 32" using sizes(2) start by simp
  have "block_ok (unat (membase s)) (unat (membase s) + unat (memlen s)) (rs ! i) (snd (reqs ! i))"
    using peg_mem.alloc_all_blocks [OF ok sizes(1) fits run] i start by simp
  moreover have "unat (rs ! j) + unat (snd (reqs ! j)) \<le> unat (rs ! i)"
    if "j < i" "mem_bar (fst (reqs ! j))" "rs ! j \<noteq> 0" for j
    by (rule peg_mem.alloc_all_ordered [OF ok sizes(1) fits run that(1) i(1) that(2) i(2) that(3) i(3)])
  ultimately show ?thesis by blast
qed

text \<open>The first bus of the machine, as \<open>bases_for_bus\<close> leaves it.\<close>

definition example_bus :: "(unit, unit) pegasos" where
  "example_bus = \<lparr>hw = (), pci_conf_addr = 0, pci_data_addr = 0, iobase = 0xfe000000, iolen = 0x10000, membase = 0x80000000,
     memlen = 0x40000000, ioavail = 0x1200, memavail = 0x80000000, ioresavail = 0x1000, cells = replicate 35 0,
     ps = \<lparr>prom = 1, prom_stdin = 0, prom_stdout = 0, prom_chosen = 0, prom_options = 0, pmem = \<lambda>_. 0, fw = ()\<rparr>\<rparr>"

theorem pegasos2_memory_bars_witness:
  "\<exists>rs s'. alloc_all addr_for_bar [(0x02000810, 0x1000), (0x03001010, 0x10000)] example_bus = (rs, s') \<and>
     rs = [0x80000000, 0x80010000] \<and> unat (rs ! 0) + 0x1000 \<le> unat (rs ! 1)"
proof -
  let ?reqs = "[(0x02000810, 0x1000), (0x03001010, 0x10000)] :: (u32 \<times> u32) list"
  obtain rs s' where run: "alloc_all addr_for_bar ?reqs example_bus = (rs, s')" by (cases "alloc_all addr_for_bar ?reqs example_bus")
  then have rs: "rs = [0x80000000, 0x80010000]"
    by (simp add: addr_for_bar_def PHYS_HI_TYPE_def ROUND_UP_def ROUND_DOWN_def example_bus_def Let_def)
  have k: "\<exists>k < 32. (0x1000 :: u32) = 2 ^ k" "\<exists>k < 32. (0x10000 :: u32) = 2 ^ k"
    by (rule exI [of _ 12], simp) (rule exI [of _ 16], simp)
  then have sizes: "pow2_sizes mem_bar ?reqs" by (simp add: pow2_sizes_def)
  have "unat (rs ! 0) + unat (snd (?reqs ! 0)) \<le> unat (rs ! 1)"
    using pegasos2_memory_bars [OF run _ _ sizes, of 1]
    by (simp add: demand_def mem_bar_def PHYS_HI_TYPE_def rs example_bus_def)
  with run rs show ?thesis by auto
qed

subsection \<open>The array of cells\<close>

text \<open>
  \<open>getprop\<close> returns the size of the property, which may be more than the buffer holds; \<open>check_one_bus\<close> takes the result
  as the number of bytes in \<open>cells\<close>. \<open>small\<close> is a property of the state of the firmware under which \<open>reg\<close> and
  \<open>assigned-addresses\<close>, the two it reads there, have at most the 140 bytes of \<open>cells\<close> in every node. No service but
  \<open>setprop\<close> makes a property longer, and \<open>setprop\<close> not beyond the length it is given.
\<close>

definition small_props :: "'f client_interface \<Rightarrow> ('f \<Rightarrow> bool) \<Rightarrow> bool" where
  "small_props ci small \<longleftrightarrow>
     (\<forall>p m f as rets m' f'. small f \<longrightarrow> ci p m f = Some (as, rets, m', f') \<longrightarrow>
        service p \<noteq> ''setprop'' \<or> (\<exists>ph name xs len. args p = [Val ph, Lit name, Buf xs, Val len] \<and> len \<le> 140) \<longrightarrow> small f') \<and>
     (\<forall>ph name xs m f as r rets m' f'. small f \<longrightarrow> name \<in> {''reg'', ''assigned-addresses''} \<longrightarrow>
        ci \<lparr>service = ''getprop'', nargs = 4, nret = 1, args = [Val ph, Lit name, Buf xs, Val 140]\<rparr> m f = Some (as, r # rets, m', f') \<longrightarrow>
        sint r \<le> 140)"

definition no_fault :: "'a outcome \<Rightarrow> ('a \<Rightarrow> bool) \<Rightarrow> bool" where
  "no_fault r P \<longleftrightarrow> (case r of Hang \<Rightarrow> True | Fault \<Rightarrow> False | Done x \<Rightarrow> P x)"

lemma no_fault_simps [simp]: "no_fault Hang P" "\<not> no_fault Fault P" "no_fault (Done x) P = P x"
  by (simp_all add: no_fault_def)

lemma no_fault_bind: "no_fault r Q \<Longrightarrow> (\<And>x. Q x \<Longrightarrow> no_fault (f x) P) \<Longrightarrow> no_fault (bindO r f) P"
  by (cases r) simp_all

lemma no_fault_returns: "(\<And>x. r = Some x \<Longrightarrow> P x) \<Longrightarrow> no_fault (returns r) P"
  by (cases r) simp_all

text \<open>The state in which there is room: all the cells, and small properties.\<close>

definition room :: "('f \<Rightarrow> bool) \<Rightarrow> ('h, 'f) pegasos \<Rightarrow> bool" where
  "room small s \<longleftrightarrow> length (cells s) = 35 \<and> small (fw (ps s))"

lemma length_bytes_cells [simp]: "length (bytes_cells xs) = 35"
  by (simp add: bytes_cells_def)

lemma room_blind: "hw_blind (room small)"
  by (simp add: hw_blind_def room_def)

lemmas room_keeps = config_write_keeps [OF room_blind] config_read_keeps [OF room_blind] hw_blindD [OF room_blind]

lemma room_cells: "room small s \<Longrightarrow> length cs = 35 \<Longrightarrow> room small (s\<lparr>cells := cs\<rparr>)"
  by (simp add: room_def)

lemma call_small:
  assumes "small_props ci small" "small (fw p)" "call_prom ci sv as nr p = Some (r, as', p')"
    and "sv \<noteq> ''setprop'' \<or> (\<exists>ph name xs len. as = [Val ph, Lit name, Buf xs, Val len] \<and> len \<le> 140)"
  shows "small (fw p')"
proof (cases "prom p = 0")
  case False
  then obtain rets m f where "ci \<lparr>service = sv, nargs = length as, nret = nr, args = as\<rparr> (pmem p) (fw p) = Some (as', rets, m, f)"
    "p' = p\<lparr>pmem := m, fw := f\<rparr>"
    using assms(3) by (auto simp: call_prom_def bind_eq_Some_conv)
  moreover from this(1) have "small f"
    using assms(1,2,4) unfolding small_props_def by (metis prom_args.select_convs(1,4))
  ultimately show ?thesis by simp
qed (use assms(2,3) in \<open>simp add: call_prom_def\<close>)

lemma getprop_small:
  assumes "small_props ci small" "small (fw p)" "prom_getprop ci ph name buf len p = Some (r, buf', p')"
  shows "small (fw p')" "name \<in> {''reg'', ''assigned-addresses''} \<Longrightarrow> len = 140 \<Longrightarrow> r \<le> 140"
proof -
  obtain v as' where c: "call_prom ci ''getprop'' [Val ph, Lit name, Buf buf, Val len] 1 p = Some (v, as', p')" "r = sint v"
    using assms(3) by (auto simp: prom_getprop_def bind_eq_Some_conv)
  show "small (fw p')" by (rule call_small [OF assms(1,2) c(1)]) simp
  assume nm: "name \<in> {''reg'', ''assigned-addresses''}" "len = 140"
  show "r \<le> 140"
  proof (cases "prom p = 0")
    case False
    then obtain rets m f where
      "ci \<lparr>service = ''getprop'', nargs = 4, nret = 1, args = [Val ph, Lit name, Buf buf, Val 140]\<rparr> (pmem p) (fw p) = Some (as', rets, m, f)"
      "v = (case rets of [] \<Rightarrow> 0 | x # _ \<Rightarrow> x)"
      using c(1) nm(2) by (auto simp: call_prom_def bind_eq_Some_conv eval_nat_numeral)
    then show ?thesis using assms(1,2) nm(1) c(2) unfolding small_props_def by (cases rets) fastforce+
  qed (use c in \<open>auto simp: call_prom_def\<close>)
qed

lemma setprop_small:
  assumes "small_props ci small" "small (fw p)" "prom_setprop ci ph name buf len p = Some (r, p')" "len \<le> 140"
  shows "small (fw p')"
proof -
  obtain v as' where "call_prom ci ''setprop'' [Val ph, Lit name, Buf buf, Val len] 1 p = Some (v, as', p')"
    using assms(3) by (auto simp: prom_setprop_def call_val_def bind_eq_Some_conv)
  from call_small [OF assms(1,2) this] assms(4) show ?thesis by blast
qed

lemma walk_small:
  assumes "small_props ci small" "small (fw p)"
  shows "prom_child ci ph p = Some (q, p') \<Longrightarrow> small (fw p')" "prom_peer ci ph p = Some (q, p') \<Longrightarrow> small (fw p')"
  using call_small [OF assms, of "''child''"] call_small [OF assms, of "''peer''"]
  by (auto simp: prom_child_def prom_peer_def call_val_def bind_eq_Some_conv)

lemma getprop_cells_fits:
  assumes "small_props ci small" "room small s" "name \<in> {''reg'', ''assigned-addresses''}"
  shows "no_fault (getprop_cells ci ph name s) (\<lambda>(r, s). r \<le> 140 \<and> room small s)"
  unfolding getprop_cells_def
  by (rule no_fault_bind [OF no_fault_returns [where P = "\<lambda>(r, buf, p). r \<le> 140 \<and> small (fw p)"]])
    (use getprop_small [OF assms(1)] assms(2,3) in \<open>auto simp: room_def\<close>)

lemma getprop_word_fits:
  assumes "small_props ci small" "room small s"
  shows "no_fault (getprop_word ci ph name s) (\<lambda>(r, v, s). room small s)"
  unfolding getprop_word_def
  by (rule no_fault_bind [OF no_fault_returns [where P = "\<lambda>(r, buf, p). small (fw p)"]])
    (use getprop_small(1) [OF assms(1)] assms(2) in \<open>auto simp: room_def\<close>)

lemma setprop_cells_fits:
  assumes "small_props ci small" "room small s" "k \<le> 140"
  shows "no_fault (setprop_cells ci ph name k s) (\<lambda>(r, s). room small s)"
proof -
  have "(of_nat k :: u32) \<le> 140" using assms(3) by (simp add: word_le_nat_alt unat_of_nat32)
  then show ?thesis
    unfolding setprop_cells_def
    by (intro no_fault_bind [OF no_fault_returns [where P = "\<lambda>(r, p). small (fw p)"]])
      (use setprop_small [OF assms(1)] assms(2) in \<open>auto simp: room_def\<close>)
qed

lemma addr_for_bar_room: "room small s \<Longrightarrow> room small (snd (addr_for_bar q sz s))"
  by (simp add: addr_for_bar_def Let_def room_def)

lemma assign_loop_fits:
  "n \<le> 35 \<Longrightarrow> 5 dvd i \<Longrightarrow> room small s \<Longrightarrow> i \<le> 35 \<Longrightarrow>
   no_fault (assign_loop n i s) (\<lambda>(j, s). j \<le> 35 \<and> room small s)"
proof (induction n i s rule: assign_loop.induct)
  case (1 n i s)
  show ?case
  proof (cases "i + 5 < n")
    case True
    obtain q where "i = 5 * q" using 1(3) by (elim dvdE)
    then have i: "i + 10 \<le> 35" using True 1(2) by presburger
    let ?cs = "take i (cells s) @ take 5 (drop (i + 5) (cells s)) @ drop (i + 5) (cells s)"
    have cs: "copy_row i (cells s) = Done ?cs" "length ?cs = 35" using i 1(4) by (simp_all add: copy_row_def room_def)
    obtain a s1 where call: "addr_for_bar (?cs ! i) (?cs ! (i + 4)) (s\<lparr>cells := ?cs\<rparr>) = (a, s1)"
      by (cases "addr_for_bar (?cs ! i) (?cs ! (i + 4)) (s\<lparr>cells := ?cs\<rparr>)")
    have "room small s1" using addr_for_bar_room [OF room_cells [OF 1(4) cs(2)]] call by (metis snd_conv)
    then have "no_fault (assign_loop n (i + 5) (s1\<lparr>cells := ?cs[i + 2 := a]\<rparr>)) (\<lambda>(j, s). j \<le> 35 \<and> room small s)"
      by (intro 1(1) [OF True call [symmetric]]) (use 1 i cs in \<open>simp_all add: room_cells\<close>)
    then show ?thesis using True cs(1) call by (subst assign_loop.simps) simp
  next
    case False
    then show ?thesis using 1 by (subst assign_loop.simps) simp
  qed
qed

lemma check_row_fits:
  "i + 5 \<le> 35 \<Longrightarrow> room small s \<Longrightarrow> no_fault (check_row b devfn same i sp s) (\<lambda>(sp, s). room small s)"
proof -
  assume a: "i + 5 \<le> 35" "room small s"
  then have "length (cells s) = 35" by (simp add: room_def)
  with a show ?thesis by (simp add: check_row_def Let_def split_beta room_keeps room_cells)
qed

lemma check_rows_fits:
  "n \<le> 35 \<Longrightarrow> 5 dvd i \<Longrightarrow> room small s \<Longrightarrow>
   no_fault (check_rows b devfn same n i sp s) (\<lambda>(sp, s). room small s)"
proof (induction b devfn same n i sp s rule: check_rows.induct)
  case (1 b devfn same n i sp s)
  show ?case
  proof (cases "i < n")
    case True
    obtain q where "i = 5 * q" using 1(3) by (elim dvdE)
    then have i: "i + 5 \<le> 35" using True 1(2) by presburger
    have "no_fault (bindO (check_row b devfn same i sp s) (\<lambda>(sp, s). check_rows b devfn same n (i + 5) sp s))
        (\<lambda>(sp, s). room small s)"
    proof (rule no_fault_bind [OF check_row_fits [OF i 1(4)]], goal_cases)
      case (1 x)
      then show ?case using "1.IH" [OF True] "1.prems"(1,2) by (cases x) simp
    qed
    then show ?thesis using True by (subst check_rows.simps) simp
  next
    case False
    then show ?thesis using 1 by (subst check_rows.simps) simp
  qed
qed

lemma fix_device_room: "room small s \<Longrightarrow> room small (fix_device b devfn v vi di s)"
  by (simp add: fix_device_def Let_def split_beta room_keeps)

lemma set_interrupt_room: "room small s \<Longrightarrow> room small (set_interrupt b devfn same s)"
  by (simp add: set_interrupt_def Let_def split_beta room_keeps)

lemma assigned_addresses_fits:
  assumes "small_props ci small" "n \<le> 35" "room small s"
  shows "no_fault (assigned_addresses ci b ph devfn same n s)
    (\<lambda>(r, s). (\<forall>(k :: nat) sp :: bool. r = Some (k, sp) \<longrightarrow> k \<le> 35) \<and> room small s)"
  unfolding assigned_addresses_def
proof (rule no_fault_bind [OF getprop_cells_fits [OF assms(1,3)]], goal_cases)
  case (2 x)
  obtain ret s1 where x: "x = (ret, s1)" by (cases x)
  have s1: "ret \<le> 140" "room small s1" using 2 x by simp_all
  have a: "no_fault (bindO (setprop_cells ci ph ''assigned-addresses'' 0 s1) (\<lambda>(_, s). Done (None, s)))
      (\<lambda>(r, s). (\<forall>(k :: nat) sp :: bool. r = Some (k, sp) \<longrightarrow> k \<le> 35) \<and> room small s)"
    by (rule no_fault_bind [OF setprop_cells_fits [OF assms(1) s1(2)]]) auto
  have b: "no_fault (bindO (assign_loop n 0 s1) (\<lambda>(i, s). Done (Some (i, True), set_interrupt b devfn same s)))
      (\<lambda>(r, s). (\<forall>(k :: nat) sp :: bool. r = Some (k, sp) \<longrightarrow> k \<le> 35) \<and> room small s)"
    by (rule no_fault_bind [OF assign_loop_fits [where small = small]]) (use assms(2) s1 in \<open>auto simp: set_interrupt_room\<close>)
  have "nat ret div 4 \<le> 35" using s1(1) by linarith
  then show ?case using a b s1 x by simp
qed simp

lemma check_bars_fits:
  assumes fw: "small_props ci small" and ret: "ret \<le> 140" and s: "room small s"
  shows "no_fault (check_bars ci b ph vi di ret s) (room small)"
proof -
  let ?devfn = "cells s ! 0"
  obtain vendev s1 where r: "pci_read_config32 b ?devfn 0 s = (vendev, s1)" by (cases "pci_read_config32 b ?devfn 0 s")
  have "room small s1" using config_read_keeps(3) [OF room_blind s, of b ?devfn 0] r by simp
  then have s2: "room small (fix_device b ?devfn vendev vi di s1)" by (rule fix_device_room)
  have n: "nat ret div 4 \<le> 35" using ret by linarith
  have last: "no_fault (bindO (check_rows b ?devfn same k 0 sp s) (\<lambda>(sp, s).
      if sp then bindO (setprop_cells ci ph ''assigned-addresses'' (k * 4) s) (\<lambda>(_, s). Done s) else Done s)) (room small)"
    if "k \<le> 35" "room small s" for k sp s same
    by (rule no_fault_bind [OF check_rows_fits [where small = small]])
      (use that in \<open>auto intro!: no_fault_bind [OF setprop_cells_fits [OF fw]]\<close>)
  have "no_fault (bindO (assigned_addresses ci b ph ?devfn same (nat ret div 4) (fix_device b ?devfn vendev vi di s1)) (\<lambda>(r, s).
      case r of None \<Rightarrow> Done s | Some (n, sp) \<Rightarrow> bindO (check_rows b ?devfn same n 0 sp s) (\<lambda>(sp, s).
      if sp then bindO (setprop_cells ci ph ''assigned-addresses'' (n * 4) s) (\<lambda>(_, s). Done s) else Done s))) (room small)" for same
    by (rule no_fault_bind [OF assigned_addresses_fits [OF fw n s2]]) (auto split: option.split intro!: last)
  then show ?thesis using r s2 n by (auto simp: check_bars_def Let_def room_def)
qed

lemma check_device_fits:
  assumes fw: "small_props ci small" and s: "room small s"
  shows "no_fault (check_device ci b ph s) (room small)"
  unfolding check_device_def Let_def
proof (rule no_fault_bind [OF no_fault_returns [where P = "\<lambda>(r, buf, p). small (fw p)"]], goal_cases)
  case (1 x)
  then show ?case using getprop_small(1) [OF fw] s by (cases x) (auto simp: room_def)
next
  case (2 x)
  obtain ret buf p where x: "x = (ret, buf, p)" by (cases x)
  have s1: "room small (s\<lparr>ps := p\<rparr>)" using s 2 x by (simp add: room_def)
  show ?case
    unfolding x prod.case using s1
    by (auto intro!: no_fault_bind [OF getprop_word_fits [OF fw]] no_fault_bind [OF getprop_cells_fits [OF fw]] check_bars_fits [OF fw])
qed

lemma check_devices_fits: "check_devices ci b ph s = Some r \<Longrightarrow> small_props ci small \<Longrightarrow> room small s \<Longrightarrow> r \<noteq> None"
proof (induction rule: check_devices.raw_induct [rotated 1, consumes 1])
  case (1 f ci b ph s r)
  show ?case
  proof (cases "ph = 0")
    case True
    then show ?thesis using 1(2) by auto
  next
    case False
    note dev = check_device_fits [OF 1(3,4), of b ph]
    obtain s1 where s1: "check_device ci b ph s = Done s1" "room small s1" "r \<noteq> None \<or>
        Option.bind (prom_peer ci ph (ps s1)) (\<lambda>(ph, p). f ci b ph (s1\<lparr>ps := p\<rparr>)) = Some r"
      using dev 1(2) False by (auto split: outcome.splits)
    then show ?thesis
      using 1(1) [OF _ 1(3)] walk_small(2) [OF 1(3), of "ps s1" ph] by (auto simp: bind_eq_Some_conv room_def)
  qed
qed

text \<open>
  C35. As long as the properties \<open>reg\<close> and \<open>assigned-addresses\<close> in the device tree have at most 140 bytes, checking the
  devices of a bus never leaves the array \<open>cells\<close> (of 140 bytes), however many devices there are and whatever else the firmware
  answers; what \<open>check_one_bus\<close> sets in the tree is not longer either.
\<close>

theorem check_one_bus_fits:
  assumes "small_props ci small" "small (fw (ps s))" "length (cells s) = 35"
  shows "check_one_bus ci b ph s \<noteq> Fault"
proof -
  have "no_fault (check_one_bus ci b ph s) (\<lambda>_. True)"
    unfolding check_one_bus_def
  proof (rule no_fault_bind [OF no_fault_returns [where P = "\<lambda>(q, p). small (fw p)"]], goal_cases)
    case (1 x)
    then show ?case using walk_small(1) [OF assms(1,2)] by (cases x) auto
  next
    case (2 x)
    obtain ph' p where x: "x = (ph', p)" by (cases x)
    have "room small (s\<lparr>ps := p\<rparr>)" using 2 x assms(3) by (simp add: room_def)
    then have "no_fault (returns (check_devices ci b ph' (s\<lparr>ps := p\<rparr>))) (\<lambda>r. r \<noteq> None)"
      by (intro no_fault_returns) (rule check_devices_fits [OF _ assms(1)])
    then show ?case unfolding x prod.case by (rule no_fault_bind) auto
  qed
  then show ?thesis by auto
qed

text \<open>
  A firmware with a device tree: node 1 is a bus with one device, node 2. The state is the properties of the nodes, of any
  length; \<open>getprop\<close> copies what fits and returns the size of the property.
\<close>

definition tree_ci :: "(u32 \<Rightarrow> string \<Rightarrow> u8 list option) client_interface" where
  "tree_ci p m f =
     (if service p = ''child'' then Some (args p, [if args p = [Val 1] then 2 else 0], m, f)
      else case args p of
        [Val ph, Lit name, Buf xs, Val len] \<Rightarrow>
          if service p = ''getprop'' then
            (case f ph name of
               Some v \<Rightarrow> Some ([Val ph, Lit name, Buf (take (unat len) v @ drop (min (length v) (unat len)) xs), Val len], [of_nat (length v)], m, f)
             | None \<Rightarrow> Some (args p, [- 1], m, f))
          else if service p = ''setprop'' then Some (args p, [len], m, f(ph := (f ph)(name := Some (take (unat len) xs))))
          else Some (args p, [0], m, f)
      | _ \<Rightarrow> Some (args p, [0], m, f))"

definition tree_small :: "(u32 \<Rightarrow> string \<Rightarrow> u8 list option) \<Rightarrow> bool" where
  "tree_small f \<longleftrightarrow> (\<forall>ph. \<forall>name\<in>{''reg'', ''assigned-addresses''}. \<forall>v. f ph name = Some v \<longrightarrow> length v \<le> 140)"

lemma tree_ci_small: "small_props tree_ci tree_small"
proof (unfold small_props_def, intro conjI allI impI)
  fix p m f as rets m' f'
  assume "tree_small f" "tree_ci p m f = Some (as, rets, m', f')"
    "service p \<noteq> ''setprop'' \<or> (\<exists>ph name xs len. args p = [Val ph, Lit name, Buf xs, Val len] \<and> len \<le> 140)"
  then show "tree_small f'"
    by (auto simp: tree_ci_def tree_small_def word_le_nat_alt split: if_splits option.splits list.splits carg.splits)
next
  fix ph name xs m f as r rets m' f'
  assume f: "tree_small f" "name \<in> {''reg'', ''assigned-addresses''}"
    and get: "tree_ci \<lparr>service = ''getprop'', nargs = 4, nret = 1, args = [Val ph, Lit name, Buf xs, Val 140]\<rparr> m f = Some (as, r # rets, m', f')"
  show "sint r \<le> 140"
  proof (cases "f ph name")
    case (Some v)
    then have v: "length v \<le> 140" "r = of_nat (length v)" using f get by (auto simp: tree_small_def tree_ci_def)
    then have "unat r = length v" by (simp add: unat_of_nat32)
    moreover have "- 2147483648 \<le> uint r" using uint_nonnegative [of r] by linarith
    then have "sint r \<le> uint r" by (simp add: sint_uint signed_take_bit_int_less_eq_self_iff)
    ultimately show ?thesis using v(1) by (simp add: uint_nat)
  qed (use get in \<open>auto simp: tree_ci_def\<close>)
qed

text \<open>A network card with a memory register of 4 KB.\<close>

definition card_tree :: "u32 \<Rightarrow> string \<Rightarrow> u8 list option" where
  "card_tree = (\<lambda>_ _. None)(2 := [''name'' \<mapsto> chars ''ethernet'' @ [0], ''vendor-id'' \<mapsto> [0, 0, 0x10, 0xec],
     ''device-id'' \<mapsto> [0, 0, 0x81, 0x39], ''class-code'' \<mapsto> [0, 2, 0, 0],
     ''reg'' \<mapsto> concat (map word_bytes [0x00006000, 0, 0, 0, 0, 0x02006010, 0, 0, 0, 0x1000])])"

definition card_bus :: "(unit, u32 \<Rightarrow> string \<Rightarrow> u8 list option) pegasos" where
  "card_bus = \<lparr>hw = (), pci_conf_addr = 0, pci_data_addr = 0, iobase = 0xfe000000, iolen = 0x10000, membase = 0x80000000,
     memlen = 0x40000000, ioavail = 0x1200, memavail = 0x80000000, ioresavail = 0x1000, cells = replicate 35 0,
     ps = \<lparr>prom = 1, prom_stdin = 0, prom_stdout = 0, prom_chosen = 0, prom_options = 0, pmem = \<lambda>_. 0, fw = card_tree\<rparr>\<rparr>"

theorem check_one_bus_fits_witness:
  "check_one_bus tree_ci \<lparr>bus_load = \<lambda>_ _ h. (0, h), bus_store = \<lambda>_ _ _ h. h\<rparr> 1 card_bus \<noteq> Fault \<and>
   prom_child tree_ci 1 (ps card_bus) = Some (2, ps card_bus) \<and>
   (\<exists>s. getprop_cells tree_ci 2 ''reg'' card_bus = Done (40, s))"
proof (intro conjI)
  have "tree_small (fw (ps card_bus))"
    by (auto simp: tree_small_def card_bus_def card_tree_def word_bytes_def split: if_splits)
  then show "check_one_bus tree_ci \<lparr>bus_load = \<lambda>_ _ h. (0, h), bus_store = \<lambda>_ _ _ h. h\<rparr> 1 card_bus \<noteq> Fault"
    by (intro check_one_bus_fits [OF tree_ci_small]) (simp_all add: card_bus_def)
  show "prom_child tree_ci 1 (ps card_bus) = Some (2, ps card_bus)"
    by (simp add: prom_child_def call_val_def call_prom_def tree_ci_def card_bus_def)
  have "length (concat (map word_bytes [0x00006000, 0, 0, 0, 0, 0x02006010, 0, 0, 0, 0x1000])) = 40" by (simp add: word_bytes_def)
  then show "\<exists>s. getprop_cells tree_ci 2 ''reg'' card_bus = Done (40, s)"
    by (simp add: getprop_cells_def prom_getprop_def call_prom_def tree_ci_def card_bus_def card_tree_def)
qed

end
