(* ===== verification/Bboot.thy ===== *)
theory Bboot
  imports BootAos Cfg Brd_AmigaOne Brd_Sam460 Brd_Pegasos2
begin

text \<open>
  The entry point: \<open>bboot.c\<close>. \<open>start\<close> finds out which machine it runs on from the registers, lets the
  board and the options decide what to set up, finds the archive with the Kickstart, loads it and
  enters the loader. The part behind the board's initialisation is the same for all boards; it is
  generic in the state \<open>'f\<close> of the board and in the firmware calls, which only an Open Firmware
  machine has. Entering the loader ends the model.
\<close>

subsection \<open>After the board is known\<close>

text \<open>The firmware calls that \<open>start\<close> makes itself, each on memory and the state of the board.\<close>

record 'f firmware =
  fw_get_chosen :: "string \<Rightarrow> u32 \<Rightarrow> mem \<Rightarrow> 'f \<Rightarrow> (int \<times> u32 \<times> mem \<times> 'f) option"
  fw_finddevice :: "string \<Rightarrow> mem \<Rightarrow> 'f \<Rightarrow> (u32 \<times> mem \<times> 'f) option"
  fw_getproplen :: "u32 \<Rightarrow> string \<Rightarrow> mem \<Rightarrow> 'f \<Rightarrow> (int \<times> mem \<times> 'f) option"
  fw_getprop_at :: "u32 \<Rightarrow> string \<Rightarrow> u32 \<Rightarrow> u32 \<Rightarrow> mem \<Rightarrow> 'f \<Rightarrow> (int \<times> mem \<times> 'f) option"
  fw_write :: "u8 list \<Rightarrow> mem \<Rightarrow> 'f \<Rightarrow> (mem \<times> 'f) option"
  fw_exit :: "mem \<Rightarrow> 'f \<Rightarrow> (mem \<times> 'f) option"

text \<open>The serial port of the board: \<open>uart_init\<close>, and \<open>serial_write\<close> of a piece of text.\<close>

record 'f serial =
  sp_init :: "'f \<Rightarrow> 'f"
  sp_write :: "u8 list \<Rightarrow> 'f \<Rightarrow> 'f"

record regs =
  r3 :: u32
  r4 :: u32
  r5 :: u32
  r6 :: u32
  r7 :: u32
  r8 :: u32

text \<open>
  What \<open>start\<close> ends with: the loader is entered with the kick list, the board information and the
  arguments, on a stack of its own if the board gives one; or \<open>start\<close> returns.
\<close>

datatype 'f final =
  Entered (entry: u32) (kick_list: u32) (board_info: u32) (arg_ptr: u32) (new_stack: "u32 option") (at_mem: mem) (at_state: 'f)
| Returned mem 'f

text \<open>
  The console of \<open>start\<close>: the two output drivers, on memory and the state of the board. A firmware call
  that does not return stops the output, so the drivers work on an option. Without Open Firmware
  \<open>prom_write\<close> does nothing.
\<close>

type_synonym 'f console = "(mem \<times> 'f) option driver list"

definition prom_consout :: "'f firmware option \<Rightarrow> (mem \<times> 'f) option driver" where
  "prom_consout fwo xs s =
     Option.bind s (\<lambda>(m, f). case fwo of Some o1 \<Rightarrow> fw_write o1 xs m f | None \<Rightarrow> Some (m, f))"

definition serial_consout :: "'f serial \<Rightarrow> (mem \<times> 'f) option driver" where
  "serial_consout sp xs s = map_option (\<lambda>(m, f). (m, sp_write sp xs f)) s"

definition say :: "'f console \<Rightarrow> string \<Rightarrow> mem \<Rightarrow> 'f \<Rightarrow> (mem \<times> 'f) option" where
  "say co str m f = Option.bind (puts co (lit str) (Some (m, f))) snd"

definition VLVL :: "nat \<Rightarrow> nat \<Rightarrow> 'f console \<Rightarrow> string \<Rightarrow> mem \<Rightarrow> 'f \<Rightarrow> (mem \<times> 'f) option" where
  "VLVL vlvl l co str m f = (if vlvl \<ge> l then say co str m f else Some (m, f))"

text \<open>The verbosity in the options, a digit behind \<open>V\<close>.\<close>

definition get_vlvl :: "u8 list \<Rightarrow> nat option" where
  "get_vlvl opts =
     Option.bind (cfg_get_option opts CHR ''V'') (\<lambda>p. Some (case p of
         None \<Rightarrow> 0
       | Some i \<Rightarrow> (let c = in_array opts i in if 0x30 \<le> c \<and> c \<le> 0x39 then unat (c - 0x30) else 0)))"

definition find_initrd ::
  "nat \<Rightarrow> 'f console \<Rightarrow> 'f firmware option \<Rightarrow> regs \<Rightarrow> 'f brd_t \<Rightarrow> mem \<Rightarrow> 'f \<Rightarrow> (u32 \<times> u32 \<times> mem \<times> 'f) option" where
  "find_initrd vlvl co fwo r brd m f =
     (case fwo of
        Some o1 \<Rightarrow>
          if r3 r \<noteq> 0 then Some (r3 r, r4 r, m, f)
          else
            Option.bind (fw_get_chosen o1 ''linux,initrd-start'' 0 m f) (\<lambda>(n, addr, m, f).
            Option.bind (if n \<le> 0 then VLVL vlvl 5 co ''Could not get initrd start'' m f else Some (m, f)) (\<lambda>(m, f).
            Option.bind (fw_get_chosen o1 ''linux,initrd-end'' (r4 r) m f) (\<lambda>(n, len, m, f).
            Option.bind (if n \<le> 0 then VLVL vlvl 5 co ''Could not get initrd end'' m f else Some (m, f)) (\<lambda>(m, f).
              Some (addr, if len \<noteq> 0 then len - addr else len, m, f)))))
      | None \<Rightarrow>
          if initrd_start brd \<noteq> 0 then
            Some (initrd_start brd, if initrd_end brd > initrd_start brd then initrd_end brd - initrd_start brd else 0, m, f)
          else if r4 r \<noteq> 0 then Some (r4 r, if r5 r > r4 r then r5 r - r4 r else 0, m, f)
          else Some (0, 0, m, f))"

definition default_initrd :: "u32 \<Rightarrow> u32 \<Rightarrow> u32 \<times> u32" where
  "default_initrd addr len = (if addr = 0 then (0x600000, 0) else (addr, len))"

text \<open>The command line; \<open>nostr\<close> is the address of the string literal without characters.\<close>

definition find_args ::
  "'f firmware option \<Rightarrow> u32 \<Rightarrow> regs \<Rightarrow> 'f brd_t \<Rightarrow> u32 \<Rightarrow> mem \<Rightarrow> 'f \<Rightarrow> (u32 \<times> mem \<times> 'f) option" where
  "find_args fwo nostr r brd avail m f =
     (case fwo of
        Some o1 \<Rightarrow>
          Option.bind (fw_finddevice o1 ''/options'' m f) (\<lambda>(ph, m, f).
          Option.bind (if ph \<noteq> PROM_INVALID_HANDLE then Some (ph, ''os4_commandline'', m, f)
                       else Option.bind (fw_finddevice o1 ''/chosen'' m f) (\<lambda>(ph, m, f). Some (ph, ''bootargs'', m, f)))
            (\<lambda>(ph, propname, m, f).
          Option.bind (fw_getproplen o1 ph propname m f) (\<lambda>(args_len, m, f).
            if args_len > 0 then
              Option.bind (claim brd avail (of_int args_len) m f) (\<lambda>(buf, m, f).
                if buf \<noteq> 0 then
                  Option.bind (fw_getprop_at o1 ph propname buf (of_int args_len) m f) (\<lambda>(n, m, f).
                    Some (if n = args_len then buf else nostr, m, f))
                else Some (nostr, m, f))
            else Some (nostr, m, f))))
      | None \<Rightarrow>
          Some (if bootargs brd \<noteq> 0 then bootargs brd else if r6 r \<noteq> 0 \<and> r7 r > r6 r then r6 r else nostr, m, f))"

definition leave :: "'f firmware option \<Rightarrow> mem \<Rightarrow> 'f \<Rightarrow> 'f final option" where
  "leave fwo m f =
     (case fwo of Some o1 \<Rightarrow> Option.bind (fw_exit o1 m f) (\<lambda>(m, f). Some (Returned m f)) | None \<Rightarrow> Some (Returned m f))"

definition enter_loader ::
  "nat \<Rightarrow> 'f console \<Rightarrow> 'f firmware option \<Rightarrow> u32 \<Rightarrow> regs \<Rightarrow> 'f brd_t \<Rightarrow> u32 \<Rightarrow> u32 \<Rightarrow> mem \<Rightarrow> 'f \<Rightarrow> 'f final option" where
  "enter_loader vlvl co fwo nostr r brd kicklist avail m f =
     Option.bind (find_args fwo nostr r brd avail m f) (\<lambda>(args, m, f).
     Option.bind (VLVL vlvl 3 co ''Starting exec'' m f) (\<lambda>(m, f).
       Some (Entered (exec_addr brd) kicklist (info brd) args (if stack_top brd \<noteq> 0 then Some (stack_top brd) else None) m f)))"

text \<open>\<open>stack\<close> is what the stack holds before the decoder runs.\<close>

definition boot_step ::
  "nat \<Rightarrow> 'f console \<Rightarrow> 'f firmware option \<Rightarrow> u32 \<Rightarrow> (nat \<Rightarrow> int) \<Rightarrow> regs \<Rightarrow> 'f brd_t \<Rightarrow> mem \<Rightarrow> 'f \<Rightarrow> 'f final option" where
  "boot_step vlvl co fwo nostr stack r brd m f =
     Option.bind (find_initrd vlvl co fwo r brd m f) (\<lambda>(addr, len, m, f).
     case default_initrd addr len of (addr, len) \<Rightarrow>
     Option.bind (boot_aos_zipkick brd addr len 1 \<lparr>bw = \<lparr>mem = m, fx = fixed_init, stk = stack\<rparr>, bf = f,
         bz = \<lparr>z_data = 0, z_len = 0, z_er = 0, z_gfh = 0\<rparr>\<rparr>) (\<lambda>(r1, s).
       case r1 of
         Inl _ \<Rightarrow> leave fwo (bmem s) (bf s)
       | Inr (kicklist, avail) \<Rightarrow> enter_loader vlvl co fwo nostr r brd kicklist avail (bmem s) (bf s)))"

text \<open>
  From \<open>cfg_init\<close> to the end: the console and the serial port are set up as the options say, the version
  is printed, then PCI is set up and the system booted. \<open>opts\<close> is the option string in its array.
\<close>

definition add_drivers ::
  "'f firmware option \<Rightarrow> 'f serial \<Rightarrow> u8 list \<Rightarrow> 'f \<Rightarrow> ('f console \<times> 'f) option" where
  "add_drivers fwo sp opts f =
     Option.bind (cfg_is_option opts CHR ''O'' CHR ''f'') (\<lambda>ofw.
     let co = (if ofw then console_add_output_driver (prom_consout fwo) [] else []) in
     Option.bind (cfg_is_option opts CHR ''O'' CHR ''s'') (\<lambda>os.
     Some (if os then (console_add_output_driver (serial_consout sp) co, sp_init sp f) else (co, f))))"

definition run_options ::
  "'f firmware option \<Rightarrow> u32 \<Rightarrow> string \<Rightarrow> (nat \<Rightarrow> int) \<Rightarrow> regs \<Rightarrow> 'f brd_t \<Rightarrow> 'f serial \<Rightarrow> u8 list \<Rightarrow> mem \<Rightarrow> 'f \<Rightarrow> 'f final outcome" where
  "run_options fwo nostr ver stack r brd sp opts m f =
     bindO (returns (add_drivers fwo sp opts f)) (\<lambda>(co, f).
     bindO (returns (snd (putchar co NL (Some (m, f))))) (\<lambda>(m, f).
     bindO (returns (say co ver m f)) (\<lambda>(m, f).
     bindO (returns (get_vlvl opts)) (\<lambda>vlvl.
     bindO (returns (cfg_is_option opts CHR ''A'' CHR ''p'')) (\<lambda>ap.
     bindO (if ap then case brd_setup brd of Some su \<Rightarrow> su m f | None \<Rightarrow> Done (m, f) else Done (m, f)) (\<lambda>(m, f).
     bindO (returns (cfg_is_option opts CHR ''A'' CHR ''b'')) (\<lambda>ab.
     returns (if ab then boot_step vlvl co fwo nostr stack r brd m f
              else Option.bind (say co ''Booting failed, exiting.'' m f) (\<lambda>(m, f). leave fwo m f)))))))))"

subsection \<open>start\<close>

text \<open>
  The machine: its bus, processor and firmware, the addresses of the static objects, the version text
  and the option for the G5 of the build, and the contents of uninitialised stack.
\<close>

record ('h, 'f) env =
  env_bus :: "'h bus"
  env_cpu :: "'h cpu"
  env_ci :: "'f client_interface"
  bd_addr :: u32
  bootargs_buf :: u32
  nostr_addr :: u32
  verstag :: string
  g5 :: bool
  env_stack :: "nat \<Rightarrow> int"

definition prom_off :: "mem \<Rightarrow> 'f \<Rightarrow> 'f prom_state" where
  "prom_off m f = \<lparr>prom = 0, prom_stdin = 0, prom_stdout = 0, prom_chosen = 0, prom_options = PROM_INVALID_HANDLE, pmem = m, fw = f\<rparr>"

definition bar_zero :: "'h \<Rightarrow> 'h bar_state" where
  "bar_zero h = \<lparr>hw = h, pci_conf_addr = 0, pci_data_addr = 0, iobase = 0, iolen = 0, membase = 0, memlen = 0, ioavail = 0, memavail = 0\<rparr>"

text \<open>The firmware calls of the Pegasos2, on the memory given.\<close>

definition lift_prom :: "('f prom_state \<Rightarrow> ('a \<times> 'f prom_state) option) \<Rightarrow> mem \<Rightarrow> ('h, 'f) pegasos \<Rightarrow> ('a \<times> mem \<times> ('h, 'f) pegasos) option" where
  "lift_prom g m s = Option.bind (g ((ps s)\<lparr>pmem := m\<rparr>)) (\<lambda>(x, p). Some (x, pmem p, s\<lparr>ps := p\<rparr>))"

definition pegasos_firmware :: "'f client_interface \<Rightarrow> ('h, 'f) pegasos firmware" where
  "pegasos_firmware ci =
     \<lparr>fw_get_chosen = (\<lambda>name v m s. Option.bind (lift_prom (\<lambda>p. Option.bind (prom_get_chosen ci name (word_bytes v) 4 p)
          (\<lambda>(r, buf, p). Some ((r, bytes_word buf), p))) m s) (\<lambda>((r, v), m, s). Some (r, v, m, s))),
      fw_finddevice = (\<lambda>name. lift_prom (prom_finddevice ci name)),
      fw_getproplen = (\<lambda>ph name. lift_prom (prom_getproplen ci ph name)),
      fw_getprop_at = (\<lambda>ph name a len. lift_prom (prom_getprop_at ci ph name a len)),
      fw_write = (\<lambda>xs m s. Option.bind (prom_write ci xs ((ps s)\<lparr>pmem := m\<rparr>)) (\<lambda>p. Some (pmem p, s\<lparr>ps := p\<rparr>))),
      fw_exit = (\<lambda>m s. Option.bind (prom_exit ci ((ps s)\<lparr>pmem := m\<rparr>)) (\<lambda>p. Some (pmem p, s\<lparr>ps := p\<rparr>)))\<rparr>"

definition serial_port :: "'h bus \<Rightarrow> u32 \<Rightarrow> ('h, 'x) pci_state_scheme serial" where
  "serial_port b base =
     \<lparr>sp_init = (\<lambda>s. s\<lparr>hw := uart_init b base (hw s)\<rparr>), sp_write = (\<lambda>xs s. s\<lparr>hw := serial_write b base xs (hw s)\<rparr>)\<rparr>"

type_synonym ('h, 'f) machine = "'h amigaone + 'h sam460 + ('h, 'f) pegasos"

text \<open>The three ways through \<open>start\<close>.\<close>

definition start_sam460 :: "('h, 'f) env \<Rightarrow> regs \<Rightarrow> mem \<Rightarrow> 'h \<Rightarrow> 'f \<Rightarrow> 'h sam460 final outcome" where
  "start_sam460 e r m h f =
     bindO (returns (sam460_init (bd_addr e) (bootargs_buf e) (env_bus e) (env_cpu e) (r3 r) brd_zero
         (bar_state.extend (bar_zero h) \<lparr>sam460.bd = bd_460ex_zero\<rparr>) m)) (\<lambda>(brd, s, m).
     bindO (returns (cfg_init (env_ci e) (replicate 128 0) (prom_off m f))) (\<lambda>(opts, _).
     bindO (inside opts) (\<lambda>opts.
     run_options None (nostr_addr e) (verstag e) (env_stack e) r brd (serial_port (env_bus e) (serial_base brd)) opts m s)))"

definition start_amigaone :: "('h, 'f) env \<Rightarrow> regs \<Rightarrow> mem \<Rightarrow> 'h \<Rightarrow> 'f \<Rightarrow> 'h amigaone final outcome" where
  "start_amigaone e r m h f =
     bindO (returns (amigaone_init (g5 e) (bd_addr e) (env_bus e) brd_zero (bar_state.extend (bar_zero h) \<lparr>amigaone.bd = bd_zero\<rparr>) m)) (\<lambda>(brd, s, m).
     bindO (returns (cfg_init (env_ci e) (replicate 128 0) (prom_off m f))) (\<lambda>(opts, _).
     bindO (inside opts) (\<lambda>opts.
     run_options None (nostr_addr e) (verstag e) (env_stack e) r brd (serial_port (env_bus e) (serial_base brd)) opts m s)))"

definition start_pegasos2 :: "('h, 'f) env \<Rightarrow> regs \<Rightarrow> mem \<Rightarrow> 'h \<Rightarrow> 'f \<Rightarrow> ('h, 'f) pegasos final outcome" where
  "start_pegasos2 e r m h f =
     (let ci = env_ci e; fwo = Some (pegasos_firmware ci);
          s0 = bar_state.extend (bar_zero h) \<lparr>ioresavail = 0, cells = replicate 35 0, ps = prom_off m f\<rparr> in
      bindO (returns (prom_init ci (r5 r) (prom_off m f))) (\<lambda>p.
      bindO (returns (prom_finddevice ci ''/'' p)) (\<lambda>(ph, p).
      bindO (returns (prom_getprop ci ph ''model'' (replicate 32 0) 32 p)) (\<lambda>(_, model, p).
      bindO (returns (strcmp (in_array model) (lit ''Pegasos2''))) (\<lambda>d.
      if d = 0 then
        let s = s0\<lparr>ps := p\<rparr>; brd = pegasos2_init ci (env_bus e) brd_zero s in
        bindO (returns (cfg_init ci (replicate 128 0) p)) (\<lambda>(opts, p).
        bindO (inside opts) (\<lambda>opts.
        run_options fwo (nostr_addr e) (verstag e) (env_stack e) r brd (serial_port (env_bus e) (serial_base brd)) opts (pmem p) (s\<lparr>ps := p\<rparr>)))
      else
        bindO (returns (prom_puts ci (prom_stdout p) (chars ''Unknown machine'') p)) (\<lambda>p.
        returns (leave fwo (pmem p) (s0\<lparr>ps := p\<rparr>))))))))"

definition start :: "('h, 'f) env \<Rightarrow> regs \<Rightarrow> mem \<Rightarrow> 'h \<Rightarrow> 'f \<Rightarrow> ('h, 'f) machine final outcome" where
  "start e r m h f =
     (if r6 r = 0x45504150 then map_outcome (map_final (Inr \<circ> Inl)) (start_sam460 e r m h f)
      else if r8 r = 1024 \<or> r5 r = 0 then map_outcome (map_final Inl) (start_amigaone e r m h f)
      else map_outcome (map_final (Inr \<circ> Inr)) (start_pegasos2 e r m h f))"

subsection \<open>The kick list handed over\<close>

lemma bindB_Some_Inr:
  "bindB r g = Some (Inr y, s') \<longleftrightarrow> (\<exists>x s. r = Some (Inr x, s) \<and> g x s = Some (Inr y, s'))"
  by (cases r; cases "fst (the r)"; cases "the r") (auto simp: bindB_def)

lemma boot_aos_zipkick_list:
  assumes "boot_aos_zipkick brd z l c s = Some (Inr (k, a), s')"
  shows "k \<noteq> 0 \<and> \<not> alist_empty (bmem s') k"
  using assms unfolding boot_aos_zipkick_def
  by (auto simp: Let_def bindB_Some_Inr split: if_splits prod.splits)

text \<open>Without Open Firmware the console returns and leaves memory alone.\<close>

definition quiet :: "'f console \<Rightarrow> bool" where
  "quiet co \<longleftrightarrow> (\<forall>d\<in>set co. \<forall>xs m f. \<exists>f'. d xs (Some (m, f)) = Some (m, f'))"

lemma quiet_drivers:
  "quiet []" "quiet co \<Longrightarrow> quiet (console_add_output_driver (prom_consout None) co)"
  "quiet co \<Longrightarrow> quiet (console_add_output_driver (serial_consout sp) co)"
  by (simp_all add: quiet_def console_add_output_driver_def prom_consout_def serial_consout_def)

lemma quiet_fold:
  assumes "quiet co"
  shows "\<exists>f'. fold (\<lambda>d. d xs) co (Some (m, f)) = Some (m, f')"
  using assms
proof (induction co arbitrary: f)
  case (Cons d co)
  then have "\<exists>f1. d xs (Some (m, f)) = Some (m, f1)" "quiet co" by (simp_all add: quiet_def)
  then show ?case using Cons.IH by fastforce
qed simp

lemma quiet_putchar: "quiet co \<Longrightarrow> \<exists>f'. snd (putchar co c (Some (m, f))) = Some (m, f')"
  using quiet_fold [of co "[CR, NL]" m f] quiet_fold [of co "[c]" m f] by (cases "c = NL") (simp_all add: putchar_def)

lemma quiet_putchars: "quiet co \<Longrightarrow> \<exists>f'. putchars co xs (Some (m, f)) = Some (m, f')"
proof (induction "length xs" arbitrary: xs f rule: less_induct)
  case less
  let ?line = "takeWhile (\<lambda>c. c \<noteq> NL) xs" and ?rest = "dropWhile (\<lambda>c. c \<noteq> NL) xs"
  obtain f1 where f1: "(if ?line \<noteq> [] then write_all co ?line (Some (m, f)) else Some (m, f)) = Some (m, f1)"
    using quiet_fold [OF less.prems, of ?line m f] unfolding write_all_def by (cases "?line = []") auto
  show ?case
  proof (cases ?rest)
    case Nil
    then show ?thesis using f1 by (subst putchars.simps) (auto simp: Let_def simp del: takeWhile_eq_Nil_iff dropWhile_eq_Nil_conv)
  next
    case (Cons c cs)
    have "length (c # cs) \<le> length xs" using Cons by (metis length_dropWhile_le)
    moreover obtain f2 where "snd (putchar co NL (Some (m, f1))) = Some (m, f2)" using quiet_putchar [OF less.prems] by blast
    moreover have "xs \<noteq> []" using Cons by auto
    ultimately show ?thesis
      using f1 Cons less.hyps [of cs f2] less.prems by (subst putchars.simps) (auto simp: Let_def simp del: takeWhile_eq_Nil_iff)
  qed
qed

lemma quiet_say:
  assumes "quiet co" "CHR 0x00 \<notin> set str"
  shows "\<exists>f'. say co str m f = Some (m, f')"
proof -
  obtain f1 where "putchars co (map (lit str) [0..<length (chars str)]) (Some (m, f)) = Some (m, f1)"
    using quiet_putchars [OF assms(1)] by blast
  moreover obtain f2 where "snd (putchar co NL (Some (m, f1))) = Some (m, f2)" using quiet_putchar [OF assms(1)] by blast
  ultimately show ?thesis by (simp add: say_def puts_def strlen_cstring [OF cstring_lit [OF assms(2)]])
qed

lemma quiet_add_drivers: "add_drivers None sp opts f = Some (co, f') \<Longrightarrow> quiet co"
  by (auto simp: add_drivers_def bind_eq_Some_conv Let_def intro: quiet_drivers split: if_splits)

lemma enter_loader_quiet:
  assumes "quiet co"
  shows "\<exists>a st f'. enter_loader vlvl co None nostr r brd k av m f = Some (Entered (exec_addr brd) k (info brd) a st m f')"
  using quiet_say [OF assms, of "''Starting exec''" m f] by (auto simp: enter_loader_def find_args_def VLVL_def)

lemma boot_step_entered:
  assumes "quiet co" and run: "boot_step vlvl co None nostr stack r brd m f = Some (Entered a k i ar st m' f')"
  shows "k \<noteq> 0 \<and> \<not> alist_empty m' k \<and> a = exec_addr brd"
proof -
  obtain addr len m1 f1 where 1: "find_initrd vlvl co None r brd m f = Some (addr, len, m1, f1)"
    using run by (auto simp: boot_step_def bind_eq_Some_conv)
  obtain addr2 len2 where 2: "default_initrd addr len = (addr2, len2)" by (cases "default_initrd addr len")
  obtain r1 s where 3: "boot_aos_zipkick brd addr2 len2 1 \<lparr>bw = \<lparr>mem = m1, fx = fixed_init, stk = stack\<rparr>, bf = f1,
      bz = \<lparr>z_data = 0, z_len = 0, z_er = 0, z_gfh = 0\<rparr>\<rparr> = Some (r1, s)"
    using run 1 2 by (auto simp: boot_step_def bind_eq_Some_conv)
  show ?thesis
  proof (cases r1)
    case (Inl e)
    then show ?thesis using run 1 2 3 by (simp add: boot_step_def leave_def)
  next
    case (Inr x)
    obtain k1 av where x: "x = (k1, av)" by (cases x)
    obtain ar' st' f2 where "enter_loader vlvl co None nostr r brd k1 av (bmem s) (bf s)
        = Some (Entered (exec_addr brd) k1 (info brd) ar' st' (bmem s) f2)"
      using enter_loader_quiet [OF assms(1)] by blast
    then have "k1 = k \<and> bmem s = m' \<and> exec_addr brd = a"
      using run 1 2 3 Inr x by (simp add: boot_step_def)
    then show ?thesis using boot_aos_zipkick_list [of brd addr2 len2 1] 3 Inr x by blast
  qed
qed

lemma bindO_Done: "bindO r g = Done y \<longleftrightarrow> (\<exists>x. r = Done x \<and> g x = Done y)"
  by (cases r) simp_all

lemma returns_Done: "returns r = Done x \<longleftrightarrow> r = Some x"
  by (cases r) simp_all

lemma run_options_entered:
  assumes "run_options None nostr ver stack r brd sp opts m f = Done (Entered a k i ar st m' f')"
  shows "k \<noteq> 0 \<and> \<not> alist_empty m' k \<and> a = exec_addr brd"
proof -
  obtain co f1 where co: "add_drivers None sp opts f = Some (co, f1)"
    using assms unfolding run_options_def by (auto simp: bindO_Done returns_Done)
  then show ?thesis
    using assms unfolding run_options_def
    by (auto simp: bindO_Done returns_Done bind_eq_Some_conv leave_def split: if_splits dest!: boot_step_entered [OF quiet_add_drivers [OF co]])
qed

text \<open>What must hold when \<open>start\<close> enters the loader: where, and with which kick list.\<close>

definition hands_over :: "u32 \<Rightarrow> 'f final outcome \<Rightarrow> bool" where
  "hands_over addr r \<longleftrightarrow>
     (case r of Done (Entered a k i ar st m f) \<Rightarrow> a = addr \<and> k \<noteq> 0 \<and> \<not> alist_empty m k | _ \<Rightarrow> True)"

lemma hands_over_map [simp]: "hands_over addr (map_outcome (map_final g) r) = hands_over addr r"
  by (auto simp: hands_over_def split: outcome.split final.split)

lemma hands_over_bind: "(\<And>x. r = Done x \<Longrightarrow> hands_over addr (g x)) \<Longrightarrow> hands_over addr (bindO r g)"
  by (cases r) (auto simp: hands_over_def)

lemma run_options_hands_over: "exec_addr brd = addr \<Longrightarrow> hands_over addr (run_options None nostr ver stack r brd sp opts m f)"
  by (auto simp: hands_over_def split: outcome.split final.split dest: run_options_entered)

lemma start_sam460_hands_over: "hands_over 0x1000000 (start_sam460 e r m h f)"
  unfolding start_sam460_def
  by (auto intro!: hands_over_bind run_options_hands_over
      simp: returns_Done sam460_init_def Let_def bind_eq_Some_conv read_fdt_def split: if_splits)

lemma start_amigaone_hands_over: "hands_over 0x1000000 (start_amigaone e r m h f)"
  unfolding start_amigaone_def
  by (auto intro!: hands_over_bind run_options_hands_over simp: returns_Done amigaone_init_def Let_def bind_eq_Some_conv)

text \<open>
  C36. On a machine without Open Firmware, \<open>start\<close> enters the loader only at the address of the board and
  only with a kick list that has at least one module in it.
\<close>

theorem start_enters_with_modules:
  assumes "r6 r = 0x45504150 \<or> r8 r = 1024 \<or> r5 r = 0"
  shows "hands_over 0x1000000 (start e r m h f)"
  using assms start_sam460_hands_over start_amigaone_hands_over by (auto simp: start_def)

lemma default_options:
  "\<exists>r'. cfg_init ci (replicate 128 0) (prom_off m f) = Some (Some (chars DEFAULT_OPTS @ 0 # r'), prom_off m f)"
proof -
  have len: "length (chars DEFAULT_OPTS) = 9" by (simp add: chars_def DEFAULT_OPTS_def)
  then have put: "put_string (replicate 128 0) (chars DEFAULT_OPTS) = Some (chars DEFAULT_OPTS @ 0 # drop 10 (replicate 128 0))"
    by (simp add: put_string_def del: drop_replicate)
  have nz: "0 \<notin> set (chars DEFAULT_OPTS)" by (simp add: chars_def DEFAULT_OPTS_def char_byte_def)
  have "lstrip (chars DEFAULT_OPTS) = 0x4f # chars ''s V5 Apb''" "rstrip (chars ''s V5 Apb'') = chars ''s V5 Apb''"
    "0x4f # chars ''s V5 Apb'' = chars DEFAULT_OPTS"
    by (simp_all add: lstrip_def rstrip_def blank_def chars_def DEFAULT_OPTS_def char_byte_def)
  then have "\<exists>r'. trim_options (chars DEFAULT_OPTS @ 0 # drop 10 (replicate 128 0)) = Some (chars DEFAULT_OPTS @ 0 # r')"
    using trim_options_stripped [OF nz, of "0x4f" "chars ''s V5 Apb''" "drop 10 (replicate 128 0)"]
    by (metis append_Cons)
  then show ?thesis using put by (auto simp: cfg_init_def prom_get_options_def prom_off_def)
qed

lemma default_settings:
  "cfg_is_option (chars DEFAULT_OPTS @ 0 # r) CHR ''O'' CHR ''f'' = Some False"
  "cfg_is_option (chars DEFAULT_OPTS @ 0 # r) CHR ''O'' CHR ''s'' = Some True"
  "cfg_is_option (chars DEFAULT_OPTS @ 0 # r) CHR ''A'' CHR ''p'' = Some True"
  "cfg_is_option (chars DEFAULT_OPTS @ 0 # r) CHR ''A'' CHR ''b'' = Some True"
proof -
  have nz: "0 \<notin> set (chars DEFAULT_OPTS)" by (simp add: chars_def DEFAULT_OPTS_def char_byte_def)
  show "cfg_is_option (chars DEFAULT_OPTS @ 0 # r) CHR ''O'' CHR ''f'' = Some False"
    "cfg_is_option (chars DEFAULT_OPTS @ 0 # r) CHR ''O'' CHR ''s'' = Some True"
    "cfg_is_option (chars DEFAULT_OPTS @ 0 # r) CHR ''A'' CHR ''p'' = Some True"
    "cfg_is_option (chars DEFAULT_OPTS @ 0 # r) CHR ''A'' CHR ''b'' = Some True"
    by (subst cfg_is_option_word [OF nz], simp, simp add: chars_def DEFAULT_OPTS_def char_byte_def)+
qed

lemma default_vlvl: "get_vlvl (chars DEFAULT_OPTS @ 0 # r) = Some 5"
proof -
  have "cstring (in_array (chars DEFAULT_OPTS @ 0 # r)) (chars DEFAULT_OPTS)"
    by (rule in_array_cstring) (simp add: chars_def DEFAULT_OPTS_def char_byte_def)
  from strchr_cstring [OF this, of "char_byte CHR ''V''"]
  have "strchr (in_array (chars DEFAULT_OPTS @ 0 # r)) (char_byte CHR ''V'') = Some (Some 3)"
    by (simp add: chars_def DEFAULT_OPTS_def char_byte_def)
  moreover have "in_array (chars DEFAULT_OPTS @ 0 # r) 4 = 0x35"
    by (simp add: in_array_def chars_def DEFAULT_OPTS_def char_byte_def)
  ultimately show ?thesis by (simp add: get_vlvl_def cfg_get_option_def)
qed

text \<open>Text on the serial console of the board goes to the serial port and changes nothing else.\<close>

abbreviation serial_console :: "'h bus \<Rightarrow> u32 \<Rightarrow> ('h, 'x) pci_state_scheme console" where
  "serial_console b base \<equiv> [serial_consout (serial_port b base)]"

lemma serial_console_putchar:
  "snd (putchar (serial_console b base) c (Some (m, s))) = Some (m, s\<lparr>hw := snd (putchar [serial_write b base] c (hw s))\<rparr>)"
  by (simp add: putchar_def serial_consout_def serial_port_def)

lemma serial_console_putchars:
  "putchars (serial_console b base) xs (Some (m, s)) = Some (m, s\<lparr>hw := putchars [serial_write b base] xs (hw s)\<rparr>)"
proof (induction "length xs" arbitrary: xs s rule: less_induct)
  case less
  let ?line = "takeWhile (\<lambda>c. c \<noteq> NL) xs" and ?rest = "dropWhile (\<lambda>c. c \<noteq> NL) xs"
  have line: "write_all (serial_console b base) zs (Some (m, s)) = Some (m, s\<lparr>hw := write_all [serial_write b base] zs (hw s)\<rparr>)" for zs
    by (simp add: write_all_def serial_consout_def serial_port_def)
  note unf = putchars.simps [of "serial_console b base" xs "Some (m, s)"] putchars.simps [of "[serial_write b base]" xs "hw s"]
  show ?case
  proof (cases ?rest)
    case Nil
    then show ?thesis unfolding unf by (simp add: line Let_def del: takeWhile_eq_Nil_iff dropWhile_eq_Nil_conv)
  next
    case (Cons c cs)
    have "length (c # cs) \<le> length xs" using Cons by (metis length_dropWhile_le)
    moreover have "xs \<noteq> []" using Cons by auto
    ultimately show ?thesis
      using Cons less.hyps [of cs] unfolding unf by (simp add: line Let_def serial_console_putchar del: takeWhile_eq_Nil_iff)
  qed
qed

lemma serial_console_say:
  assumes str: "CHR 0x00 \<notin> set str"
  shows "\<exists>h'. say (serial_console b base) str m s = Some (m, s\<lparr>hw := h'\<rparr>) \<and>
    (\<forall>up thre sent. uart_port b base up thre sent \<longrightarrow> base \<noteq> 0 \<longrightarrow> up (hw s) \<longrightarrow> sent h' = sent (hw s) @ crlf (chars str @ [NL]))"
proof -
  note str' = cstring_lit [OF str]
  let ?h = "snd (putchar [serial_write b base] NL (putchars [serial_write b base] (map (lit str) [0..<length (chars str)]) (hw s)))"
  have "say (serial_console b base) str m s = Some (m, s\<lparr>hw := ?h\<rparr>)"
    by (simp add: say_def puts_def strlen_cstring [OF str'] serial_console_putchars serial_console_putchar)
  moreover have "sent ?h = sent (hw s) @ crlf (chars str @ [NL])"
    if port: "uart_port b base up thre sent" "base \<noteq> 0" and up: "up (hw s)" for up thre sent
  proof -
    have "logs [serial_write b base] up sent" by (simp add: logs_def write_all_def serial_write_sent [OF port])
    from puts_sent [OF this str' up] show ?thesis by (auto simp: puts_def strlen_cstring [OF str'])
  qed
  ultimately show ?thesis by blast
qed

text \<open>
  With the default options the serial port is set up and the version printed; then the board is set up and
  the system booted.
\<close>

lemma default_run:
  assumes ver: "CHR 0x00 \<notin> set ver" and su: "brd_setup brd = Some su"
  shows "\<exists>h1. run_options None nostr ver stack r brd (serial_port b base) (chars DEFAULT_OPTS @ 0 # r') m s =
      bindO (su m (s\<lparr>hw := h1\<rparr>)) (\<lambda>(m, f). returns (boot_step 5 (serial_console b base) None nostr stack r brd m f)) \<and>
    (\<forall>up thre sent. uart_port b base up thre sent \<longrightarrow> base \<noteq> 0 \<longrightarrow> up (uart_init b base (hw s)) \<longrightarrow>
       sent h1 = sent (uart_init b base (hw s)) @ crlf (NL # chars ver @ [NL]))"
proof -
  let ?h = "uart_init b base (hw s)"
  let ?hn = "snd (putchar [serial_write b base] NL ?h)"
  obtain h1 where h1: "say (serial_console b base) ver m (s\<lparr>hw := ?hn\<rparr>) = Some (m, s\<lparr>hw := h1\<rparr>)"
      "\<forall>up thre sent. uart_port b base up thre sent \<longrightarrow> base \<noteq> 0 \<longrightarrow> up ?hn \<longrightarrow> sent h1 = sent ?hn @ crlf (chars ver @ [NL])"
    using serial_console_say [OF ver, of b base m "s\<lparr>hw := ?hn\<rparr>"] by auto
  have "sp_init (serial_port b base) s = s\<lparr>hw := ?h\<rparr>" by (simp add: serial_port_def)
  then have "run_options None nostr ver stack r brd (serial_port b base) (chars DEFAULT_OPTS @ 0 # r') m s =
      bindO (su m (s\<lparr>hw := h1\<rparr>)) (\<lambda>(m, f). returns (boot_step 5 (serial_console b base) None nostr stack r brd m f))"
    by (simp add: su run_options_def add_drivers_def default_settings default_vlvl console_add_output_driver_def serial_console_putchar h1(1))
  moreover have "sent h1 = sent ?h @ crlf (NL # chars ver @ [NL])"
    if port: "uart_port b base up thre sent" "base \<noteq> 0" and up: "up ?h" for up thre sent
  proof -
    have "logs [serial_write b base] up sent" by (simp add: logs_def write_all_def serial_write_sent [OF port])
    from putchar_sent [OF this up] have hn: "sent ?hn = sent ?h @ crlf [NL]" "up ?hn" by blast+
    moreover have "sent h1 = sent ?hn @ crlf (chars ver @ [NL])" using h1(2) port hn(2) by blast
    ultimately show ?thesis using crlf_append [of "[NL]" "chars ver @ [NL]"] by simp
  qed
  ultimately show ?thesis by blast
qed

text \<open>
  C37. Without Open Firmware the options are the default ones, so \<open>start\<close> on an AmigaOne, whenever \<open>amigaone_init\<close>
  returns, has the board and the serial port initialised, prints a new line and the version on it, sets up PCI and
  then boots with verbosity 5, in this order. The port is an 8250; what it sends until PCI is set up is exactly this
  text, none of the values that \<open>uart_init\<close> writes to its registers.
\<close>

theorem start_amigaone_path:
  assumes init: "amigaone_init (g5 e) (bd_addr e) (env_bus e) brd_zero (bar_state.extend (bar_zero h) \<lparr>amigaone.bd = bd_zero\<rparr>) m
      = Some (brd, s, m1)"
    and port: "uart_chip (env_bus e) 0xfe0003f8 dlab loop thre sent" and ver: "CHR 0x00 \<notin> set (verstag e)"
  shows "\<exists>h1. sent h1 = sent (hw s) @ crlf (NL # chars (verstag e) @ [NL]) \<and>
    start_amigaone e r m h f = returns (boot_step 5 (serial_console (env_bus e) 0xfe0003f8) None (nostr_addr e) (env_stack e) r brd m1
      (amigaone_setup (env_bus e) (s\<lparr>hw := h1\<rparr>)))"
proof -
  obtain r' where opts: "cfg_init (env_ci e) (replicate 128 0) (prom_off m1 f) = Some (Some (chars DEFAULT_OPTS @ 0 # r'), prom_off m1 f)"
    using default_options [of "env_ci e" m1 f] by blast
  have brd: "serial_base brd = 0xfe0003f8" "brd_setup brd = Some (\<lambda>m s. Done (m, amigaone_setup (env_bus e) s))"
    using init by (auto simp: amigaone_init_def Let_def bind_eq_Some_conv)
  have up: "uart_port (env_bus e) 0xfe0003f8 (\<lambda>h. \<not> dlab h \<and> \<not> loop h) thre sent" using port by (simp add: uart_chip_def)
  note after = uart_chip_init [OF port, of "hw s", simplified]
  obtain h1 where run: "run_options None (nostr_addr e) (verstag e) (env_stack e) r brd (serial_port (env_bus e) 0xfe0003f8)
        (chars DEFAULT_OPTS @ 0 # r') m1 s =
      bindO (Done (m1, amigaone_setup (env_bus e) (s\<lparr>hw := h1\<rparr>)))
        (\<lambda>(m, f). returns (boot_step 5 (serial_console (env_bus e) 0xfe0003f8) None (nostr_addr e) (env_stack e) r brd m f))"
    and prints: "\<forall>up thre sent. uart_port (env_bus e) 0xfe0003f8 up thre sent \<longrightarrow> 0xfe0003f8 \<noteq> (0 :: u32) \<longrightarrow>
      up (uart_init (env_bus e) 0xfe0003f8 (hw s)) \<longrightarrow>
      sent h1 = sent (uart_init (env_bus e) 0xfe0003f8 (hw s)) @ crlf (NL # chars (verstag e) @ [NL])"
    using default_run [OF ver brd(2), of "nostr_addr e" "env_stack e" r "env_bus e" "0xfe0003f8" r' m1 s] by blast
  have "sent h1 = sent (hw s) @ crlf (NL # chars (verstag e) @ [NL])"
    using prints [rule_format, OF up] after by simp
  with run show ?thesis
    unfolding start_amigaone_def init by (auto simp: opts brd(1))
qed

text \<open>Machines for the examples: one without memory, and one with 256 MB of it and a serial port.\<close>

definition example_env :: "(unit, unit) env" where
  "example_env = \<lparr>env_bus = \<lparr>bus_load = \<lambda>_ _ h. (0, h), bus_store = \<lambda>_ _ _ h. h\<rparr>,
     env_cpu = \<lparr>mtspr = \<lambda>_ _ h. h, mfspr = \<lambda>_ h. (0, h), mtdcr = \<lambda>_ _ h. h, tlbwe = \<lambda>_ _ _ h. h\<rparr>,
     env_ci = opts_ci [], bd_addr = 0x3000, bootargs_buf = 0x2000, nostr_addr = 0x1000, verstag = ''BBoot'', g5 = False,
     env_stack = \<lambda>_. 0\<rparr>"

definition uart_env :: "(uart_hw, unit) env" where
  "uart_env = \<lparr>env_bus = uart_bus 0x10000000 0xfe0003f8, env_cpu = \<lparr>mtspr = \<lambda>_ _ h. h, mfspr = \<lambda>_ h. (0, h), mtdcr = \<lambda>_ _ h. h, tlbwe = \<lambda>_ _ _ h. h\<rparr>,
     env_ci = opts_ci [], bd_addr = 0x3000, bootargs_buf = 0x2000, nostr_addr = 0x1000, verstag = ''BBoot'', g5 = False,
     env_stack = \<lambda>_. 0\<rparr>"

theorem start_enters_with_modules_witness:
  "hands_over 0x1000000 (start example_env \<lparr>r3 = 0, r4 = 0, r5 = 0, r6 = 0, r7 = 0, r8 = 1024\<rparr> (\<lambda>_. 0) () ())"
  by (rule start_enters_with_modules) simp

definition uart_start :: uart_hw where
  "uart_start = \<lparr>hw_ram = \<lambda>_. 0, hw_dlab = True, hw_loop = False, hw_tx = []\<rparr>"

lemma uart_env_init:
  "\<exists>brd s m'. amigaone_init False a (uart_bus 0x10000000 0xfe0003f8) brd0 s0 m = Some (brd, s, m') \<and> hw_tx (hw s) = hw_tx (hw s0)"
proof -
  let ?b = "uart_bus 0x10000000 0xfe0003f8" and ?P = "\<lambda>(m', h). hw_tx h = hw_tx (hw s0)"
  have "ram_below ?b 0x10000000"
    by (auto simp: ram_below_def uart_bus_def read32_def write32_def word_less_nat_alt)
  then have ram: "ram_below (with_ram ?b) (2 ^ 28)" using with_ram_below by fastforce
  have "\<not> search_word 0x10000000 0xfe0003f8" using search_256M(2) [of "0xfe0003f8"] by auto
  then have "stays (with_ram ?b) (search_word (2 ^ 28)) ?P"
    by (auto simp: stays_def with_ram_def uart_bus_def read32_def write32_def)
  then have "\<exists>h'. find_memory_size (with_ram ?b) 0 (m, hw s0) = Some (2 ^ 28, h') \<and> ?P h'"
    by (intro find_memory_size_pow2 [OF ram]) simp_all
  then show ?thesis by (auto simp: amigaone_init_def Let_def)
qed

theorem start_amigaone_path_witness:
  "\<exists>brd s m1 h1. hw_tx h1 = [13, 10, 0x42, 0x42, 0x6f, 0x6f, 0x74, 13, 10] \<and>
     start_amigaone uart_env \<lparr>r3 = 0, r4 = 0, r5 = 0, r6 = 0, r7 = 0, r8 = 1024\<rparr> (\<lambda>_. 0) uart_start () =
     returns (boot_step 5 (serial_console (env_bus uart_env) 0xfe0003f8) None 0x1000 (\<lambda>_. 0) \<lparr>r3 = 0, r4 = 0, r5 = 0, r6 = 0, r7 = 0, r8 = 1024\<rparr>
       brd m1 (amigaone_setup (env_bus uart_env) (s\<lparr>hw := h1\<rparr>)))"
proof -
  let ?r = "\<lparr>r3 = 0, r4 = 0, r5 = 0, r6 = 0, r7 = 0, r8 = 1024\<rparr>"
  let ?s0 = "bar_state.extend (bar_zero uart_start) \<lparr>amigaone.bd = bd_zero\<rparr>"
  have e: "env_bus uart_env = uart_bus 0x10000000 0xfe0003f8" "g5 uart_env = False" by (simp_all add: uart_env_def)
  have "hw_tx (hw ?s0) = []" by (simp add: bar_state.defs bar_zero_def uart_start_def)
  then obtain brd s m1 where init: "amigaone_init (g5 uart_env) (bd_addr uart_env) (env_bus uart_env) brd_zero ?s0 (\<lambda>_. 0) = Some (brd, s, m1)"
    and tx: "hw_tx (hw s) = []"
    using uart_env_init [of "bd_addr uart_env" brd_zero ?s0 "\<lambda>_. 0"] unfolding e by auto
  have "uart_chip (env_bus uart_env) 0xfe0003f8 hw_dlab hw_loop (\<lambda>_. True) hw_tx" unfolding e by (rule uart_bus_chip)
  from start_amigaone_path [OF init this, where r = ?r and f = "()"] show ?thesis
    using tx by (auto simp: uart_env_def crlf_def chars_def char_byte_def)
qed

end
