(* ===== verification/Boot_Kick.thy ===== *)
theory Boot_Kick
  imports BootAos Bar
begin

text \<open>
  \<open>boot_aos_zipkick()\<close> as a whole: an archive with a Kicklayout and the modules that it names is turned into
  the kick list. The text of the Kicklayout is a list of lines; \<open>config_section\<close> says which files a
  configuration consists of. The theorem says where the loader puts them and that the list links them in
  the order of the text.
\<close>

subsection \<open>Stretches of memory\<close>

definition span :: "nat \<Rightarrow> nat \<Rightarrow> u32 set" where
  "span lo hi = {x. lo \<le> unat x \<and> unat x < hi}"

lemma region_span: "lo + n \<le> 2 ^ 32 \<Longrightarrow> region (of_nat lo) n = span lo (lo + n)"
proof (cases "n = 0")
  case False
  assume le: "lo + n \<le> 2 ^ 32"
  with False have u: "unat (of_nat lo :: u32) = lo" by (intro unat_of_nat32) simp
  show ?thesis
  proof (rule set_eqI)
    fix x
    have "x \<in> region (of_nat lo) n" if "lo \<le> unat x" "unat x < lo + n"
    proof -
      have "x = of_nat lo + of_nat (unat x - lo)" using that(1) by (simp add: of_nat_diff)
      then show ?thesis using region_offset [of "unat x - lo" n "of_nat lo"] that by auto
    qed
    then show "x \<in> region (of_nat lo) n \<longleftrightarrow> x \<in> span lo (lo + n)"
      using region_unat [of x "of_nat lo" n] le u by (auto simp: span_def)
  qed
qed (simp add: span_def)

lemma span_disjoint: "hi \<le> lo' \<or> hi' \<le> lo \<Longrightarrow> span lo hi \<inter> span lo' hi' = {}"
  by (auto simp: span_def)

lemma apart_span: "lo + n \<le> 2 ^ 32 \<Longrightarrow> lo' + n' \<le> 2 ^ 32 \<Longrightarrow> lo + n \<le> lo' \<or> lo' + n' \<le> lo \<Longrightarrow> apart (of_nat lo) n (of_nat lo') n'"
  by (simp add: apart_def region_span span_disjoint)

lemma ROUND_UP_nat:
  assumes "n + 2 ^ k \<le> 2 ^ 32" "k < 32"
  shows "ROUND_UP (of_nat n) (2 ^ k) = of_nat ((n + (2 ^ k - 1)) div 2 ^ k * 2 ^ k)"
proof -
  let ?r = "(n + (2 ^ k - 1)) div 2 ^ k * 2 ^ k"
  have pos: "(0 :: nat) < 2 ^ k" by simp
  then have n: "unat (of_nat n :: u32) = n" using assms(1) by (intro unat_of_nat32) linarith
  have "?r \<le> n + (2 ^ k - 1)" by simp
  then have "?r < 2 ^ 32" using assms(1) pos by linarith
  moreover have "unat (ROUND_UP (of_nat n) (2 ^ k)) = ?r" using ROUND_UP_unat [of k "of_nat n"] assms n by simp
  ultimately show ?thesis by (simp only: eq_of_nat32)
qed

subsection \<open>Names\<close>

definition basename :: "u8 list \<Rightarrow> u8 list" where
  "basename xs = rev (takeWhile (\<lambda>c. c \<noteq> char_byte CHR ''/'') (rev xs))"

lemma strrchr_from_cstring:
  assumes "cstring s xs" "i \<le> length xs"
  shows "strrchr_from s c r i = Some (if c \<in> set (drop i xs)
      then Some (length xs - Suc (length (takeWhile (\<lambda>x. x \<noteq> c) (rev (drop i xs))))) else r)"
  using assms(2)
proof (induction "length xs - i" arbitrary: i r)
  case 0
  then show ?case using cstringD(3) [OF assms(1)] by (simp add: strrchr_from.simps)
next
  case (Suc k)
  then have i: "i < length xs" by simp
  then have "s i = xs ! i" "s i \<noteq> 0" using cstringD(1) cstring_nz assms(1) by blast+
  moreover have d: "drop i xs = xs ! i # drop (Suc i) xs" using i by (simp add: Cons_nth_drop_Suc)
  moreover have "length xs - Suc (length (takeWhile (\<lambda>x. x \<noteq> c) (rev (drop (Suc i) xs) @ [c]))) = i" if "c \<notin> set (drop (Suc i) xs)"
  proof -
    have "takeWhile (\<lambda>x. x \<noteq> c) (rev (drop (Suc i) xs) @ [c]) = rev (drop (Suc i) xs)" using that by (subst takeWhile_append2) auto
    then show ?thesis using i by simp
  qed
  ultimately show ?case
    using Suc.hyps(1) [of "Suc i"] Suc.hyps(2) i by (auto simp: strrchr_from.simps [of s c r i] takeWhile_append)
qed

lemma cstring_suffix:
  assumes "cstring (at m p) (ys @ zs)"
  shows "cstring (at m (p + of_nat (length ys))) zs"
  using assms
proof (induction ys arbitrary: p)
  case (Cons y ys)
  then show ?case using Cons.IH [of "p + 1"] by (simp add: cstring_at_Cons add.assoc)
qed simp

lemma basename_split:
  obtains ys where "xs = ys @ basename xs" "char_byte CHR ''/'' \<in> set xs \<longleftrightarrow> ys \<noteq> []"
proof
  let ?P = "\<lambda>c. c \<noteq> char_byte CHR ''/''"
  have "rev xs = takeWhile ?P (rev xs) @ dropWhile ?P (rev xs)" by simp
  then show "xs = rev (dropWhile ?P (rev xs)) @ basename xs"
    unfolding basename_def rev_append [symmetric] by simp
  show "char_byte CHR ''/'' \<in> set xs \<longleftrightarrow> rev (dropWhile ?P (rev xs)) \<noteq> []" by (auto simp: dropWhile_eq_Nil_conv)
qed

lemma name_pointer:
  assumes "cstring (at m p) xs"
  shows "\<exists>r. strrchr (at m p) (char_byte CHR ''/'') = Some r \<and>
    cstring (at m (case r of None \<Rightarrow> p | Some i \<Rightarrow> p + of_nat i + 1)) (basename xs) \<and>
    region (case r of None \<Rightarrow> p | Some i \<Rightarrow> p + of_nat i + 1) (Suc (length (basename xs))) \<subseteq> region p (Suc (length xs))"
proof -
  obtain ys where ys: "xs = ys @ basename xs" "char_byte CHR ''/'' \<in> set xs \<longleftrightarrow> ys \<noteq> []" by (rule basename_split)
  have r: "strrchr (at m p) (char_byte CHR ''/'') = Some (if ys \<noteq> [] then Some (length xs - Suc (length (basename xs))) else None)"
    using strrchr_from_cstring [OF assms, of 0 "char_byte CHR ''/''" None] ys(2) by (simp add: strrchr_def basename_def)
  have len: "length xs = length ys + length (basename xs)" using arg_cong [OF ys(1), of length] by simp
  have suf: "cstring (at m (p + of_nat (length ys))) (basename xs)" using cstring_suffix [of m p ys "basename xs"] assms ys(1) by simp
  have reg: "region (p + of_nat (length ys)) (Suc (length (basename xs))) \<subseteq> region p (Suc (length xs))"
    using len by (intro region_sub) simp
  show ?thesis
  proof (cases ys)
    case (Cons y zs)
    then have "p + of_nat (length xs - Suc (length (basename xs))) + 1 = p + of_nat (length ys)" using len by simp
    then show ?thesis using r suf reg Cons by (simp add: ac_simps)
  qed (use r suf reg in simp)
qed

subsection \<open>Modules in the kick list\<close>

text \<open>A module: where its header and its contents are, its number and the file it comes from.\<close>

record item =
  it_head :: nat
  it_data :: nat
  it_id :: u16
  it_file :: zentry

definition head_size :: "zentry \<Rightarrow> nat" where
  "head_size e = 36 + length (basename (zname e)) + 1"

definition header_of :: "item \<Rightarrow> module_t" where
  "header_of it = (let h = of_nat (it_head it) in
     \<lparr>mod_name = h + 36, mod_options = 0, mod_id = it_id it, mod_flags = 3, mod_alloc = h + 20,
      mod_dealloc = h + 24, mod_address = of_nat (it_data it), mod_size = of_nat (length (zdata (it_file it)))\<rparr>)"

definition loaded :: "mem \<Rightarrow> item \<Rightarrow> bool" where
  "loaded m it \<longleftrightarrow> module_at m (of_nat (it_head it)) = header_of it \<and>
     cstring (at m (of_nat (it_head it) + 36)) (basename (zname (it_file it))) \<and>
     bytes m (of_nat (it_data it)) (length (zdata (it_file it))) = zdata (it_file it)"

text \<open>What must not change in a module: all but the list node.\<close>

definition body :: "item \<Rightarrow> u32 set" where
  "body it = span (it_head it + 8) (it_head it + head_size (it_file it)) \<union> span (it_data it) (it_data it + length (zdata (it_file it)))"

definition in_memory :: "item \<Rightarrow> bool" where
  "in_memory it \<longleftrightarrow> it_head it + head_size (it_file it) \<le> 2 ^ 32 \<and> it_data it + length (zdata (it_file it)) \<le> 2 ^ 32"

lemma body_regions:
  assumes "in_memory it"
  shows "region (of_nat (it_head it) + 8) 28 \<subseteq> body it"
    "region (of_nat (it_head it) + 36) (Suc (length (basename (zname (it_file it))))) \<subseteq> body it"
    "region (of_nat (it_data it)) (length (zdata (it_file it))) \<subseteq> body it"
proof -
  let ?h = "it_head it" and ?n = "length (basename (zname (it_file it)))"
  have lim: "?h + (37 + ?n) \<le> 2 ^ 32" using assms by (simp add: in_memory_def head_size_def)
  have "region (of_nat (?h + 8)) 28 = span (?h + 8) (?h + 8 + 28)" by (rule region_span) (use lim in linarith)
  also have "\<dots> \<subseteq> body it" by (auto simp: body_def span_def head_size_def)
  finally show "region (of_nat ?h + 8) 28 \<subseteq> body it" by simp
  have "region (of_nat (?h + 36)) (Suc ?n) = span (?h + 36) (?h + 36 + Suc ?n)" by (rule region_span) (use lim in linarith)
  also have "\<dots> \<subseteq> body it" by (auto simp: body_def span_def head_size_def)
  finally show "region (of_nat ?h + 36) (Suc ?n) \<subseteq> body it" by simp
  show "region (of_nat (it_data it)) (length (zdata (it_file it))) \<subseteq> body it"
    using assms region_span [of "it_data it" "length (zdata (it_file it))"] unfolding in_memory_def body_def by blast
qed

lemma loaded_frame:
  assumes "loaded m it" "in_memory it" "\<And>x. x \<in> body it \<Longrightarrow> m' x = m x"
  shows "loaded m' it"
proof -
  note b = body_regions [OF assms(2)] and l = assms(1) [unfolded loaded_def]
  have "module_at m' (of_nat (it_head it)) = header_of it"
    using b(1) assms(3) l by (subst module_at_cong [of _ m' m]) blast+
  moreover have "cstring (at m' (of_nat (it_head it) + 36)) (basename (zname (it_file it)))"
    by (rule cstring_at_cong [of m]) (use l b(2) assms(3) in blast)+
  moreover have "bytes m' (of_nat (it_data it)) (length (zdata (it_file it))) = zdata (it_file it)"
    using b(3) assms(3) l by (subst bytes_cong [of _ _ m' m]) blast+
  ultimately show ?thesis unfolding loaded_def by blast
qed

text \<open>Headers one above the other, from \<open>lo\<close> to \<open>hi\<close>.\<close>

fun stacked :: "nat \<Rightarrow> nat list \<Rightarrow> nat \<Rightarrow> bool" where
  "stacked lo [] hi \<longleftrightarrow> lo \<le> hi"
| "stacked lo (h # hs) hi \<longleftrightarrow> lo \<le> h \<and> stacked (h + 8) hs hi"

lemma stacked_bounds: "stacked lo hs hi \<Longrightarrow> lo \<le> hi \<and> (\<forall>h\<in>set hs. lo \<le> h \<and> h + 8 \<le> hi)"
  by (induction hs arbitrary: lo) force+

lemma stacked_snoc: "stacked lo hs av \<Longrightarrow> av \<le> h \<Longrightarrow> h + 8 \<le> hi \<Longrightarrow> stacked lo (hs @ [h]) hi"
  by (induction hs arbitrary: lo) auto

abbreviation heads :: "nat list \<Rightarrow> u32 list" where "heads hs \<equiv> map of_nat hs"

lemma node_span: "h + 8 \<le> 2 ^ 32 \<Longrightarrow> node_area (of_nat h) = span h (h + 8)"
  by (simp add: node_area_def region_span)

lemma stacked_layout_aux:
  "stacked lo hs hi \<Longrightarrow> 0 < lo \<Longrightarrow> hi \<le> 2 ^ 32 \<Longrightarrow>
   0 \<notin> set (heads hs) \<and> distinct (heads hs) \<and> (\<forall>n\<in>set (heads hs). \<forall>k\<in>set (heads hs). n \<noteq> k \<longrightarrow> node_area n \<inter> node_area k = {})"
proof (induction hs arbitrary: lo)
  case (Cons h hs)
  have st: "stacked (h + 8) hs hi" "lo \<le> h" using Cons.prems(1) by simp_all
  note b = stacked_bounds [OF st(1)]
  have u: "unat (of_nat g :: u32) = g" if "g \<in> set (h # hs)" for g
    using that b Cons.prems(3) by (intro unat_of_nat32) auto
  have "of_nat h \<noteq> (0 :: u32)" using u [of h] st(2) Cons.prems(2) by (metis bot_nat_0.not_eq_extremum le_zero_eq list.set_intros(1) not_less_zero unat_0)
  moreover have "of_nat h \<noteq> (of_nat g :: u32)" if "g \<in> set hs" for g
    using u [of h] u [of g] that b by (metis Suc_eq_plus1 add_le_same_cancel1 list.set_intros not_numeral_le_zero)
  moreover have "node_area (of_nat h) \<inter> node_area (of_nat g) = {}" if "g \<in> set hs" for g
    using b that Cons.prems(3) by (subst (1 2) node_span) (auto intro!: span_disjoint)
  moreover have "0 < h + 8" by simp
  note ih = Cons.IH [OF st(1) this Cons.prems(3)]
  ultimately show ?case using ih by (auto simp: Int_commute)
qed simp

text \<open>The list header is at \<open>k\<close>, the headers of the modules between it and \<open>hi\<close>.\<close>

lemma list_span:
  assumes "stacked (k + 12) hs hi" "hi \<le> 2 ^ 32"
  shows "list_area (of_nat k) (heads hs) = span k (k + 12) \<union> \<Union> ((\<lambda>h. span h (h + 8)) ` set hs)"
proof -
  note b = stacked_bounds [OF assms(1)]
  have "region (of_nat k) 12 = span k (k + 12)" using b assms(2) by (intro region_span) linarith
  moreover have "node_area (of_nat h) = span h (h + 8)" if "h \<in> set hs" for h
    using b that assms(2) by (intro node_span) (meson order_trans)
  ultimately show ?thesis by (simp add: list_area_def)
qed

lemma list_span_sub:
  assumes "stacked (k + 12) hs hi" "hi \<le> 2 ^ 32"
  shows "list_area (of_nat k) (heads hs) \<subseteq> span k hi"
  unfolding list_span [OF assms] using stacked_bounds [OF assms(1)] by (force simp: span_def)

lemma stacked_layout:
  assumes "stacked (k + 12) hs hi" "hi \<le> 2 ^ 32"
  shows "layout (of_nat k) (heads hs)"
proof -
  note b = stacked_bounds [OF assms(1)]
  have "unat (of_nat (k + 4) :: u32) = k + 4" using b assms(2) by (intro unat_of_nat32) linarith
  then have "of_nat k + 4 \<noteq> (0 :: u32)" by (metis add_eq_0_iff_both_eq_0 of_nat_add of_nat_numeral unat_0 zero_neq_numeral)
  moreover have "region (of_nat k) 12 \<inter> node_area n = {}" if "n \<in> set (heads hs)" for n
  proof -
    obtain h where h: "h \<in> set hs" "n = of_nat h" using \<open>n \<in> set (heads hs)\<close> by auto
    then have "k + 12 \<le> h" "h + 8 \<le> 2 ^ 32" using b assms(2) by fastforce+
    then show ?thesis unfolding h(2) using region_span [of k 12] by (simp add: node_span span_disjoint)
  qed
  ultimately show ?thesis using stacked_layout_aux [OF assms(1) _ assms(2)] unfolding layout_def by simp
qed

text \<open>
  The kick list at \<open>k\<close> with the modules \<open>its\<close>, in the memory from \<open>k\<close> to \<open>hi\<close> and, for contents, in \<open>X\<close>.
\<close>

definition kicked :: "mem \<Rightarrow> nat \<Rightarrow> nat \<Rightarrow> u32 set \<Rightarrow> item list \<Rightarrow> bool" where
  "kicked m k hi X its \<longleftrightarrow> alist m (of_nat k) (heads (map it_head its)) \<and> stacked (k + 12) (map it_head its) hi \<and> hi \<le> 2 ^ 32 \<and>
     (\<forall>it\<in>set its. loaded m it \<and> in_memory it \<and> body it \<subseteq> span k hi \<union> X \<and>
        body it \<inter> list_area (of_nat k) (heads (map it_head its)) = {})"

lemma kicked_frame:
  assumes "kicked m k hi X its" "\<And>x. x \<in> span k hi \<union> X \<Longrightarrow> m' x = m x"
  shows "kicked m' k hi X its"
proof -
  have k: "stacked (k + 12) (map it_head its) hi" "hi \<le> 2 ^ 32" using assms(1) by (simp_all add: kicked_def)
  have "alist m' (of_nat k) (heads (map it_head its))"
    by (rule alist_frame [of m]) (use assms list_span_sub [OF k] in \<open>auto simp: kicked_def\<close>)
  moreover have "loaded m' it" if "it \<in> set its" for it
    by (rule loaded_frame [of m]) (use assms that in \<open>auto simp: kicked_def\<close>)
  ultimately show ?thesis using assms(1) by (simp add: kicked_def)
qed

lemma kicked_init:
  assumes "k + 12 \<le> 2 ^ 32"
  shows "kicked (alist_init m (of_nat k)) k (k + 12) X []"
  using assms alist_init_empty by (simp add: kicked_def)

text \<open>Setting the number of the module to 1 for the first one.\<close>

lemma module_id: "module_at (put_be16 m (h + 16) v) h = (module_at m h)\<lparr>mod_id := v\<rparr>"
  by (simp add: module_at_def mem_simps)

definition header_span :: "item \<Rightarrow> u32 set" where
  "header_span it = span (it_head it) (it_head it + head_size (it_file it))"

lemma header_span_eq: "in_memory it \<Longrightarrow> module_area (of_nat (it_head it)) (length (basename (zname (it_file it)))) = header_span it"
  unfolding module_area_def header_span_def head_size_def
  by (rule region_span) (simp add: in_memory_def head_size_def)

text \<open>The list that \<open>add_module()\<close> and the number of the module leave behind.\<close>

lemma add_item:
  assumes al: "alist m (of_nat k) (heads hs)" "stacked (k + 12) hs av" "av \<le> it_head it" "it_head it + head_size (it_file it) \<le> hi" "hi \<le> 2 ^ 32"
    and mem: "in_memory it" and id: "it_id it = 1 \<or> it_id it = 2"
    and nm: "cstring (at m nm) (basename (zname (it_file it)))" "region nm (Suc (length (basename (zname (it_file it))))) \<inter> span k hi = {}"
  shows "\<exists>m1 m'. add_module m (of_nat k) (of_nat (it_head it)) (of_nat (it_data it)) (of_nat (length (zdata (it_file it)))) nm = Some m1 \<and>
    m' = (if it_id it = 1 then put_be16 m1 (of_nat (it_head it) + 16) 1 else m1) \<and>
    alist m' (of_nat k) (heads (hs @ [it_head it])) \<and> module_at m' (of_nat (it_head it)) = header_of it \<and>
    cstring (at m' (of_nat (it_head it) + 36)) (basename (zname (it_file it))) \<and>
    (\<forall>x. x \<notin> header_span it \<and> x \<notin> list_area (of_nat k) (heads hs) \<longrightarrow> m' x = m x)"
proof -
  let ?h = "of_nat (it_head it) :: u32" and ?xs = "basename (zname (it_file it))"
  have hs: "list_area (of_nat k) (heads hs) \<subseteq> span k av" using al by (intro list_span_sub) simp_all
  have k: "k + 12 \<le> av" using stacked_bounds [OF al(2)] by simp
  have st: "stacked (k + 12) (hs @ [it_head it]) hi" using al by (intro stacked_snoc [OF al(2)]) (simp_all add: head_size_def)
  have lay: "layout (of_nat k) (heads hs @ [?h])" using stacked_layout [OF st al(5)] by simp
  have ap1: "module_area ?h (length ?xs) \<inter> list_area (of_nat k) (heads hs) = {}"
    unfolding header_span_eq [OF mem] using hs al(3) by (auto simp: header_span_def span_def)
  have "region (?h + 36) (Suc (length ?xs)) \<subseteq> header_span it"
    using region_parts(2) [of ?h "length ?xs"] header_span_eq [OF mem] by simp
  also have "\<dots> \<subseteq> span k hi" using al(3,4) k by (auto simp: header_span_def span_def)
  finally have ap2: "apart (?h + 36) (Suc (length ?xs)) nm (Suc (length ?xs))" using nm(2) by (auto simp: apart_def)
  have lim: "36 + length ?xs + 1 \<le> 2 ^ 32" using mem by (simp add: in_memory_def head_size_def)
  obtain m1 where m1: "add_module m (of_nat k) ?h (of_nat (it_data it)) (of_nat (length (zdata (it_file it)))) nm = Some m1"
    "alist m1 (of_nat k) (heads (hs @ [it_head it]))" "module_at m1 ?h = (header_of it)\<lparr>mod_id := 2\<rparr>" "cstring (at m1 (?h + 36)) ?xs"
    "\<forall>x. x \<notin> header_span it \<and> x \<notin> list_area (of_nat k) (heads hs) \<longrightarrow> m1 x = m x"
    using add_module_run [OF al(1) lay nm(1) ap1 lim ap2, of "of_nat (it_data it)" "of_nat (length (zdata (it_file it)))"]
    by (auto simp: header_span_eq [OF mem] header_of_def Let_def)
  define m' where "m' = (if it_id it = 1 then put_be16 m1 (?h + 16) 1 else m1)"
  have idr: "region (?h + 16) 2 = span (it_head it + 16) (it_head it + 18)"
    using region_span [of "it_head it + 16" 2] mem by (simp add: in_memory_def head_size_def add.commute)
  have fr: "m' x = m1 x" if "x \<notin> span (it_head it + 16) (it_head it + 18)" for x
    using that by (simp add: m'_def put_be16_frame idr)
  have "alist m' (of_nat k) (heads (hs @ [it_head it]))"
  proof (rule alist_frame [OF m1(2)], rule fr)
    fix x assume "x \<in> list_area (of_nat k) (heads (hs @ [it_head it]))"
    then show "x \<notin> span (it_head it + 16) (it_head it + 18)"
      using stacked_bounds [OF al(2)] al(3) unfolding list_span [OF st al(5)] by (fastforce simp: span_def)
  qed
  moreover have "module_at m' ?h = header_of it"
    using id m1(3) by (cases "it_id it = 1") (auto simp: m'_def module_id header_of_def Let_def)
  moreover have "cstring (at m' (?h + 36)) ?xs"
  proof (rule cstring_at_cong [OF m1(4)], rule fr)
    fix x assume "x \<in> region (?h + 36) (Suc (length ?xs))"
    moreover have "region (?h + 36) (Suc (length ?xs)) = span (it_head it + 36) (it_head it + 36 + Suc (length ?xs))"
      using region_span [of "it_head it + 36" "Suc (length ?xs)"] mem by (simp add: in_memory_def head_size_def)
    ultimately show "x \<notin> span (it_head it + 16) (it_head it + 18)" by (auto simp: span_def)
  qed
  moreover have "\<forall>x. x \<notin> header_span it \<and> x \<notin> list_area (of_nat k) (heads hs) \<longrightarrow> m' x = m x"
    using m1(5) fr by (auto simp: header_span_def span_def head_size_def)
  ultimately show ?thesis using m1(1) m'_def by blast
qed

text \<open>The modules that were in the list before, when only the list and the new header change.\<close>

lemma kicked_old:
  assumes K: "kicked m k av X its" and it: "av \<le> it_head it" "it_head it + head_size (it_file it) \<le> hi" and X: "X \<inter> span k hi = {}"
    and fr: "\<And>x. x \<notin> header_span it \<Longrightarrow> x \<notin> list_area (of_nat k) (heads (map it_head its)) \<Longrightarrow> m' x = m x" and i: "i \<in> set its"
  shows "loaded m' i" "in_memory i" "body i \<subseteq> span k hi \<union> X" "body i \<inter> (list_area (of_nat k) (heads (map it_head its)) \<union> header_span it) = {}"
proof -
  have *: "loaded m i" "in_memory i" "body i \<subseteq> span k av \<union> X" "body i \<inter> list_area (of_nat k) (heads (map it_head its)) = {}"
    using K i by (simp_all add: kicked_def)
  have k: "k + 12 \<le> av" using stacked_bounds [of "k + 12"] K by (auto simp: kicked_def)
  have "span k av \<inter> header_span it = {}" "span k av \<subseteq> span k hi" "header_span it \<subseteq> span k hi"
    using it k by (auto simp: header_span_def span_def head_size_def)
  then show h: "body i \<subseteq> span k hi \<union> X" "body i \<inter> (list_area (of_nat k) (heads (map it_head its)) \<union> header_span it) = {}"
    using *(3,4) X by blast+
  show "in_memory i" by (rule *)
  show "loaded m' i" using h(2) fr by (intro loaded_frame [OF *(1,2)]) blast
qed

text \<open>The new module: its contents are apart from the list and from its header.\<close>

lemma new_body:
  assumes al: "stacked (k + 12) hs av" "av \<le> 2 ^ 32" and it: "av \<le> it_head it" "it_head it + head_size (it_file it) \<le> hi" and X: "X \<inter> span k hi = {}"
    and sub: "span (it_data it) (it_data it + length (zdata (it_file it))) \<subseteq> span av (it_head it) \<union> X" (is "?d \<subseteq> _")
  shows "?d \<inter> header_span it = {}" "?d \<inter> list_area (of_nat k) (heads hs) = {}" "body it \<subseteq> span k hi \<union> X"
    "body it \<inter> (list_area (of_nat k) (heads hs) \<union> span (it_head it) (it_head it + 8)) = {}"
proof -
  have k: "k + 12 \<le> av" using stacked_bounds [OF al(1)] by simp
  have la: "list_area (of_nat k) (heads hs) \<subseteq> span k av" by (rule list_span_sub [OF al])
  let ?h = "span (it_head it + 8) (it_head it + head_size (it_file it))"
  have h: "?h \<subseteq> header_span it" "?h \<inter> span (it_head it) (it_head it + 8) = {}" "span (it_head it) (it_head it + 8) \<subseteq> header_span it"
    by (auto simp: header_span_def span_def head_size_def)
  have s: "span av (it_head it) \<inter> header_span it = {}" "span av (it_head it) \<inter> span k av = {}" "span av (it_head it) \<subseteq> span k hi"
    "span k av \<subseteq> span k hi" "header_span it \<subseteq> span k hi" "header_span it \<inter> span k av = {}"
    using it k by (auto simp: header_span_def span_def head_size_def)
  show d: "?d \<inter> header_span it = {}" "?d \<inter> list_area (of_nat k) (heads hs) = {}" using sub X la s by blast+
  show "body it \<subseteq> span k hi \<union> X" using sub s h by (auto simp: body_def)
  show "body it \<inter> (list_area (of_nat k) (heads hs) \<union> span (it_head it) (it_head it + 8)) = {}"
    using h s la d unfolding body_def by blast
qed

lemma kicked_add:
  assumes K: "kicked m k av X its" and it: "av \<le> it_head it" "it_head it + head_size (it_file it) \<le> hi" "hi \<le> 2 ^ 32"
    and mem: "in_memory it" and id: "it_id it = 1 \<or> it_id it = 2" and X: "X \<inter> span k hi = {}"
    and nm: "cstring (at m nm) (basename (zname (it_file it)))" "region nm (Suc (length (basename (zname (it_file it))))) \<inter> span k hi = {}"
    and data: "bytes m (of_nat (it_data it)) (length (zdata (it_file it))) = zdata (it_file it)"
      "span (it_data it) (it_data it + length (zdata (it_file it))) \<subseteq> span av (it_head it) \<union> X"
  shows "\<exists>m1 m'. add_module m (of_nat k) (of_nat (it_head it)) (of_nat (it_data it)) (of_nat (length (zdata (it_file it)))) nm = Some m1 \<and>
    m' = (if it_id it = 1 then put_be16 m1 (of_nat (it_head it) + 16) 1 else m1) \<and>
    kicked m' k hi X (its @ [it]) \<and> (\<forall>x. x \<notin> span k hi \<longrightarrow> m' x = m x)"
proof -
  let ?hs = "map it_head its" and ?d = "span (it_data it) (it_data it + length (zdata (it_file it)))"
  have al: "alist m (of_nat k) (heads ?hs)" "stacked (k + 12) ?hs av" "av \<le> 2 ^ 32" using K by (simp_all add: kicked_def)
  obtain m1 m' where m: "add_module m (of_nat k) (of_nat (it_head it)) (of_nat (it_data it)) (of_nat (length (zdata (it_file it)))) nm = Some m1"
    "m' = (if it_id it = 1 then put_be16 m1 (of_nat (it_head it) + 16) 1 else m1)"
    "alist m' (of_nat k) (heads (?hs @ [it_head it]))" "module_at m' (of_nat (it_head it)) = header_of it"
    "cstring (at m' (of_nat (it_head it) + 36)) (basename (zname (it_file it)))"
    and fr: "\<And>x. x \<notin> header_span it \<Longrightarrow> x \<notin> list_area (of_nat k) (heads ?hs) \<Longrightarrow> m' x = m x"
    using add_item [OF al(1,2) it mem id nm] by blast
  have st: "stacked (k + 12) (?hs @ [it_head it]) hi" using it by (intro stacked_snoc [OF al(2)]) (simp_all add: head_size_def)
  have la: "list_area (of_nat k) (heads ?hs) \<subseteq> span k av" by (rule list_span_sub [OF al(2,3)])
  have la': "list_area (of_nat k) (heads (?hs @ [it_head it])) = list_area (of_nat k) (heads ?hs) \<union> span (it_head it) (it_head it + 8)"
    unfolding list_span [OF st it(3)] list_span [OF al(2,3)] by auto
  have hd: "span (it_head it) (it_head it + 8) \<subseteq> header_span it" by (auto simp: header_span_def span_def head_size_def)
  note new = new_body [OF al(2,3) it(1,2) X data(2)] and old = kicked_old [OF K it(1,2) X fr]
  have dr: "region (of_nat (it_data it)) (length (zdata (it_file it))) = ?d" using mem by (intro region_span) (simp add: in_memory_def)
  have "bytes m' (of_nat (it_data it)) (length (zdata (it_file it))) = zdata (it_file it)"
    using data(1) new(1,2) fr unfolding dr [symmetric] by (subst bytes_cong [of _ _ m' m]) blast+
  then have lo: "loaded m' it" using m(4,5) unfolding loaded_def by blast
  have "span k av \<subseteq> span k hi" "header_span it \<subseteq> span k hi" using it stacked_bounds [OF al(2)] by (auto simp: header_span_def span_def head_size_def)
  then have "\<forall>x. x \<notin> span k hi \<longrightarrow> m' x = m x" using fr la by blast
  moreover have "\<forall>i\<in>set its. loaded m' i \<and> in_memory i \<and> body i \<subseteq> span k hi \<union> X \<and> body i \<inter> list_area (of_nat k) (heads (?hs @ [it_head it])) = {}"
    using old hd unfolding la' by blast
  moreover note m(3) st it(3) lo mem new(3) new(4) [folded la']
  ultimately have "kicked m' k hi X (its @ [it])" unfolding kicked_def by auto
  then show ?thesis using m(1,2) \<open>\<forall>x. x \<notin> span k hi \<longrightarrow> m' x = m x\<close> by blast
qed

subsection \<open>Loading a module\<close>

definition packed :: "zentry \<Rightarrow> bool" where
  "packed e \<longleftrightarrow> length (zdata e) \<le> 2 ^ 31 \<and> (zmethod e = 8 \<longrightarrow> deflated (zpayload e) (zdata e))"

text \<open>The archive is there, and the structure \<open>z\<close> points into it.\<close>

definition zip_span :: "u32 \<Rightarrow> zentry list \<Rightarrow> u32 set" where
  "zip_span a es = span (unat a) (unat a + length (zip_image es))"

definition booting :: "u32 \<Rightarrow> zentry list \<Rightarrow> 'f boot \<Rightarrow> bool" where
  "booting a es s \<longleftrightarrow> archive (bmem s) a es \<and> statics_ok (bw s) \<and> (\<exists>j. bz s = dir_at a es j)"

lemma zip_span_region: "archive m a es \<Longrightarrow> region a (length (zip_image es)) = zip_span a es"
  using region_span [of "unat a" "length (zip_image es)"] by (simp add: archive_def zip_span_def)

lemma archive_frame:
  assumes "archive m a es" "\<And>x. x \<in> zip_span a es \<Longrightarrow> m' x = m x"
  shows "archive m' a es"
  using assms zip_span_region [OF assms(1)] bytes_cong [of a "length (zip_image es)" m' m] by (auto simp: archive_def)

lemma booting_mem:
  assumes "booting a es s" "\<And>x. x \<in> zip_span a es \<Longrightarrow> m x = bmem s x"
  shows "booting a es (set_mem m s)"
  using assms archive_frame [of "bmem s" a es m] by (auto simp: booting_def set_mem_def statics_ok_def)

lemma do_claim_ok:
  assumes "grants brd lim (bf s)" "unat ad + unat sz < lim"
  shows "do_claim brd ad sz s = Some (Inr ad, s)"
  using assms by (simp add: do_claim_def grants_def set_mem_def)

lemma find_from_dir:
  assumes "archive m a es"
  shows "zip_file_find m (dir_at a es j) p = zip_file_find m (opened a es) p"
  using opened_er_nz [OF assms] by (simp add: zip_file_find_def dir_at_def opened_def no_wrap_def)

lemma find_file_ok:
  assumes "booting a es s" "k < length es" "cstring p (zname (es ! k))" "\<And>j. j < k \<Longrightarrow> zname (es ! j) \<noteq> zname (es ! k)"
  shows "find_file p s = Some (Inr (), s\<lparr>bz := dir_at a es (Suc k)\<rparr>)" "booting a es (s\<lparr>bz := dir_at a es (Suc k)\<rparr>)"
proof -
  obtain j where j: "archive (bmem s) a es" "bz s = dir_at a es j" using assms(1) by (auto simp: booting_def)
  show "find_file p s = Some (Inr (), s\<lparr>bz := dir_at a es (Suc k)\<rparr>)"
    using find_archive [OF j(1) assms(2-4)] find_from_dir [OF j(1)] j(2) by (simp add: find_file_def)
  show "booting a es (s\<lparr>bz := dir_at a es (Suc k)\<rparr>)" using assms(1) by (auto simp: booting_def)
qed

lemma find_file_missing:
  assumes "booting a es s" "cstring p xs" "length xs < 2 ^ 32" "xs \<notin> zname ` set es"
  shows "\<exists>s'. find_file p s = Some (Inl File_not_found, s')"
proof -
  obtain j where j: "archive (bmem s) a es" "bz s = dir_at a es j" using assms(1) by (auto simp: booting_def)
  show ?thesis using find_missing [OF j(1) assms(2-4)] find_from_dir [OF j(1)] j(2) by (auto simp: find_file_def)
qed

lemma size_ok_file:
  assumes "booting a es s" "k < length es" "bz s = dir_at a es (Suc k)"
  shows "zip_file_uncompressedSize (bmem s) (bz s) = of_nat (length (zdata (es ! k)))"
  using gfh_read(3) [OF archive_gfh(1), of "bmem s" a es k] assms
  by (simp add: booting_def zip_file_uncompressedSize_def dir_at_def)

lemma extract_file:
  assumes s: "booting a es s" "k < length es" "bz s = dir_at a es (Suc k)" and e: "packed (es ! k)"
    and d: "0 < d" "d + length (zdata (es ! k)) \<le> 2 ^ 32" "zip_span a es \<inter> span d (d + length (zdata (es ! k))) = {}" "d < 2 ^ 32"
  shows "\<exists>s'. extract_to (of_nat d) s = Some (Inr (), s') \<and> booting a es s' \<and> bz s' = bz s \<and> bf s' = bf s \<and>
    bytes (bmem s') (of_nat d) (length (zdata (es ! k))) = zdata (es ! k) \<and>
    (\<forall>x. x \<notin> span d (d + length (zdata (es ! k))) \<longrightarrow> bmem s' x = bmem s x)"
proof -
  have ar: "archive (bmem s) a es" "statics_ok (bw s)" using s(1) by (simp_all add: booting_def)
  have r: "region (of_nat d) (length (zdata (es ! k))) = span d (d + length (zdata (es ! k)))" by (rule region_span [OF d(2)])
  have ap: "apart a (length (zip_image es)) (of_nat d) (length (zdata (es ! k)))"
    using d(3) zip_span_region [OF ar(1)] r by (simp add: apart_def)
  have nz: "of_nat d \<noteq> (0 :: u32)" using d(1,4) by (metis less_not_refl unat_0 unat_of_nat32)
  have e': "length (zdata (es ! k)) \<le> 2 ^ 32 - 2 ^ 16" "zmethod (es ! k) = 8 \<Longrightarrow> deflated (zpayload (es ! k)) (zdata (es ! k))"
    using e by (simp_all add: packed_def)
  obtain w' where w: "zip_file_extract (bw s) (dir_at a es (Suc k)) (of_nat d) = (Inr Z_OK, w')"
    "bytes (mem w') (of_nat d) (length (zdata (es ! k))) = zdata (es ! k)"
    "\<forall>x. x \<notin> span d (d + length (zdata (es ! k))) \<longrightarrow> mem w' x = bmem s x" "statics_ok w'"
    using extract_contents [OF ar(1) s(2) nz ar(2) e' ap] r by auto
  have "archive (mem w') a es" by (rule archive_frame [OF ar(1)]) (use w(3) d(3) in blast)
  then have "booting a es (s\<lparr>bw := w'\<rparr>)" using w(4) s(3) by (auto simp: booting_def)
  then show ?thesis using w s(3) by (intro exI [of _ "s\<lparr>bw := w'\<rparr>"]) (simp add: extract_to_def)
qed

text \<open>Sizes as the code rounds them up.\<close>

definition round_up :: "nat \<Rightarrow> nat \<Rightarrow> nat" where
  "round_up n k = (n + (2 ^ k - 1)) div 2 ^ k * 2 ^ k"

lemma round_up_bounds: "n \<le> round_up n k" "round_up n k < n + 2 ^ k"
proof -
  have "(n + (2 ^ k - 1)) mod 2 ^ k < 2 ^ k" by simp
  moreover have "(n + (2 ^ k - 1)) div 2 ^ k * 2 ^ k + (n + (2 ^ k - 1)) mod 2 ^ k = n + (2 ^ k - 1)" by (rule div_mult_mod_eq)
  moreover have "(0 :: nat) < 2 ^ k" by simp
  ultimately show "n \<le> round_up n k" "round_up n k < n + 2 ^ k" unfolding round_up_def by linarith+
qed

definition exec_room :: "zentry \<Rightarrow> nat" where
  "exec_room e = round_up (head_size e) 5"

definition module_room :: "zentry \<Rightarrow> nat" where
  "module_room e = round_up (round_up (length (zdata e)) 2 + head_size e) 5"

text \<open>The places of the first module, whose contents go to \<open>x\<close>, and of the others.\<close>

definition exec_item :: "nat \<Rightarrow> nat \<Rightarrow> zentry \<Rightarrow> item" where
  "exec_item x av e = \<lparr>it_head = av, it_data = x, it_id = 1, it_file = e\<rparr>"

definition module_item :: "nat \<Rightarrow> zentry \<Rightarrow> item" where
  "module_item av e = \<lparr>it_head = av + round_up (length (zdata e)) 2, it_data = av, it_id = 2, it_file = e\<rparr>"

lemma round_up_4: "n \<le> 2 ^ 31 \<Longrightarrow> ROUND_UP (of_nat n) 4 = of_nat (round_up n 2)"
  using ROUND_UP_nat [of n 2] by (simp add: round_up_def)

lemma round_up_32: "n < 2 ^ 32 - 32 \<Longrightarrow> ROUND_UP (of_nat n) 32 = of_nat (round_up n 5)"
  using ROUND_UP_nat [of n 5] by (simp add: round_up_def)

text \<open>The part that both kinds of modules share.\<close>

lemma load_module_start:
  assumes s: "booting a es s" "k < length es" "\<And>j. j < k \<Longrightarrow> zname (es ! j) \<noteq> zname (es ! k)"
    and p: "cstring (at (bmem s) p) (zname (es ! k))" "basename (zname (es ! k)) \<noteq> []"
    and e: "packed (es ! k)" and d: "0 < d" "d < 2 ^ 32" "d + length (zdata (es ! k)) \<le> 2 ^ 32" "zip_span a es \<inter> span d (d + length (zdata (es ! k))) = {}"
      "of_nat d = (if data \<noteq> 0 then data else avail)"
    and n: "n = (if data = 0 then module_room (es ! k) else length (zdata (es ! k)))" "module_room (es ! k) < 2 ^ 32 - 32"
      "grants brd lim (bf s)" "d + n < lim"
  shows "\<exists>nm s'. cstring (at (bmem s) nm) (basename (zname (es ! k))) \<and>
    region nm (Suc (length (basename (zname (es ! k))))) \<subseteq> region p (Suc (length (zname (es ! k)))) \<and>
    load_module_from_zip brd p data avail list s = link_module brd nm (length (basename (zname (es ! k)))) data avail list (of_nat d)
      (avail + of_nat (round_up (length (zdata (es ! k))) 2)) (of_nat n) s' \<and>
    booting a es s' \<and> bf s' = bf s \<and> zip_file_uncompressedSize (bmem s') (bz s') = of_nat (length (zdata (es ! k))) \<and>
    bytes (bmem s') (of_nat d) (length (zdata (es ! k))) = zdata (es ! k) \<and>
    (\<forall>x. x \<notin> span d (d + length (zdata (es ! k))) \<longrightarrow> bmem s' x = bmem s x)"
proof -
  let ?e = "es ! k" and ?s = "s\<lparr>bz := dir_at a es (Suc k)\<rparr>"
  obtain r where r: "strrchr (at (bmem s) p) (char_byte CHR ''/'') = Some r"
    "cstring (at (bmem s) (case r of None \<Rightarrow> p | Some i \<Rightarrow> p + of_nat i + 1)) (basename (zname ?e))"
    "region (case r of None \<Rightarrow> p | Some i \<Rightarrow> p + of_nat i + 1) (Suc (length (basename (zname ?e)))) \<subseteq> region p (Suc (length (zname ?e)))"
    using name_pointer [OF p(1)] by blast
  define nm where "nm = (case r of None \<Rightarrow> p | Some i \<Rightarrow> p + of_nat i + 1)"
  have nm: "cstring (at (bmem s) nm) (basename (zname ?e))" "strlen (at (bmem s) nm) = Some (length (basename (zname ?e)))"
    using r(2) strlen_cstring by (simp_all add: nm_def)
  note f = find_file_ok [OF s(1,2) p(1) s(3)]
  have len: "length (zdata ?e) \<le> 2 ^ 31" using e by (simp add: packed_def)
  have sz: "zip_file_uncompressedSize (bmem ?s) (bz ?s) = of_nat (length (zdata ?e))" using size_ok_file [OF f(2) s(2)] by simp
  have "round_up (length (zdata ?e)) 2 + head_size ?e \<le> module_room ?e" by (simp add: module_room_def round_up_bounds)
  then have "ROUND_UP (of_nat (round_up (length (zdata ?e)) 2 + head_size ?e)) 32 = of_nat (module_room ?e)"
    using round_up_32 [of "round_up (length (zdata ?e)) 2 + head_size ?e"] n(2) by (simp add: module_room_def)
  then have room: "ROUND_UP (of_nat (round_up (length (zdata ?e)) 2) + (36 + of_nat (length (basename (zname ?e))) + 1)) 32 = of_nat (module_room ?e)"
    by (simp add: head_size_def ac_simps)
  have n32: "n < 2 ^ 32" using n by (auto simp: grants_def)
  have cl: "do_claim brd (if data \<noteq> 0 then data else avail) (of_nat n) ?s = Some (Inr (of_nat d), ?s)"
    unfolding d(5) [symmetric] using n(3,4) d(2) n32 by (intro do_claim_ok [of _ lim]) (simp_all add: unat_of_nat32)
  have nz: "of_nat d \<noteq> (0 :: u32)" using d(1,2) by (metis less_not_refl unat_0 unat_of_nat32)
  obtain s' where x: "extract_to (of_nat d) ?s = Some (Inr (), s')" "booting a es s'" "bz s' = dir_at a es (Suc k)" "bf s' = bf s"
    "bytes (bmem s') (of_nat d) (length (zdata ?e)) = zdata ?e" "\<forall>x. x \<notin> span d (d + length (zdata ?e)) \<longrightarrow> bmem s' x = bmem s x"
    using extract_file [OF f(2) s(2) _ e d(1,3,4,2)] by auto
  have "load_module_from_zip brd p data avail list s = link_module brd nm (length (basename (zname ?e))) data avail list (of_nat d)
      (avail + of_nat (round_up (length (zdata ?e)) 2)) (of_nat n) s'"
    using r(1) nm p(2) f(1) sz cl nz x(1) n(1) room
    by (cases "data = 0") (simp_all add: load_module_from_zip_def nm_def [symmetric] round_up_4 [OF len] Let_def)
  then show ?thesis using nm(1) r(3) x size_ok_file [OF x(2) s(2) x(3)] unfolding nm_def by blast
qed

text \<open>The end of \<open>load_module_from_zip()\<close> when the contents are in place.\<close>

lemma link_item:
  assumes K: "kicked (bmem s) k av X its" and it: "av \<le> it_head it" "it_head it + head_size (it_file it) \<le> hi" "hi \<le> 2 ^ 32" "in_memory it"
    and X: "X \<inter> span k hi = {}" and nm: "cstring (at (bmem s) nm) (basename (zname (it_file it)))"
      "region nm (Suc (length (basename (zname (it_file it))))) \<inter> span k hi = {}"
    and data: "bytes (bmem s) (of_nat (it_data it)) (length (zdata (it_file it))) = zdata (it_file it)"
      "span (it_data it) (it_data it + length (zdata (it_file it))) \<subseteq> span av (it_head it) \<union> X"
    and boot: "booting a es s" "zip_file_uncompressedSize (bmem s) (bz s) = of_nat (length (zdata (it_file it)))" "zip_span a es \<inter> span k hi = {}"
    and kind: "dt = 0 \<and> md = of_nat (it_head it) \<and> it_id it = 2 \<or>
      dt \<noteq> 0 \<and> it_id it = 1 \<and> avail = of_nat (it_head it) \<and> clen = of_nat (exec_room (it_file it)) \<and>
      grants brd lim (bf s) \<and> it_head it + exec_room (it_file it) < lim \<and> exec_room (it_file it) < 2 ^ 32 - 32 \<and> 0 < it_head it"
  shows "\<exists>s'. link_module brd nm (length (basename (zname (it_file it)))) dt avail (of_nat k) (of_nat (it_data it)) md (if dt = 0 then c else clen0) s =
      Some (Inr (if dt = 0 then c else clen), s') \<and> booting a es s' \<and> bf s' = bf s \<and> kicked (bmem s') k hi X (its @ [it]) \<and>
      (\<forall>x. x \<notin> span k hi \<longrightarrow> bmem s' x = bmem s x)"
proof -
  have id: "it_id it = 1 \<or> it_id it = 2" "it_id it = 1 \<longleftrightarrow> dt \<noteq> 0" using kind by auto
  obtain m1 m' where m: "add_module (bmem s) (of_nat k) (of_nat (it_head it)) (of_nat (it_data it)) (of_nat (length (zdata (it_file it)))) nm = Some m1"
    "m' = (if dt \<noteq> 0 then put_be16 m1 (of_nat (it_head it) + 16) 1 else m1)" "kicked m' k hi X (its @ [it])"
    "\<forall>x. x \<notin> span k hi \<longrightarrow> m' x = bmem s x"
    using kicked_add [OF K it id(1) X nm data] unfolding id(2) by blast
  have bt: "booting a es (set_mem m' s)" using m(4) boot(3) by (intro booting_mem [OF boot(1)]) blast
  have "link_module brd nm (length (basename (zname (it_file it)))) dt avail (of_nat k) (of_nat (it_data it)) md (if dt = 0 then c else clen0) s =
      Some (Inr (if dt = 0 then c else clen), set_mem m' s)"
  proof (cases "dt = 0")
    case True
    then show ?thesis using kind m(1,2) boot(2) by (simp add: link_module_def)
  next
    case False
    then have k: "avail = of_nat (it_head it)" "clen = of_nat (exec_room (it_file it))" "grants brd lim (bf s)"
      "it_head it + exec_room (it_file it) < lim" "exec_room (it_file it) < 2 ^ 32 - 32" "0 < it_head it" using kind by auto
    have "head_size (it_file it) \<le> exec_room (it_file it)" by (simp add: exec_room_def round_up_bounds)
    then have "ROUND_UP (of_nat (head_size (it_file it))) 32 = clen"
      using round_up_32 [of "head_size (it_file it)"] k(2,5) by (simp add: exec_room_def)
    then have c: "ROUND_UP (36 + of_nat (length (basename (zname (it_file it)))) + 1) 32 = clen" by (simp add: head_size_def add.commute)
    have h: "it_head it < 2 ^ 32" "exec_room (it_file it) < 2 ^ 32" using it(4) k(5) by (simp_all add: in_memory_def head_size_def)
    then have "do_claim brd avail clen s = Some (Inr avail, s)"
      unfolding k(1,2) using k(3,4) by (intro do_claim_ok [of _ lim]) (simp_all add: unat_of_nat32)
    moreover have "avail \<noteq> 0" unfolding k(1) using k(6) h(1) by (metis less_not_refl unat_0 unat_of_nat32)
    ultimately show ?thesis using False m(1,2) boot(2) c k(1) by (simp add: link_module_def Let_def)
  qed
  then show ?thesis using bt m(3,4) by (intro exI [of _ "set_mem m' s"]) (simp add: set_mem_def)
qed

text \<open>The entry that a path names, and that it can be loaded.\<close>

definition names :: "zentry list \<Rightarrow> nat \<Rightarrow> bool" where
  "names es k \<longleftrightarrow> k < length es \<and> (\<forall>j<k. zname (es ! j) \<noteq> zname (es ! k)) \<and> packed (es ! k) \<and> basename (zname (es ! k)) \<noteq> []"

lemma module_item_simps [simp]:
  "it_file (module_item av e) = e" "it_data (module_item av e) = av" "it_id (module_item av e) = 2"
  "it_head (module_item av e) = av + round_up (length (zdata e)) 2"
  "it_file (exec_item x av e) = e" "it_data (exec_item x av e) = x" "it_id (exec_item x av e) = 1" "it_head (exec_item x av e) = av"
  by (simp_all add: module_item_def exec_item_def)

lemma kicked_low: "kicked m k av X its \<Longrightarrow> k + 12 \<le> av"
  using stacked_bounds [of "k + 12" "map it_head its" av] by (simp add: kicked_def)

lemma load_module_item:
  assumes s: "booting a es s" "names es i" "cstring (at (bmem s) p) (zname (es ! i))" and K: "kicked (bmem s) k av X its"
    and hi: "hi = av + module_room (es ! i)" "hi < lim" "grants brd lim (bf s)" and small: "module_room (es ! i) < 2 ^ 32 - 32"
    and ap: "zip_span a es \<inter> span k hi = {}" "X \<inter> span k hi = {}" "region p (Suc (length (zname (es ! i)))) \<inter> span k hi = {}"
  shows "\<exists>s'. load_module_from_zip brd p 0 (of_nat av) (of_nat k) s = Some (Inr (of_nat (module_room (es ! i))), s') \<and>
    booting a es s' \<and> bf s' = bf s \<and> kicked (bmem s') k hi X (its @ [module_item av (es ! i)]) \<and>
    (\<forall>x. x \<notin> span k hi \<longrightarrow> bmem s' x = bmem s x)"
proof -
  let ?e = "es ! i" and ?it = "module_item av (es ! i)"
  let ?n = "length (zdata ?e)"
  have i: "i < length es" "\<And>j. j < i \<Longrightarrow> zname (es ! j) \<noteq> zname ?e" "packed ?e" "basename (zname ?e) \<noteq> []" using s(2) by (auto simp: names_def)
  have av: "k + 12 \<le> av" using kicked_low [OF K] .
  have r: "?n \<le> round_up ?n 2" "round_up ?n 2 + head_size ?e \<le> module_room ?e" by (simp_all add: module_room_def round_up_bounds)
  have lim: "lim \<le> 2 ^ 32" using hi(3) by (simp add: grants_def)
  have room: "module_room ?e < 2 ^ 32 - 32" using small .
  have sub: "span av (av + ?n) \<subseteq> span k hi" using r hi(1) av by (auto simp: span_def head_size_def)
  obtain nm s1 where n: "cstring (at (bmem s) nm) (basename (zname ?e))" "region nm (Suc (length (basename (zname ?e)))) \<subseteq> region p (Suc (length (zname ?e)))"
    "load_module_from_zip brd p 0 (of_nat av) (of_nat k) s = link_module brd nm (length (basename (zname ?e))) 0 (of_nat av) (of_nat k) (of_nat av)
      (of_nat av + of_nat (round_up ?n 2)) (of_nat (module_room ?e)) s1"
    "booting a es s1" "bf s1 = bf s" "zip_file_uncompressedSize (bmem s1) (bz s1) = of_nat ?n" "bytes (bmem s1) (of_nat av) ?n = zdata ?e"
    "\<forall>x. x \<notin> span av (av + ?n) \<longrightarrow> bmem s1 x = bmem s x"
    using load_module_start [OF s(1) i(1,2) s(3) i(4,3), of av 0 "of_nat av" "module_room ?e" brd lim "of_nat k"] av r hi lim room ap(1) sub
    by (auto simp: head_size_def)
  have K1: "kicked (bmem s1) k av X its"
    by (rule kicked_frame [OF K]) (use n(8) sub ap(2) in \<open>auto simp: span_def\<close>)
  have nm: "cstring (at (bmem s1) nm) (basename (zname ?e))" "region nm (Suc (length (basename (zname ?e)))) \<inter> span k hi = {}"
    using n(2,8) sub ap(3) by (auto intro!: cstring_at_cong [OF n(1)])
  have "in_memory ?it" using r hi(1,2) lim by (simp add: in_memory_def head_size_def)
  moreover have "span av (av + ?n) \<subseteq> span av (av + round_up ?n 2) \<union> X" using r(1) by (auto simp: span_def)
  ultimately have "\<exists>s'. link_module brd nm (length (basename (zname ?e))) 0 (of_nat av) (of_nat k) (of_nat av)
      (of_nat av + of_nat (round_up ?n 2)) (if (0 :: u32) = 0 then of_nat (module_room ?e) else 0) s1 =
      Some (Inr (if (0 :: u32) = 0 then of_nat (module_room ?e) else 0), s') \<and> booting a es s' \<and> bf s' = bf s1 \<and>
      kicked (bmem s') k hi X (its @ [?it]) \<and> (\<forall>x. x \<notin> span k hi \<longrightarrow> bmem s' x = bmem s1 x)"
    using link_item [OF K1, of ?it hi nm a es 0 "of_nat av + of_nat (round_up ?n 2)" "of_nat av" 0 brd lim "of_nat (module_room ?e)" 0]
      r hi lim nm n ap by auto
  moreover have "\<forall>x. x \<notin> span k hi \<longrightarrow> bmem s1 x = bmem s x" using n(8) sub by blast
  ultimately show ?thesis using n(3,5) by auto
qed

lemma load_exec_item:
  assumes s: "booting a es s" "names es i" "cstring (at (bmem s) p) (zname (es ! i))" and K: "kicked (bmem s) k av X []"
    and X: "X = span x (x + length (zdata (es ! i)))" "x + length (zdata (es ! i)) < lim" "0 < x"
    and hi: "hi = av + exec_room (es ! i)" "hi < lim" "grants brd lim (bf s)" and small: "module_room (es ! i) < 2 ^ 32 - 32"
    and ap: "zip_span a es \<inter> span k hi = {}" "X \<inter> span k hi = {}" "region p (Suc (length (zname (es ! i)))) \<inter> (span k hi \<union> X) = {}"
      "zip_span a es \<inter> X = {}"
  shows "\<exists>s'. load_module_from_zip brd p (of_nat x) (of_nat av) (of_nat k) s = Some (Inr (of_nat (exec_room (es ! i))), s') \<and>
    booting a es s' \<and> bf s' = bf s \<and> kicked (bmem s') k hi X [exec_item x av (es ! i)] \<and>
    (\<forall>y. y \<notin> span k hi \<union> X \<longrightarrow> bmem s' y = bmem s y)"
proof -
  let ?e = "es ! i" and ?it = "exec_item x av (es ! i)"
  let ?n = "length (zdata ?e)"
  have i: "i < length es" "\<And>j. j < i \<Longrightarrow> zname (es ! j) \<noteq> zname ?e" "packed ?e" "basename (zname ?e) \<noteq> []" using s(2) by (auto simp: names_def)
  have av: "k + 12 \<le> av" using kicked_low [OF K] .
  have r: "head_size ?e \<le> exec_room ?e" by (simp add: exec_room_def round_up_bounds)
  have lim: "lim \<le> 2 ^ 32" using hi(3) by (simp add: grants_def)
  have er: "exec_room ?e < 2 ^ 32 - 32"
  proof -
    have "exec_room ?e \<le> module_room ?e" unfolding exec_room_def module_room_def round_up_def by (intro mult_le_mono1 div_le_mono) simp
    then show ?thesis using small by simp
  qed
  have x0: "of_nat x \<noteq> (0 :: u32)" using X(2,3) lim by (metis add_lessD1 less_le_trans less_not_refl unat_0 unat_of_nat32)
  obtain nm s1 where n: "cstring (at (bmem s) nm) (basename (zname ?e))" "region nm (Suc (length (basename (zname ?e)))) \<subseteq> region p (Suc (length (zname ?e)))"
    "load_module_from_zip brd p (of_nat x) (of_nat av) (of_nat k) s = link_module brd nm (length (basename (zname ?e))) (of_nat x) (of_nat av) (of_nat k) (of_nat x)
      (of_nat av + of_nat (round_up ?n 2)) (of_nat ?n) s1"
    "booting a es s1" "bf s1 = bf s" "zip_file_uncompressedSize (bmem s1) (bz s1) = of_nat ?n" "bytes (bmem s1) (of_nat x) ?n = zdata ?e"
    "\<forall>y. y \<notin> X \<longrightarrow> bmem s1 y = bmem s y"
    using load_module_start [OF s(1) i(1,2) s(3) i(4,3), of x "of_nat x" "of_nat av" ?n brd lim "of_nat k"] X hi lim x0 small ap(4) by auto
  have K1: "kicked (bmem s1) k av X []"
  proof -
    have "alist (bmem s1) (of_nat k) []"
    proof (rule alist_frame [of "bmem s"])
      show "alist (bmem s) (of_nat k) []" using K by (simp add: kicked_def)
      fix y assume "y \<in> list_area (of_nat k) []"
      moreover have "list_area (of_nat k) [] \<subseteq> span k av" using K list_span_sub [of k "[]" av] by (simp add: kicked_def)
      ultimately have "y \<in> span k hi" using hi(1) by (auto simp: span_def)
      then show "bmem s1 y = bmem s y" using n(8) ap(2) by blast
    qed
    then show ?thesis using K by (simp add: kicked_def)
  qed
  have nm: "cstring (at (bmem s1) nm) (basename (zname ?e))" "region nm (Suc (length (basename (zname ?e)))) \<inter> span k hi = {}"
  proof -
    show "cstring (at (bmem s1) nm) (basename (zname ?e))" by (rule cstring_at_cong [OF n(1)]) (use n(2,8) ap(3) in blast)
    show "region nm (Suc (length (basename (zname ?e)))) \<inter> span k hi = {}" using n(2) ap(3) by blast
  qed
  have "in_memory ?it" using r hi(1,2) lim X(2) by (simp add: in_memory_def)
  then have "\<exists>s'. link_module brd nm (length (basename (zname ?e))) (of_nat x) (of_nat av) (of_nat k) (of_nat x)
      (of_nat av + of_nat (round_up ?n 2)) (if of_nat x = (0 :: u32) then 0 else of_nat ?n) s1 =
      Some (Inr (if of_nat x = (0 :: u32) then 0 else of_nat (exec_room ?e)), s') \<and> booting a es s' \<and> bf s' = bf s1 \<and>
      kicked (bmem s') k hi X ([] @ [?it]) \<and> (\<forall>y. y \<notin> span k hi \<longrightarrow> bmem s' y = bmem s1 y)"
    using link_item [OF K1, of ?it hi nm a es "of_nat x" "of_nat av + of_nat (round_up ?n 2)" "of_nat av" "of_nat (exec_room ?e)" brd lim 0 "of_nat ?n"]
      r hi lim nm n(4-7) ap X(1) x0 er av by auto
  moreover have "\<forall>y. y \<notin> span k hi \<union> X \<longrightarrow> bmem s1 y = bmem s y" using n(8) by blast
  ultimately show ?thesis using n(3,5) x0 by auto
qed

lemma length_basename: "length (basename xs) \<le> length xs"
  by (simp add: basename_def length_takeWhile_le [of _ "rev xs", simplified])

lemma names_room:
  assumes "archive m a es" "names es i"
  shows "module_room (es ! i) < 2 ^ 32 - 32"
proof -
  let ?e = "es ! i"
  have "length (basename (zname ?e)) \<le> 255"
    using archive_entry(2) [OF assms(1)] assms(2) length_basename [of "zname ?e"] by (fastforce simp: names_def)
  moreover have "length (zdata ?e) \<le> 2 ^ 31" using assms(2) by (simp add: names_def packed_def)
  ultimately show ?thesis
    using round_up_bounds(2) [of "length (zdata ?e)" 2] round_up_bounds(2) [of "round_up (length (zdata ?e)) 2 + head_size ?e" 5]
    by (simp add: module_room_def head_size_def)
qed

subsection \<open>The text of the Kicklayout\<close>

text \<open>
  A line is empty or a comment, or it has a text; there may be blanks around both.
\<close>

datatype kline = Skip "u8 list" "u8 list" | Line "u8 list" "u8 list" "u8 list"

abbreviation LF :: u8 where "LF \<equiv> char_byte CHR 0x0A"

primrec line_bytes :: "kline \<Rightarrow> u8 list" where
  "line_bytes (Skip lead rest) = lead @ rest @ [LF]"
| "line_bytes (Line lead cmd trail) = lead @ cmd @ trail @ [LF]"

primrec wf_line :: "kline \<Rightarrow> bool" where
  "wf_line (Skip lead rest) \<longleftrightarrow> list_all blank_or_cr lead \<and> (rest = [] \<or> hd rest = char_byte CHR '';'') \<and> 0 \<notin> set rest \<and> LF \<notin> set rest"
| "wf_line (Line lead cmd trail) \<longleftrightarrow> list_all blank_or_cr lead \<and> list_all blank_or_cr trail \<and> cmd \<noteq> [] \<and>
     \<not> blank_or_cr (hd cmd) \<and> hd cmd \<noteq> char_byte CHR '';'' \<and> \<not> blank_or_cr (last cmd) \<and> 0 \<notin> set cmd \<and> LF \<notin> set cmd"

definition arg_of :: "string \<Rightarrow> u8 list \<Rightarrow> u8 list option" where
  "arg_of kw cmd = (if take (length kw) cmd = chars kw \<and> length kw < length cmd \<and> SPCORTAB (cmd ! length kw)
     then Some (dropWhile SPCORTAB (drop (length kw) cmd)) else None)"

text \<open>
  The files of a configuration: \<open>LABEL\<close> starts one; its first line must be an \<open>EXEC\<close>, the others a
  \<open>MODULE\<close> each, up to the next \<open>LABEL\<close>. \<open>None\<close> is an error in the text.
\<close>

fun module_paths :: "kline list \<Rightarrow> u8 list list option" where
  "module_paths [] = Some []"
| "module_paths (Skip _ _ # ls) = module_paths ls"
| "module_paths (Line _ cmd _ # ls) =
     (if arg_of ''LABEL'' cmd \<noteq> None then Some []
      else Option.bind (arg_of ''MODULE'' cmd) (\<lambda>p. map_option (Cons p) (module_paths ls)))"

fun exec_paths :: "kline list \<Rightarrow> u8 list list option" where
  "exec_paths [] = None"
| "exec_paths (Skip _ _ # ls) = exec_paths ls"
| "exec_paths (Line _ cmd _ # ls) =
     (if arg_of ''LABEL'' cmd \<noteq> None then None
      else Option.bind (arg_of ''EXEC'' cmd) (\<lambda>p. map_option (Cons p) (module_paths ls)))"

fun config_paths :: "nat \<Rightarrow> kline list \<Rightarrow> u8 list list option" where
  "config_paths n [] = None"
| "config_paths n (Skip _ _ # ls) = config_paths n ls"
| "config_paths n (Line _ cmd _ # ls) =
     (if arg_of ''LABEL'' cmd = None then config_paths n ls
      else if n = 1 then exec_paths ls else config_paths (n - 1) ls)"

subsection \<open>Scanning the text\<close>

lemma skip_while_spec:
  assumes "\<And>i. i < n \<Longrightarrow> P (m (p + of_nat i))" "\<not> P (m (p + of_nat n))"
  shows "skip_while P m p = Some (p + of_nat n)"
  using assms
proof (induction n arbitrary: p)
  case 0
  then show ?case by (simp add: skip_while.simps)
next
  case (Suc n)
  have "skip_while P m (p + 1) = Some (p + 1 + of_nat n)"
    using Suc.prems(1) [of "Suc _"] Suc.prems(2) by (intro Suc.IH) (simp_all add: add.assoc)
  then show ?case using Suc.prems(1) [of 0] by (simp add: skip_while.simps [of P m p] add.assoc)
qed

lemma strchr_first:
  assumes "s n = c" "\<And>i. i < n \<Longrightarrow> s i \<noteq> c \<and> s i \<noteq> 0"
  shows "strchr s c = Some (Some n)"
proof -
  have "strchr_from s c 0 = Some (Some n)"
  proof (rule inc_induct [of 0 n "\<lambda>i. strchr_from s c i = Some (Some n)"])
    fix i assume "i < n" "strchr_from s c (Suc i) = Some (Some n)"
    then show "strchr_from s c i = Some (Some n)" using assms(2) by (simp add: strchr_from.simps [of s c i])
  qed (simp_all add: strchr_from.simps [of s c n] assms(1))
  then show ?thesis by (simp add: strchr_def)
qed

lemma strncmp_from_cstring:
  assumes "cstring s xs" "CHR 0x00 \<notin> set kw" "i + n = length kw" "i \<le> length xs"
  shows "strncmp_from s (lit kw) i n = 0 \<longleftrightarrow> take n (drop i xs) = drop i (chars kw)"
  using assms(3,4)
proof (induction n arbitrary: i)
  case 0
  then show ?case by (simp add: chars_def)
next
  case (Suc n)
  have k: "lit kw i = char_byte (kw ! i)" "drop i (chars kw) = char_byte (kw ! i) # drop (Suc i) (chars kw)"
    using Suc.prems(1) by (simp_all add: lit_def chars_def Cons_nth_drop_Suc drop_map flip: list.map)
  have "kw ! i \<in> set kw" using Suc.prems(1) by simp
  then have "kw ! i \<noteq> CHR 0x00" using assms(2) by metis
  then have nz: "char_byte (kw ! i) \<noteq> 0" unfolding char_byte_0 [symmetric] by simp
  show ?case
  proof (cases "i < length xs")
    case True
    then have x: "s i = xs ! i" "s i \<noteq> 0" "drop i xs = xs ! i # drop (Suc i) xs"
      using cstringD(1) [OF assms(1)] cstring_nz [OF assms(1)] by (simp_all add: Cons_nth_drop_Suc)
    show ?thesis
      using Suc.IH [of "Suc i"] Suc.prems(1) True x k by (auto simp: word_uint_eq_iff)
  next
    case False
    then have "s i = 0" "drop i xs = []" using cstringD(3) [OF assms(1)] Suc.prems(2) by (simp_all add: le_antisym)
    then show ?thesis using k nz by (simp add: uint_0_iff)
  qed
qed

lemma not_blank_0 [simp]: "\<not> SPCORTAB 0" "\<not> blank_or_cr 0"
proof -
  have "char_byte c = 0 \<longleftrightarrow> c = CHR 0x00" for c unfolding char_byte_0 [symmetric] by simp
  then show "\<not> SPCORTAB 0" "\<not> blank_or_cr 0" by (auto simp: SPCORTAB_def blank_or_cr_def)
qed

lemma KEYWORD_arg:
  assumes "cstring (at m p) cmd" "CHR 0x00 \<notin> set kw"
  shows "KEYWORD m p kw \<longleftrightarrow> arg_of kw cmd \<noteq> None"
proof -
  have c: "strncmp (at m p) (lit kw) (length kw) = 0 \<longleftrightarrow> take (length kw) cmd = chars kw"
    using strncmp_from_cstring [OF assms, of 0 "length kw"] by (simp add: strncmp_def)
  have "SPCORTAB (m (p + of_nat (length kw))) \<longleftrightarrow> length kw < length cmd \<and> SPCORTAB (cmd ! length kw)" if "take (length kw) cmd = chars kw"
  proof -
    have "length kw \<le> length cmd" using arg_cong [OF that, of length] by (simp add: chars_def)
    then show ?thesis
      using cstringD(1,3) [OF assms(1)] by (cases "length kw = length cmd") (auto simp: at_def)
  qed
  then show ?thesis using c by (auto simp: KEYWORD_def arg_of_def)
qed

lemma arg_pointer:
  assumes "cstring (at m p) cmd" "arg_of kw cmd = Some arg"
  shows "\<exists>q. skip_while SPCORTAB m (p + of_nat (length kw)) = Some q \<and> cstring (at m q) arg \<and>
    region q (Suc (length arg)) \<subseteq> region p (Suc (length cmd))"
proof -
  let ?n = "length kw" and ?w = "takeWhile SPCORTAB (drop (length kw) cmd)"
  have a: "arg = dropWhile SPCORTAB (drop ?n cmd)" "?n \<le> length cmd" using assms(2) by (auto simp: arg_of_def split: if_splits)
  have t: "cmd = (take ?n cmd @ ?w) @ arg" by (simp add: a(1))
  have l: "length (take ?n cmd @ ?w) = ?n + length ?w" using a(2) by simp
  have q: "cstring (at m (p + of_nat (?n + length ?w))) arg" using cstring_suffix [of m p "take ?n cmd @ ?w" arg] t assms(1) l by metis
  have "region (p + of_nat (?n + length ?w)) (Suc (length arg)) \<subseteq> region p (Suc (length cmd))"
    using arg_cong [OF t, of length] l by (intro region_sub) simp
  moreover have "skip_while SPCORTAB m (p + of_nat ?n) = Some (p + of_nat ?n + of_nat (length ?w))"
  proof (rule skip_while_spec)
    fix i assume i: "i < length ?w"
    have "m (p + of_nat ?n + of_nat i) = cmd ! (?n + i)"
      using cstringD(1) [OF assms(1), of "?n + i"] i a(2) length_takeWhile_le [of SPCORTAB "drop ?n cmd"] by (simp add: at_def add.assoc)
    also have "\<dots> = ?w ! i" using i a(2) by (simp add: takeWhile_nth)
    finally show "SPCORTAB (m (p + of_nat ?n + of_nat i))" using i nth_mem set_takeWhileD by metis
  next
    have "m (p + of_nat ?n + of_nat (length ?w)) = at m (p + of_nat (?n + length ?w)) 0" by (simp add: at_def add.assoc)
    moreover have "\<not> SPCORTAB (at m (p + of_nat (?n + length ?w)) 0)"
    proof (cases arg)
      case Nil
      then show ?thesis using cstringD(3) [OF q] by simp
    next
      case (Cons x xs)
      then have "\<not> SPCORTAB x" using a(1) hd_dropWhile [of SPCORTAB "drop ?n cmd"] by (metis list.distinct(1) list.sel(1))
      then show ?thesis using cstringD(1) [OF q, of 0] Cons by simp
    qed
    ultimately show "\<not> SPCORTAB (m (p + of_nat ?n + of_nat (length ?w)))" by simp
  qed
  ultimately show ?thesis using q by (simp add: add.assoc)
qed

lemma trim_back_spec:
  assumes "n \<le> j" "P + j < 2 ^ 32" "\<And>i. n < i \<Longrightarrow> i \<le> j \<Longrightarrow> blank_or_cr (m (of_nat (P + i)))" "\<not> blank_or_cr (m (of_nat (P + n)))"
  shows "trim_back m (of_nat P) (of_nat (P + j)) = of_nat (P + n)"
  using assms(1-3)
proof (induction j rule: dec_induct)
  case base
  then show ?case using assms(4) by (simp add: trim_back.simps)
next
  case (step j)
  have "unat (of_nat (P + Suc j) :: u32) = P + Suc j" "unat (of_nat P :: u32) = P" using step.prems(1) by (simp_all only: unat_of_nat32)
  then have "of_nat (P + Suc j) > (of_nat P :: u32)" by (simp only: word_less_nat_alt)
  moreover have "(of_nat (P + Suc j) :: u32) - 1 = of_nat (P + j)" by simp
  moreover have "blank_or_cr (m (of_nat (P + Suc j)))" using step.prems(2) [of "Suc j"] step.hyps by simp
  moreover have "trim_back m (of_nat P) (of_nat (P + j)) = of_nat (P + n)" using step.prems by (intro step.IH) simp_all
  ultimately show ?case by (simp only: trim_back.simps [of m "of_nat P" "of_nat (P + Suc j)"] if_True simp_thms)
qed

lemma bytes_at: "bytes m (of_nat P) n = xs \<Longrightarrow> i < n \<Longrightarrow> m (of_nat (P + i)) = xs ! i"
  using nth_bytes [of i n m "of_nat P"] by simp

lemma terminate_line_spec:
  assumes tx: "bytes m (of_nat P) (length (cmd @ trail @ [LF])) = cmd @ trail @ [LF]" and wf: "wf_line (Line lead cmd trail)"
    and P: "P + length (cmd @ trail @ [LF]) \<le> 2 ^ 32"
  defines "m2 \<equiv> terminate_line m (of_nat P) (of_nat (P + length (cmd @ trail)))"
  shows "cstring (at m2 (of_nat P)) cmd" "\<And>x. x \<notin> span P (P + length (cmd @ trail @ [LF])) \<Longrightarrow> m2 x = m x"
proof -
  let ?n = "length cmd" and ?k = "length (cmd @ trail)" and ?m = "m(of_nat (P + length (cmd @ trail)) := 0)"
  have w: "cmd \<noteq> []" "\<not> blank_or_cr (last cmd)" "list_all blank_or_cr trail" "0 \<notin> set cmd" using wf by simp_all
  have u: "unat (of_nat (P + i) :: u32) = P + i" if "i \<le> ?k" for i using that P by (intro unat_of_nat32) simp
  have ne: "(of_nat (P + i) :: u32) \<noteq> of_nat (P + j)" if "i \<noteq> j" "i \<le> ?k" "j \<le> ?k" for i j
    using u [of i] u [of j] that by (metis add_left_cancel)
  have g: "?m (of_nat (P + i)) = (cmd @ trail) ! i" if "i < ?k" for i
    using bytes_at [OF tx, of i] that ne [of i ?k] by (auto simp: nth_append)
  have pos: "0 < ?n" using w(1) by simp
  have "trim_back ?m (of_nat P) (of_nat (P + (?k - 1))) = of_nat (P + (?n - 1))"
  proof (rule trim_back_spec)
    have "?n - 1 < ?k" using pos unfolding length_append by linarith
    from g [OF this] show "\<not> blank_or_cr (?m (of_nat (P + (?n - 1))))"
      using w(1,2) by (simp add: nth_append last_conv_nth del: fun_upd_apply of_nat_add)
    fix i assume i: "?n - 1 < i" "i \<le> ?k - 1"
    then have "(cmd @ trail) ! i \<in> set trail" using pos by (auto simp: nth_append)
    moreover have "i < ?k" using i(2) pos unfolding length_append by linarith
    ultimately show "blank_or_cr (?m (of_nat (P + i)))" using g [of i] w(3) by (simp add: list_all_iff del: fun_upd_apply)
  qed (use P pos in simp_all)
  moreover have "(of_nat (P + ?k) :: u32) - 1 = of_nat (P + (?k - 1))" "(of_nat (P + (?n - 1)) :: u32) + 1 = of_nat (P + ?n)"
    using w(1) by (cases cmd; simp)+
  ultimately have m2: "m2 = (if of_nat (P + ?n) < (of_nat (P + ?k) :: u32) then ?m(of_nat (P + ?n) := 0) else ?m)"
    by (simp only: m2_def terminate_line_def Let_def)
  have lt: "of_nat (P + ?n) < (of_nat (P + ?k) :: u32) \<longleftrightarrow> trail \<noteq> []"
    using u [of ?n] u [of ?k] by (simp add: word_less_nat_alt)
  have at: "m2 (of_nat (P + i)) = cmd ! i" if "i < ?n" for i
    using that g [of i] ne [of i ?n] by (auto simp: m2 nth_append)
  moreover have "m2 (of_nat (P + ?n)) = 0" using lt by (auto simp: m2)
  ultimately show "cstring (at m2 (of_nat P)) cmd" using w(4) by (simp add: cstring_def at_def)
  show "m2 x = m x" if "x \<notin> span P (P + length (cmd @ trail @ [LF]))" for x
  proof -
    have "x \<noteq> of_nat (P + ?k)" "x \<noteq> of_nat (P + ?n)" using that u [of ?k] u [of ?n] by (auto simp: span_def)
    then show ?thesis by (simp add: m2)
  qed
qed

text \<open>One round of the loop: a line that is skipped, and a line with a text.\<close>

lemma in_text:
  assumes "T \<le> P" "P < T + L" "L < 2 ^ 31" "0 < P" "P < 2 ^ 32"
  shows "of_nat P \<noteq> (0 :: u32) \<and> sint (of_nat P - of_nat T :: u32) < sint (of_nat L :: u32)"
proof -
  have d: "of_nat P - of_nat T = (of_nat (P - T) :: u32)" using assms(1) by (simp add: of_nat_diff)
  have "of_nat P \<noteq> (0 :: u32)" using assms(4,5) by (metis less_not_refl unat_0 unat_of_nat32)
  then show ?thesis unfolding d using assms sint_of_nat_small [of "P - T"] sint_of_nat_small [of L] by linarith
qed

lemma list_at_parts:
  assumes "bytes m (of_nat P) (length (xs @ ys)) = xs @ ys"
  shows "bytes m (of_nat P) (length xs) = xs" "bytes m (of_nat (P + length xs)) (length ys) = ys"
  using assms by (simp_all add: bytes_add)

lemma scan_line:
  assumes "bytes m (of_nat P) (length (lead @ rest @ [LF])) = lead @ rest @ [LF]" "list_all blank_or_cr lead" "0 \<notin> set rest" "LF \<notin> set rest"
    "rest \<noteq> [] \<Longrightarrow> \<not> blank_or_cr (hd rest)"
  shows "m (of_nat P) \<noteq> 0" "skip_while blank_or_cr m (of_nat P) = Some (of_nat (P + length lead))"
    "strchr (at m (of_nat (P + length lead))) LF = Some (Some (length rest))" "m (of_nat (P + length lead)) = hd (rest @ [LF])"
proof -
  let ?x = "lead @ rest @ [LF]"
  have g: "m (of_nat (P + i)) = ?x ! i" if "i < length ?x" for i using bytes_at [OF assms(1) that] .
  have lf: "\<not> blank_or_cr LF" "LF \<noteq> 0" by (simp_all add: blank_or_cr_def SPCORTAB_def char_byte_def)
  have z: "0 \<notin> set ?x" using assms(2,3) lf(2) by (auto simp: list_all_iff)
  show "m (of_nat P) \<noteq> 0" using g [of 0] z by (metis Nat.add_0_right append_is_Nil_conv length_greater_0_conv list.distinct(1) nth_mem)
  have h: "m (of_nat (P + length lead)) = hd (rest @ [LF])" using g [of "length lead"] by (simp add: nth_append hd_conv_nth)
  then show "m (of_nat (P + length lead)) = hd (rest @ [LF])" .
  show "skip_while blank_or_cr m (of_nat P) = Some (of_nat (P + length lead))"
    unfolding of_nat_add
  proof (rule skip_while_spec)
    show "blank_or_cr (m (of_nat P + of_nat i))" if "i < length lead" for i
      using g [of i] that assms(2) by (simp add: nth_append list_all_length)
    show "\<not> blank_or_cr (m (of_nat P + of_nat (length lead)))" using h assms(5) lf by (cases rest) simp_all
  qed
  have a: "at m (of_nat (P + length lead)) i = (rest @ [LF]) ! i" if "i \<le> length rest" for i
    using g [of "length lead + i"] that by (simp add: at_def nth_append add.assoc)
  show "strchr (at m (of_nat (P + length lead))) LF = Some (Some (length rest))"
  proof (rule strchr_first)
    show "at m (of_nat (P + length lead)) (length rest) = LF" using a [of "length rest"] by simp
    fix i assume i: "i < length rest"
    then have "at m (of_nat (P + length lead)) i = rest ! i" using a [of i] by (simp add: nth_append)
    then show "at m (of_nat (P + length lead)) i \<noteq> LF \<and> at m (of_nat (P + length lead)) i \<noteq> 0"
      using i assms(3,4) by (metis nth_mem)
  qed
qed

lemma layout_loop_skip:
  assumes "bytes (bmem s) (of_nat P) (length (line_bytes (Skip lead rest))) = line_bytes (Skip lead rest)" "wf_line (Skip lead rest)"
    and "T \<le> P" "P < T + L" "L < 2 ^ 31" "0 < P" "P < 2 ^ 32"
  shows "layout_loop brd config (of_nat T) (of_nat L) (of_nat P) c l avail kl s =
    layout_loop brd config (of_nat T) (of_nat L) (of_nat (P + length (line_bytes (Skip lead rest)))) c (l + 1) avail kl s"
proof -
  have w: "list_all blank_or_cr lead" "rest = [] \<or> hd rest = char_byte CHR '';''" "0 \<notin> set rest" "LF \<notin> set rest"
    "rest \<noteq> [] \<Longrightarrow> \<not> blank_or_cr (hd rest)"
    using assms(2) by (auto simp: blank_or_cr_def SPCORTAB_def)
  note sc = scan_line [OF assms(1) [unfolded line_bytes.simps] w(1,3,4,5)]
  have "hd (rest @ [LF]) = char_byte CHR '';'' \<or> hd (rest @ [LF]) = LF" using w(2) by (cases rest) simp_all
  then show ?thesis
    using sc in_text [OF assms(3-7)] by (subst layout_loop.simps) (simp add: ac_simps)
qed

lemma layout_loop_line:
  assumes "bytes (bmem s) (of_nat P) (length (line_bytes (Line lead cmd trail))) = line_bytes (Line lead cmd trail)" "wf_line (Line lead cmd trail)"
    and "T \<le> P" "P < T + L" "L < 2 ^ 31" "0 < P" "P + length (line_bytes (Line lead cmd trail)) \<le> 2 ^ 32"
  shows "\<exists>m2. cstring (at m2 (of_nat (P + length lead))) cmd \<and>
    (\<forall>x. x \<notin> span P (P + length (line_bytes (Line lead cmd trail))) \<longrightarrow> m2 x = bmem s x) \<and>
    layout_loop brd config (of_nat T) (of_nat L) (of_nat P) c l avail kl s =
    bindB (layout_line brd config (of_nat (P + length lead)) c l avail kl (set_mem m2 s)) (\<lambda>(cont, c, avail, kl) s.
      if cont then layout_loop brd config (of_nat T) (of_nat L) (of_nat (P + length (line_bytes (Line lead cmd trail)))) c (l + 1) avail kl s
      else Some (Inr (avail, kl), s))"
proof -
  let ?m2 = "terminate_line (bmem s) (of_nat (P + length lead)) (of_nat (P + length lead + length (cmd @ trail)))"
  have w: "list_all blank_or_cr lead" "list_all blank_or_cr trail" "cmd \<noteq> []" "\<not> blank_or_cr (hd cmd)" "hd cmd \<noteq> char_byte CHR '';''"
    "0 \<notin> set cmd" "LF \<notin> set cmd" using assms(2) by simp_all
  have lf: "\<not> blank_or_cr LF" by (simp add: blank_or_cr_def SPCORTAB_def)
  have r: "0 \<notin> set (cmd @ trail)" "LF \<notin> set (cmd @ trail)" "\<not> blank_or_cr (hd (cmd @ trail))"
    using w lf by (auto simp: list_all_iff)
  have tx: "bytes (bmem s) (of_nat P) (length (lead @ (cmd @ trail) @ [LF])) = lead @ (cmd @ trail) @ [LF]" using assms(1) by simp
  note sc = scan_line [OF tx w(1) r]
  have tx2: "bytes (bmem s) (of_nat (P + length lead)) (length (cmd @ trail @ [LF])) = cmd @ trail @ [LF]"
    using list_at_parts(2) [of "bmem s" P lead "cmd @ trail @ [LF]"] tx by simp
  note tl = terminate_line_spec [OF tx2 assms(2)]
  have h: "hd (cmd @ trail @ [LF]) \<noteq> LF" "hd (cmd @ trail @ [LF]) \<noteq> char_byte CHR '';''" using w(3,5,7) by (cases cmd; auto)+
  have p32: "P < 2 ^ 32" using assms(7) by simp
  have "cstring (at ?m2 (of_nat (P + length lead))) cmd" using tl(1) assms(7) by simp
  moreover have "?m2 x = bmem s x" if "x \<notin> span P (P + length (line_bytes (Line lead cmd trail)))" for x
    using tl(2) [of x] that assms(7) by (auto simp: span_def)
  moreover have e: "of_nat (P + length lead) + of_nat (length (cmd @ trail)) = (of_nat (P + length lead + length (cmd @ trail)) :: u32)"
    "of_nat (P + length lead + length (cmd @ trail)) + 1 = (of_nat (P + length (line_bytes (Line lead cmd trail))) :: u32)" by simp_all
  have "layout_loop brd config (of_nat T) (of_nat L) (of_nat P) c l avail kl s =
    bindB (layout_line brd config (of_nat (P + length lead)) c l avail kl (set_mem ?m2 s)) (\<lambda>(cont, c, avail, kl) s.
      if cont then layout_loop brd config (of_nat T) (of_nat L) (of_nat (P + length (line_bytes (Line lead cmd trail)))) c (l + 1) avail kl s
      else Some (Inr (avail, kl), s))"
    using sc in_text [OF assms(3-6) p32] h
    by (subst layout_loop.simps) (simp add: Let_def del: of_nat_add length_append line_bytes.simps, unfold e, rule refl)
  ultimately show ?thesis by blast
qed

subsection \<open>Walking through a configuration\<close>

text \<open>Archive, text, kick list and the contents of the first module lie apart.\<close>

definition kick_site :: "u32 \<Rightarrow> zentry list \<Rightarrow> nat \<Rightarrow> nat \<Rightarrow> nat \<Rightarrow> nat \<Rightarrow> u32 set \<Rightarrow> bool" where
  "kick_site a es T L k hi X \<longleftrightarrow> 0 < T \<and> T + L \<le> 2 ^ 32 \<and> L < 2 ^ 31 \<and> zip_span a es \<inter> span k hi = {} \<and> X \<inter> span k hi = {} \<and>
     span T (T + L) \<inter> (span k hi \<union> X) = {} \<and> zip_span a es \<inter> X = {} \<and> zip_span a es \<inter> span T (T + L) = {}"

definition text_bytes :: "kline list \<Rightarrow> u8 list" where
  "text_bytes ls = concat (map line_bytes ls)"

text \<open>What is left of the text starts at \<open>P\<close>.\<close>

definition lines_at :: "nat \<Rightarrow> nat \<Rightarrow> mem \<Rightarrow> nat \<Rightarrow> kline list \<Rightarrow> bool" where
  "lines_at T L m P ls \<longleftrightarrow> T \<le> P \<and> P + length (text_bytes ls) = T + L \<and> list_all wf_line ls \<and>
     bytes m (of_nat P) (length (text_bytes ls)) = text_bytes ls"

lemma text_bytes_simps [simp]: "text_bytes [] = []" "text_bytes (l # ls) = line_bytes l @ text_bytes ls"
  by (simp_all add: text_bytes_def)

lemma length_line_bytes: "0 < length (line_bytes l)"
  by (cases l) simp_all

lemma lines_at_Cons:
  assumes "lines_at T L m P (l # ls)"
  shows "wf_line l" "T \<le> P" "P < T + L" "P + length (line_bytes l) \<le> T + L" "bytes m (of_nat P) (length (line_bytes l)) = line_bytes l"
    "lines_at T L m (P + length (line_bytes l)) ls"
proof -
  have b: "bytes m (of_nat P) (length (line_bytes l @ text_bytes ls)) = line_bytes l @ text_bytes ls" using assms by (simp add: lines_at_def)
  note p = list_at_parts [OF b]
  show "bytes m (of_nat P) (length (line_bytes l)) = line_bytes l" by (rule p(1))
  show l: "wf_line l" "T \<le> P" "P + length (line_bytes l) \<le> T + L" "lines_at T L m (P + length (line_bytes l)) ls"
    using assms p(2) by (simp_all add: lines_at_def)
  show "P < T + L" using l(3) length_line_bytes [of l] by linarith
qed

lemma lines_at_frame:
  assumes "lines_at T L m P ls" "T + L \<le> 2 ^ 32" "\<And>x. x \<in> span P (T + L) \<Longrightarrow> m' x = m x"
  shows "lines_at T L m' P ls"
proof -
  have len: "P + length (text_bytes ls) = T + L" using assms(1) by (simp add: lines_at_def)
  then have "region (of_nat P) (length (text_bytes ls)) = span P (T + L)" using assms(2) region_span [of P "length (text_bytes ls)"] by simp
  then have "bytes m' (of_nat P) (length (text_bytes ls)) = bytes m (of_nat P) (length (text_bytes ls))"
    using assms(3) by (intro bytes_cong) simp
  then show ?thesis using assms(1) by (simp add: lines_at_def)
qed

lemma loop_end:
  assumes "lines_at T L m P []" "L < 2 ^ 31" "0 < T" "T + L \<le> 2 ^ 32"
  shows "layout_loop brd config (of_nat T) (of_nat L) (of_nat P) c l avail kl s = Some (Inr (avail, kl), s)"
proof -
  have "P = T + L" using assms(1) by (simp add: lines_at_def)
  then have "of_nat P - of_nat T = (of_nat L :: u32)" by simp
  then show ?thesis by (subst layout_loop.simps) simp
qed

lemma loop_skip:
  assumes "lines_at T L (bmem s) P (Skip lead rest # ls)" "kick_site a es T L k hi X"
  shows "layout_loop brd config (of_nat T) (of_nat L) (of_nat P) c l avail kl s =
    layout_loop brd config (of_nat T) (of_nat L) (of_nat (P + length (line_bytes (Skip lead rest)))) c (l + 1) avail kl s"
  using lines_at_Cons [OF assms(1)] assms(2) by (intro layout_loop_skip) (auto simp: kick_site_def)

lemma loop_line:
  assumes tx: "lines_at T L (bmem s) P (Line lead cmd trail # ls)" and site: "kick_site a es T L k hi X" and s: "booting a es s"
  shows "\<exists>s2. cstring (at (bmem s2) (of_nat (P + length lead))) cmd \<and> region (of_nat (P + length lead)) (Suc (length cmd)) \<subseteq> span T (T + L) \<and>
    lines_at T L (bmem s2) (P + length (line_bytes (Line lead cmd trail))) ls \<and> booting a es s2 \<and> bf s2 = bf s \<and>
    (\<forall>x. x \<notin> span T (T + L) \<longrightarrow> bmem s2 x = bmem s x) \<and>
    layout_loop brd config (of_nat T) (of_nat L) (of_nat P) c l avail kl s =
    bindB (layout_line brd config (of_nat (P + length lead)) c l avail kl s2) (\<lambda>(cont, c, avail, kl) s.
      if cont then layout_loop brd config (of_nat T) (of_nat L) (of_nat (P + length (line_bytes (Line lead cmd trail)))) c (l + 1) avail kl s
      else Some (Inr (avail, kl), s))"
proof -
  let ?l = "Line lead cmd trail"
  note t = lines_at_Cons [OF tx]
  have k: "0 < P" "T + L \<le> 2 ^ 32" "L < 2 ^ 31" "zip_span a es \<inter> span T (T + L) = {}" using site t(2) by (auto simp: kick_site_def)
  obtain m2 where m: "cstring (at m2 (of_nat (P + length lead))) cmd" "\<And>x. x \<notin> span P (P + length (line_bytes ?l)) \<Longrightarrow> m2 x = bmem s x"
    "layout_loop brd config (of_nat T) (of_nat L) (of_nat P) c l avail kl s =
    bindB (layout_line brd config (of_nat (P + length lead)) c l avail kl (set_mem m2 s)) (\<lambda>(cont, c, avail, kl) s.
      if cont then layout_loop brd config (of_nat T) (of_nat L) (of_nat (P + length (line_bytes ?l))) c (l + 1) avail kl s
      else Some (Inr (avail, kl), s))"
    using layout_loop_line [OF t(5,1,2,3) k(3,1) order_trans [OF t(4) k(2)]] by blast
  have sub: "span P (P + length (line_bytes ?l)) \<subseteq> span T (T + L)" using t(2,4) by (auto simp: span_def)
  have fr: "\<forall>x. x \<notin> span T (T + L) \<longrightarrow> m2 x = bmem s x" using m(2) sub by blast
  have "lines_at T L m2 (P + length (line_bytes ?l)) ls"
    by (rule lines_at_frame [OF t(6) k(2)]) (rule m(2), auto simp: span_def)
  moreover have "booting a es (set_mem m2 s)" by (rule booting_mem [OF s]) (use fr k(4) in blast)
  moreover have "region (of_nat (P + length lead)) (Suc (length cmd)) \<subseteq> span T (T + L)"
    using region_span [of "P + length lead" "Suc (length cmd)"] t(2,4) k(2) by (auto simp: span_def)
  ultimately show ?thesis using m(1,3) fr by (intro exI [of _ "set_mem m2 s"]) (simp add: set_mem_def)
qed

fun module_items :: "nat \<Rightarrow> zentry list \<Rightarrow> item list" where
  "module_items av [] = []"
| "module_items av (e # es) = module_item av e # module_items (av + module_room e) es"

fun modules_end :: "nat \<Rightarrow> zentry list \<Rightarrow> nat" where
  "modules_end av [] = av"
| "modules_end av (e # es) = modules_end (av + module_room e) es"

lemma modules_end_mono: "av \<le> modules_end av es"
proof (induction es arbitrary: av)
  case (Cons e es)
  show ?case using Cons.IH [of "av + module_room e"] by simp
qed simp

lemma room_pos: "0 < module_room e" "0 < exec_room e"
  using round_up_bounds(1) [of "head_size e" 5] round_up_bounds(1) [of "round_up (length (zdata e)) 2 + head_size e" 5]
  by (simp_all add: module_room_def exec_room_def head_size_def)

lemma of_nat_nz: "0 < n \<Longrightarrow> n < 2 ^ 32 \<Longrightarrow> of_nat n \<noteq> (0 :: u32)"
  by (metis less_not_refl unat_0 unat_of_nat32)

lemma words_nz: "CHR 0x00 \<notin> set ''LABEL''" "CHR 0x00 \<notin> set ''EXEC''" "CHR 0x00 \<notin> set ''MODULE''"
  by simp_all

text \<open>The text does not change while modules are loaded, and the list does not change while lines are cut.\<close>

lemma text_kept:
  assumes "lines_at T L (bmem s) P ls" "kick_site a es T L k hi X" "hi' \<le> hi" "\<And>y. y \<notin> span k hi' \<union> X \<Longrightarrow> bmem s' y = bmem s y"
  shows "lines_at T L (bmem s') P ls"
proof (rule lines_at_frame [OF assms(1)])
  show "T + L \<le> 2 ^ 32" using assms(2) by (simp add: kick_site_def)
  fix x assume "x \<in> span P (T + L)"
  then have "x \<in> span T (T + L)" using assms(1) by (auto simp: lines_at_def span_def)
  moreover have "span k hi' \<subseteq> span k hi" using assms(3) by (auto simp: span_def)
  ultimately show "bmem s' x = bmem s x" using assms(2,4) unfolding kick_site_def by blast
qed

lemma list_kept:
  assumes "kicked (bmem s) k av X its" "kick_site a es T L k hi X" "av \<le> hi" "\<forall>x. x \<notin> span T (T + L) \<longrightarrow> bmem s' x = bmem s x"
  shows "kicked (bmem s') k av X its"
proof (rule kicked_frame [OF assms(1)])
  fix x assume "x \<in> span k av \<union> X"
  moreover have "span k av \<subseteq> span k hi" using assms(3) by (auto simp: span_def)
  ultimately show "bmem s' x = bmem s x" using assms(2,4) unfolding kick_site_def by blast
qed

lemma kicked_empty: "kicked m k av X its \<Longrightarrow> alist_empty m (of_nat k) \<longleftrightarrow> its = []"
  using alist_empty_iff [of m "of_nat k" "heads (map it_head its)"] stacked_layout [of k "map it_head its" av] by (simp add: kicked_def)

text \<open>One line of each kind, read at \<open>p\<close> in the text at \<open>T\<close>.\<close>

lemma module_line:
  assumes site: "kick_site a es T L k hi X" and g: "grants brd lim (bf s)" "hi < lim"
    and s: "cstring (at (bmem s) p) cmd" "region p (Suc (length cmd)) \<subseteq> span T (T + L)" "booting a es s" "kicked (bmem s) k av X its" "its \<noteq> []"
    and cmd: "arg_of ''LABEL'' cmd = None" "arg_of ''MODULE'' cmd = Some (zname (es ! i))" "names es i" "av + module_room (es ! i) \<le> hi"
  shows "\<exists>s'. layout_line brd config p config l (of_nat av) (of_nat k) s = Some (Inr (True, config, of_nat (av + module_room (es ! i)), of_nat k), s') \<and>
    booting a es s' \<and> bf s' = bf s \<and> kicked (bmem s') k (av + module_room (es ! i)) X (its @ [module_item av (es ! i)]) \<and>
    (\<forall>x. x \<notin> span k (av + module_room (es ! i)) \<longrightarrow> bmem s' x = bmem s x)"
proof -
  let ?hi = "av + module_room (es ! i)"
  obtain q where q: "skip_while SPCORTAB (bmem s) (p + of_nat (length ''MODULE'')) = Some q" "cstring (at (bmem s) q) (zname (es ! i))"
    "region q (Suc (length (zname (es ! i)))) \<subseteq> region p (Suc (length cmd))" using arg_pointer [OF s(1) cmd(2)] by blast
  have "span k ?hi \<subseteq> span k hi" using cmd(4) by (auto simp: span_def)
  then have ap: "zip_span a es \<inter> span k ?hi = {}" "X \<inter> span k ?hi = {}" "region q (Suc (length (zname (es ! i)))) \<inter> span k ?hi = {}"
    using site q(3) s(2) unfolding kick_site_def by blast+
  have room: "module_room (es ! i) < 2 ^ 32 - 32" using names_room [OF _ cmd(3)] s(3) by (auto simp: booting_def)
  obtain s' where s': "load_module_from_zip brd q 0 (of_nat av) (of_nat k) s = Some (Inr (of_nat (module_room (es ! i))), s')"
    "booting a es s'" "bf s' = bf s" "kicked (bmem s') k ?hi X (its @ [module_item av (es ! i)])" "\<forall>x. x \<notin> span k ?hi \<longrightarrow> bmem s' x = bmem s x"
    using load_module_item [OF s(3) cmd(3) q(2) s(4) refl le_less_trans [OF cmd(4) g(2)] g(1) room ap] by auto
  have "of_nat (module_room (es ! i)) \<noteq> (0 :: u32)" using room_pos(1) room by (intro of_nat_nz) auto
  then show ?thesis
    using cmd(1,2) KEYWORD_arg [OF s(1)] words_nz kicked_empty [OF s(4)] s(5) q(1) s' by (simp add: layout_line_def load_line_def)
qed

lemma exec_line:
  assumes site: "kick_site a es T L k hi (span x (x + n))" and g: "grants brd lim (bf s)" "hi < lim" "exec_addr brd = of_nat x" "0 < x" "x + n < lim"
    and s: "cstring (at (bmem s) p) cmd" "region p (Suc (length cmd)) \<subseteq> span T (T + L)" "booting a es s" "kicked (bmem s) k av (span x (x + n)) []"
    and cmd: "arg_of ''LABEL'' cmd = None" "arg_of ''EXEC'' cmd = Some (zname (es ! i))" "names es i" "n = length (zdata (es ! i))" "av + exec_room (es ! i) \<le> hi"
  shows "\<exists>s'. layout_line brd config p config l (of_nat av) (of_nat k) s = Some (Inr (True, config, of_nat (av + exec_room (es ! i)), of_nat k), s') \<and>
    booting a es s' \<and> bf s' = bf s \<and> kicked (bmem s') k (av + exec_room (es ! i)) (span x (x + n)) [exec_item x av (es ! i)] \<and>
    (\<forall>y. y \<notin> span k (av + exec_room (es ! i)) \<union> span x (x + n) \<longrightarrow> bmem s' y = bmem s y)"
proof -
  let ?hi = "av + exec_room (es ! i)" and ?X = "span x (x + n)"
  obtain q where q: "skip_while SPCORTAB (bmem s) (p + of_nat (length ''EXEC'')) = Some q" "cstring (at (bmem s) q) (zname (es ! i))"
    "region q (Suc (length (zname (es ! i)))) \<subseteq> region p (Suc (length cmd))" using arg_pointer [OF s(1) cmd(2)] by blast
  have "span k ?hi \<subseteq> span k hi" using cmd(5) by (auto simp: span_def)
  then have ap: "zip_span a es \<inter> span k ?hi = {}" "?X \<inter> span k ?hi = {}" "region q (Suc (length (zname (es ! i)))) \<inter> (span k ?hi \<union> ?X) = {}"
    "zip_span a es \<inter> ?X = {}"
    using site q(3) s(2) unfolding kick_site_def by blast+
  have room: "module_room (es ! i) < 2 ^ 32 - 32" using names_room [OF _ cmd(3)] s(3) by (auto simp: booting_def)
  obtain s' where s': "load_module_from_zip brd q (of_nat x) (of_nat av) (of_nat k) s = Some (Inr (of_nat (exec_room (es ! i))), s')"
    "booting a es s'" "bf s' = bf s" "kicked (bmem s') k ?hi ?X [exec_item x av (es ! i)]" "\<forall>y. y \<notin> span k ?hi \<union> ?X \<longrightarrow> bmem s' y = bmem s y"
    using load_exec_item [OF s(3) cmd(3) q(2) s(4) _ _ g(4) refl le_less_trans [OF cmd(5) g(2)] g(1) room ap] g(5) cmd(4) by auto
  have "exec_room (es ! i) \<le> hi" using cmd(5) by simp
  then have "of_nat (exec_room (es ! i)) \<noteq> (0 :: u32)" using room_pos(2) g(1,2) by (intro of_nat_nz) (auto simp: grants_def)
  then show ?thesis
    using cmd(1,2) KEYWORD_arg [OF s(1)] words_nz kicked_empty [OF s(4)] q(1) s' g(3) by (simp add: layout_line_def load_line_def)
qed

lemma chosen_label:
  assumes site: "kick_site a es T L k hi X" and g: "grants brd lim (bf s)" "hi < lim" "0 < k" "k + 12 \<le> hi"
    and s: "cstring (at (bmem s) p) cmd" "booting a es s" "arg_of ''LABEL'' cmd \<noteq> None" "config = c + 1"
  shows "\<exists>s'. layout_line brd config p c l (of_nat k) 0 s = Some (Inr (True, config, of_nat (k + 12), of_nat k), s') \<and>
    booting a es s' \<and> bf s' = bf s \<and> kicked (bmem s') k (k + 12) X [] \<and> (\<forall>y. y \<notin> span k (k + 12) \<longrightarrow> bmem s' y = bmem s y)"
proof -
  let ?s = "set_mem (alist_init (bmem s) (of_nat k)) s"
  have hi: "hi < 2 ^ 32" using g(1,2) by (auto simp: grants_def)
  have "do_claim brd (of_nat k) 12 s = Some (Inr (of_nat k), s)"
    using g hi by (intro do_claim_ok [of _ lim]) (simp_all add: unat_of_nat32)
  then have "layout_line brd config p c l (of_nat k) 0 s = Some (Inr (True, config, of_nat (k + 12), of_nat k), ?s)"
    using s(3,4) KEYWORD_arg [OF s(1) words_nz(1)] of_nat_nz [OF g(3)] g(4) hi by (simp add: layout_line_def label_line_def Let_def)
  moreover have r: "region (of_nat k) 12 = span k (k + 12)" using g(4) hi by (intro region_span) simp
  then have fr: "\<forall>y. y \<notin> span k (k + 12) \<longrightarrow> bmem ?s y = bmem s y" by (simp add: set_mem_def alist_init_frame)
  moreover have "booting a es ?s"
  proof (rule booting_mem [OF s(2)])
    fix y assume "y \<in> zip_span a es"
    moreover have "span k (k + 12) \<subseteq> span k hi" using g(4) by (auto simp: span_def)
    ultimately have "y \<notin> span k (k + 12)" using site unfolding kick_site_def by blast
    then show "alist_init (bmem s) (of_nat k) y = bmem s y" using fr by (simp add: set_mem_def)
  qed
  moreover have "kicked (bmem ?s) k (k + 12) X []" using kicked_init [of k "bmem s" X] g(4) hi by (simp add: set_mem_def)
  ultimately show ?thesis by (intro exI [of _ ?s]) (simp add: set_mem_def)
qed

lemma modules_loop:
  assumes site: "kick_site a es T L k hi X" and g: "grants brd lim f" "hi < lim"
    and "lines_at T L (bmem s) P ls" "booting a es s" "bf s = f" "kicked (bmem s) k av X its" "its \<noteq> []"
      "module_paths ls = Some paths" "list_all2 (\<lambda>p i. names es i \<and> zname (es ! i) = p) paths is" "modules_end av (map ((!) es) is) = hi"
  shows "\<exists>s'. layout_loop brd config (of_nat T) (of_nat L) (of_nat P) config l (of_nat av) (of_nat k) s = Some (Inr (of_nat hi, of_nat k), s') \<and>
    booting a es s' \<and> bf s' = f \<and> kicked (bmem s') k hi X (its @ module_items av (map ((!) es) is))"
  using assms(4-11)
proof (induction ls arbitrary: P l av its s paths "is" rule: module_paths.induct)
  case 1
  then have "is = []" "hi = av" by auto
  moreover have "layout_loop brd config (of_nat T) (of_nat L) (of_nat P) config l (of_nat av) (of_nat k) s = Some (Inr (of_nat av, of_nat k), s)"
    using site by (intro loop_end [OF 1(1)]) (simp_all add: kick_site_def)
  ultimately show ?case using 1 by simp
next
  case (2 lead rest ls)
  show ?case
    unfolding loop_skip [OF 2(2) site] using 2(3-) lines_at_Cons(6) [OF 2(2)] by (intro "2.IH") simp_all
next
  case (3 lead cmd trail ls)
  let ?P = "P + length (line_bytes (Line lead cmd trail))" and ?p = "of_nat (P + length lead) :: u32"
  obtain s2 where s2: "cstring (at (bmem s2) ?p) cmd" "region ?p (Suc (length cmd)) \<subseteq> span T (T + L)" "lines_at T L (bmem s2) ?P ls"
    "booting a es s2" "bf s2 = f" "\<forall>x. x \<notin> span T (T + L) \<longrightarrow> bmem s2 x = bmem s x"
    and loop: "layout_loop brd config (of_nat T) (of_nat L) (of_nat P) config l (of_nat av) (of_nat k) s =
      bindB (layout_line brd config ?p config l (of_nat av) (of_nat k) s2) (\<lambda>(cont, c, avail, kl) s.
        if cont then layout_loop brd config (of_nat T) (of_nat L) (of_nat ?P) c (l + 1) avail kl s else Some (Inr (avail, kl), s))"
    using loop_line [OF 3(2) site 3(3)] 3(4) by blast
  have hi: "av \<le> hi" using modules_end_mono [of av] 3(9) by metis
  have K: "kicked (bmem s2) k av X its" by (rule list_kept [OF 3(5) site hi s2(6)])
  show ?case
  proof (cases "arg_of ''LABEL'' cmd")
    case (Some t)
    then have "is = []" "hi = av" using 3(7-9) by auto
    moreover have "layout_line brd config ?p config l (of_nat av) (of_nat k) s2 = Some (Inr (False, config + 1, of_nat av, of_nat k), s2)"
      using Some KEYWORD_arg [OF s2(1) words_nz(1)] by (simp add: layout_line_def label_line_def)
    ultimately show ?thesis using loop s2 K by simp
  next
    case None
    then obtain path ps where ps: "arg_of ''MODULE'' cmd = Some path" "module_paths ls = Some ps" "paths = path # ps"
      using 3(7) by (auto simp: bind_eq_Some_conv)
    then obtain i js where i: "is = i # js" "names es i" "zname (es ! i) = path" "list_all2 (\<lambda>p i. names es i \<and> zname (es ! i) = p) ps js"
      using 3(8) by (auto simp: list_all2_Cons1)
    let ?hi = "av + module_room (es ! i)"
    have le: "?hi \<le> hi" using 3(9) i(1) modules_end_mono [of ?hi] by (metis list.simps(9) modules_end.simps(2))
    obtain s3 where "layout_line brd config ?p config l (of_nat av) (of_nat k) s2 = Some (Inr (True, config, of_nat ?hi, of_nat k), s3)"
      and s3: "booting a es s3" "bf s3 = f" "kicked (bmem s3) k ?hi X (its @ [module_item av (es ! i)])" "\<forall>x. x \<notin> span k ?hi \<longrightarrow> bmem s3 x = bmem s2 x"
      using module_line [OF site _ g(2) s2(1,2,4) K 3(6) None _ i(2) le, of brd config l] g(1) s2(5) ps(1) i(3) by auto
    moreover have "lines_at T L (bmem s3) ?P ls" using s3(4) by (intro text_kept [OF s2(3) site le]) blast
    moreover have "\<exists>s'. layout_loop brd config (of_nat T) (of_nat L) (of_nat ?P) config (l + 1) (of_nat ?hi) (of_nat k) s3 = Some (Inr (of_nat hi, of_nat k), s') \<and>
        booting a es s' \<and> bf s' = f \<and> kicked (bmem s') k hi X ((its @ [module_item av (es ! i)]) @ module_items ?hi (map ((!) es) js))"
      by (rule "3.IH" [where paths = ps]) (use None ps i 3(9) s3 calculation in simp_all)
    ultimately show ?thesis using loop i(1) by simp
  qed
qed

text \<open>The modules of a configuration whose list starts at \<open>k\<close>, and the first address behind them.\<close>

fun kick_items :: "nat \<Rightarrow> nat \<Rightarrow> zentry list \<Rightarrow> item list" where
  "kick_items x av [] = []"
| "kick_items x av (e # es) = exec_item x av e # module_items (av + exec_room e) es"

fun kick_end :: "nat \<Rightarrow> zentry list \<Rightarrow> nat" where
  "kick_end av [] = av"
| "kick_end av (e # es) = modules_end (av + exec_room e) es"

lemma exec_loop:
  assumes site: "kick_site a es T L k hi (span x (x + n))" and g: "grants brd lim f" "hi < lim" "exec_addr brd = of_nat x" "0 < x" "x + n < lim"
    and "lines_at T L (bmem s) P ls" "booting a es s" "bf s = f" "kicked (bmem s) k av (span x (x + n)) []"
      "exec_paths ls = Some paths" "list_all2 (\<lambda>p i. names es i \<and> zname (es ! i) = p) paths is" "kick_end av (map ((!) es) is) = hi"
      "n = length (zdata (es ! hd is))"
  shows "\<exists>s'. layout_loop brd config (of_nat T) (of_nat L) (of_nat P) config l (of_nat av) (of_nat k) s = Some (Inr (of_nat hi, of_nat k), s') \<and>
    booting a es s' \<and> bf s' = f \<and> kicked (bmem s') k hi (span x (x + n)) (kick_items x av (map ((!) es) is))"
  using assms(7-11)
proof (induction ls arbitrary: P l s rule: exec_paths.induct)
  case 1
  then show ?case by simp
next
  case (2 lead rest ls)
  show ?case
    unfolding loop_skip [OF 2(2) site] using 2(3-) lines_at_Cons(6) [OF 2(2)] by (intro "2.IH") simp_all
next
  case (3 lead cmd trail ls)
  let ?P = "P + length (line_bytes (Line lead cmd trail))" and ?p = "of_nat (P + length lead) :: u32" and ?X = "span x (x + n)"
  obtain s2 where s2: "cstring (at (bmem s2) ?p) cmd" "region ?p (Suc (length cmd)) \<subseteq> span T (T + L)" "lines_at T L (bmem s2) ?P ls"
    "booting a es s2" "bf s2 = f" "\<forall>x. x \<notin> span T (T + L) \<longrightarrow> bmem s2 x = bmem s x"
    and loop: "layout_loop brd config (of_nat T) (of_nat L) (of_nat P) config l (of_nat av) (of_nat k) s =
      bindB (layout_line brd config ?p config l (of_nat av) (of_nat k) s2) (\<lambda>(cont, c, avail, kl) s.
        if cont then layout_loop brd config (of_nat T) (of_nat L) (of_nat ?P) c (l + 1) avail kl s else Some (Inr (avail, kl), s))"
    using loop_line [OF 3(1) site 3(2)] 3(3) by blast
  have no: "arg_of ''LABEL'' cmd = None" using 3(5) by (auto split: if_splits)
  then obtain path ps where ps: "arg_of ''EXEC'' cmd = Some path" "module_paths ls = Some ps" "paths = path # ps"
    using 3(5) by (auto simp: bind_eq_Some_conv)
  then obtain i js where i: "is = i # js" "names es i" "zname (es ! i) = path" "list_all2 (\<lambda>p i. names es i \<and> zname (es ! i) = p) ps js"
    using assms(12) by (auto simp: list_all2_Cons1)
  let ?hi = "av + exec_room (es ! i)"
  have end': "modules_end ?hi (map ((!) es) js) = hi" using assms(13) i(1) by simp
  then have le: "?hi \<le> hi" using modules_end_mono [of ?hi] by metis
  have K: "kicked (bmem s2) k av ?X []" using le by (intro list_kept [OF 3(4) site _ s2(6)]) simp
  have n: "n = length (zdata (es ! i))" using assms(14) i(1) by simp
  obtain s3 where "layout_line brd config ?p config l (of_nat av) (of_nat k) s2 = Some (Inr (True, config, of_nat ?hi, of_nat k), s3)"
    and s3: "booting a es s3" "bf s3 = f" "kicked (bmem s3) k ?hi ?X [exec_item x av (es ! i)]" "\<forall>y. y \<notin> span k ?hi \<union> ?X \<longrightarrow> bmem s3 y = bmem s2 y"
    using exec_line [OF site _ g(2-5) s2(1,2,4) K no _ i(2) n le, of config l] g(1) s2(5) ps(1) i(3) by auto
  moreover have t3: "lines_at T L (bmem s3) ?P ls" using s3(4) by (intro text_kept [OF s2(3) site le]) blast
  have "\<exists>s'. layout_loop brd config (of_nat T) (of_nat L) (of_nat ?P) config (l + 1) (of_nat ?hi) (of_nat k) s3 = Some (Inr (of_nat hi, of_nat k), s') \<and>
      booting a es s' \<and> bf s' = f \<and> kicked (bmem s') k hi ?X ([exec_item x av (es ! i)] @ module_items ?hi (map ((!) es) js))"
    by (rule modules_loop [OF site g(1,2) t3 s3(1-3) _ ps(2) i(4) end']) simp
  ultimately show ?case using loop i(1) by simp
qed

lemma exec_paths_Cons: "exec_paths ls = Some paths \<Longrightarrow> paths \<noteq> []"
  by (induction ls rule: exec_paths.induct) (auto simp: bind_eq_Some_conv split: if_splits)

lemma config_paths_Cons: "config_paths n ls = Some paths \<Longrightarrow> paths \<noteq> []"
  by (induction n ls rule: config_paths.induct) (auto split: if_splits dest: exec_paths_Cons)

lemma kick_end_mono: "av \<le> kick_end av es"
  using modules_end_mono by (cases es) (auto intro: order_trans [OF le_add1])

lemma config_loop:
  assumes site: "kick_site a es T L k hi (span x (x + n))" and g: "grants brd lim f" "hi < lim" "exec_addr brd = of_nat x" "0 < x" "x + n < lim" "0 < k"
    and tx: "lines_at T L (bmem s) P ls" "booting a es s" "bf s = f" "config_paths m ls = Some paths" "config = c + int m" "1 \<le> m"
    and fs: "list_all2 (\<lambda>p i. names es i \<and> zname (es ! i) = p) paths is" "kick_end (k + 12) (map ((!) es) is) = hi" "n = length (zdata (es ! hd is))"
  shows "\<exists>s'. layout_loop brd config (of_nat T) (of_nat L) (of_nat P) c l (of_nat k) 0 s = Some (Inr (of_nat hi, of_nat k), s') \<and>
    booting a es s' \<and> bf s' = f \<and> kicked (bmem s') k hi (span x (x + n)) (kick_items x (k + 12) (map ((!) es) is))"
  using tx
proof (induction m ls arbitrary: P l s c rule: config_paths.induct)
  case (1 m)
  then show ?case by simp
next
  case (2 m lead rest ls)
  show ?case
    unfolding loop_skip [OF 2(2) site] using 2(3-) lines_at_Cons(6) [OF 2(2)] by (intro "2.IH") simp_all
next
  case (3 m lead cmd trail ls)
  let ?P = "P + length (line_bytes (Line lead cmd trail))" and ?p = "of_nat (P + length lead) :: u32" and ?X = "span x (x + n)"
  obtain s2 where s2: "cstring (at (bmem s2) ?p) cmd" "lines_at T L (bmem s2) ?P ls" "booting a es s2" "bf s2 = f"
    and loop: "layout_loop brd config (of_nat T) (of_nat L) (of_nat P) c l (of_nat k) 0 s =
      bindB (layout_line brd config ?p c l (of_nat k) 0 s2) (\<lambda>(cont, c, avail, kl) s.
        if cont then layout_loop brd config (of_nat T) (of_nat L) (of_nat ?P) c (l + 1) avail kl s else Some (Inr (avail, kl), s))"
    using loop_line [OF "3.prems"(1) site "3.prems"(2)] "3.prems"(3) by blast
  note kw = KEYWORD_arg [OF s2(1) words_nz(1)]
  have hi: "k + 12 \<le> hi" "hi < 2 ^ 32" using kick_end_mono [of "k + 12"] fs(2) g(1,2) by (auto simp: grants_def)
  consider "arg_of ''LABEL'' cmd = None" | "arg_of ''LABEL'' cmd \<noteq> None" "m = 1" | "arg_of ''LABEL'' cmd \<noteq> None" "m \<noteq> 1" by blast
  then show ?case
  proof cases
    case 1
    then have "layout_line brd config ?p c l (of_nat k) 0 s2 = Some (Inr (True, c, of_nat k, 0), s2)"
      using kw "3.prems"(5,6) by (simp add: layout_line_def)
    then show ?thesis using "3.IH"(1) [OF 1 s2(2-4)] "3.prems"(4-6) 1 loop by simp
  next
    case 2
    then obtain s3 where "layout_line brd config ?p c l (of_nat k) 0 s2 = Some (Inr (True, config, of_nat (k + 12), of_nat k), s3)"
      and s3: "booting a es s3" "bf s3 = f" "kicked (bmem s3) k (k + 12) ?X []" "\<forall>y. y \<notin> span k (k + 12) \<longrightarrow> bmem s3 y = bmem s2 y"
      using chosen_label [OF site _ g(2,6) hi(1) s2(1,3), of brd config c l] g(1) s2(4) "3.prems"(5) by auto
    moreover have "lines_at T L (bmem s3) ?P ls" using s3(4) by (intro text_kept [OF s2(2) site hi(1)]) blast
    moreover have "exec_paths ls = Some paths" using 2 "3.prems"(4) by auto
    ultimately show ?thesis
      using exec_loop [OF site g(1-5) _ _ _ _ _ fs, of s3 ?P ls config "l + 1"] loop by simp
  next
    case 3
    then have "layout_line brd config ?p c l (of_nat k) 0 s2 = Some (Inr (True, c + 1, of_nat k, 0), s2)"
      using kw \<open>config = c + int m\<close> \<open>1 \<le> m\<close> by (auto simp: layout_line_def label_line_def Let_def)
    moreover have "\<exists>s'. layout_loop brd config (of_nat T) (of_nat L) (of_nat ?P) (c + 1) (l + 1) (of_nat k) 0 s2 = Some (Inr (of_nat hi, of_nat k), s') \<and>
      booting a es s' \<and> bf s' = f \<and> kicked (bmem s') k hi ?X (kick_items x (k + 12) (map ((!) es) is))"
      by (rule "3.IH"(2)) (use 3 s2 \<open>config_paths m (Line lead cmd trail # ls) = Some paths\<close> \<open>config = c + int m\<close> \<open>1 \<le> m\<close> in \<open>auto simp: of_nat_diff\<close>)
    ultimately show ?thesis using loop by simp
  qed
qed

subsection \<open>boot_aos_zipkick()\<close>

abbreviation KICK_ADDR :: nat where "KICK_ADDR \<equiv> 0xec00000"

text \<open>
  The memory that is needed: the archive at \<open>a\<close>, behind it the text of \<open>len\<close> bytes and two more, the contents of the
  first module at \<open>x\<close> and the kick list with the modules \<open>fs\<close> at its fixed address; all apart from each other
  and below \<open>lim\<close>.
\<close>

definition kick_room :: "u32 \<Rightarrow> zentry list \<Rightarrow> nat \<Rightarrow> nat \<Rightarrow> zentry list \<Rightarrow> nat \<Rightarrow> bool" where
  "kick_room a es len x fs lim \<longleftrightarrow>
     (let lo = unat a; hi = lo + length (zip_image es) + len + 2; xe = x + length (zdata (hd fs)); ke = kick_end (KICK_ADDR + 12) fs in
      hi < lim \<and> xe < lim \<and> ke < lim \<and> 0 < x \<and> len < 2 ^ 31 \<and>
      (hi \<le> KICK_ADDR \<or> ke \<le> lo) \<and> (hi \<le> x \<or> xe \<le> lo) \<and> (xe \<le> KICK_ADDR \<or> ke \<le> x))"

lemma kick_room_site:
  assumes "kick_room a es len x fs lim" "lim \<le> 2 ^ 32"
  defines "T \<equiv> unat a + length (zip_image es)"
  shows "0 < T \<Longrightarrow> kick_site a es T len KICK_ADDR (kick_end (KICK_ADDR + 12) fs) (span x (x + length (zdata (hd fs))))"
  using assms(1,2) unfolding kick_site_def kick_room_def T_def zip_span_def Let_def
  by (auto simp: span_def)

text \<open>Opening the archive and extracting the text.\<close>

lemma kick_start:
  assumes ar: "archive (bmem s) a es" "statics_ok (bw s)" "grants brd lim (bf s)"
    and j: "names es j" "zname (es ! j) = chars KICKLAYOUT" "zdata (es ! j) = text_bytes ls" "list_all wf_line ls"
    and room: "unat a + length (zip_image es) + length (text_bytes ls) + 2 < lim" "length (text_bytes ls) < 2 ^ 31"
  defines "T \<equiv> unat a + length (zip_image es)" and "L \<equiv> length (text_bytes ls)"
  shows "\<exists>s1. booting a es s1 \<and> bf s1 = bf s \<and> lines_at T L (bmem s1) T ls \<and>
    boot_aos_zipkick brd a (of_nat (length (zip_image es))) config s =
    bindB (layout_loop brd config (of_nat T) (of_nat L) (of_nat T) 0 1 KICKLIST_ADDR 0 s1) (\<lambda>(avail, kicklist) s.
      if kicklist = 0 \<or> alist_empty (bmem s) kicklist then Some (Inl No_config, s) else Some (Inr (kicklist, avail), s))"
proof -
  let ?n = "length (zip_image es)"
  have j': "j < length es" "packed (es ! j)" "\<And>i. i < j \<Longrightarrow> zname (es ! i) \<noteq> zname (es ! j)" using j(1) by (auto simp: names_def)
  have lim: "T + L + 2 < lim" "lim \<le> 2 ^ 32" "L < 2 ^ 31" using room ar(3) by (simp_all add: grants_def T_def L_def)
  have a: "a \<noteq> 0" "?n < 2 ^ 31" "0 < ?n" using ar(1) by (simp_all add: archive_def zip_image_def)
  then have nz: "of_nat ?n \<noteq> (0 :: u32)" "0 < T" using of_nat_nz [of ?n] by (simp_all add: T_def)
  have aT: "a + of_nat ?n = of_nat T" by (simp add: T_def)
  have "es \<noteq> []" using j'(1) by auto
  note op = open_archive [OF ar(1) this, of "\<lparr>z_data = 0, z_len = 0, z_er = 0, z_gfh = 0\<rparr>"]
  let ?s0 = "s\<lparr>bz := opened a es\<rparr>"
  have "opened a es = dir_at a es 0" by (simp add: dir_at_def opened_def)
  then have b0: "booting a es ?s0" using ar(1,2) by (auto simp: booting_def)
  have "cstring (lit KICKLAYOUT) (zname (es ! j))" unfolding j(2) by (rule cstring_lit) simp
  note f = find_file_ok [OF b0 j'(1) this j'(3)]
  let ?s1 = "?s0\<lparr>bz := dir_at a es (Suc j)\<rparr>"
  have sz: "zip_file_uncompressedSize (bmem ?s1) (bz ?s1) = of_nat L" using size_ok_file [OF f(2) j'(1)] j(3) by (simp add: L_def)
  have cl: "do_claim brd (of_nat T) (of_nat L + 2) ?s1 = Some (Inr (of_nat T), ?s1)"
  proof (rule do_claim_ok)
    show "grants brd lim (bf ?s1)" using ar(3) by simp
    have "unat (of_nat (L + 2) :: u32) = L + 2" "unat (of_nat T :: u32) = T" using lim by (intro unat_of_nat32; linarith)+
    then show "unat (of_nat T :: u32) + unat (of_nat L + 2 :: u32) < lim" using lim by (simp add: add.commute)
  qed
  have zt: "zip_span a es \<inter> span T (T + L) = {}" by (auto simp: zip_span_def span_def T_def)
  have e: "0 < T" "T + length (zdata (es ! j)) \<le> 2 ^ 32" "zip_span a es \<inter> span T (T + length (zdata (es ! j))) = {}" "T < 2 ^ 32"
    using nz(2) lim j(3) zt by (simp_all add: L_def)
  obtain s2 where s2: "extract_to (of_nat T) ?s1 = Some (Inr (), s2)" "booting a es s2" "bf s2 = bf s"
    "bytes (bmem s2) (of_nat T) L = text_bytes ls"
    using extract_file [OF f(2) j'(1) _ j'(2) e] j(3) by (auto simp: L_def)
  define m where "m = (bmem s2)(of_nat T + of_nat L := LF, of_nat T + of_nat L + 1 := 0)"
  have out: "unat (of_nat T + of_nat L :: u32) = T + L" "unat (of_nat T + of_nat L + 1 :: u32) = T + L + 1"
    using unat_of_nat32 [of "T + L"] unat_of_nat32 [of "T + L + 1"] lim by (simp_all add: add.commute)
  have m: "m y = bmem s2 y" if "unat y < T + L" for y using that out by (auto simp: m_def)
  have "booting a es (set_mem m s2)" by (rule booting_mem [OF s2(2)]) (auto intro!: m simp: zip_span_def span_def T_def)
  moreover have "lines_at T L (bmem (set_mem m s2)) T ls"
  proof (rule lines_at_frame [of T L "bmem s2"])
    show "lines_at T L (bmem s2) T ls" using s2(4) j(4) by (simp add: lines_at_def L_def)
  qed (use lim in \<open>auto intro!: m simp: set_mem_def span_def\<close>)
  moreover have "boot_aos_zipkick brd a (of_nat ?n) config s =
    bindB (layout_loop brd config (of_nat T) (of_nat L) (of_nat T) 0 1 KICKLIST_ADDR 0 (set_mem m s2)) (\<lambda>(avail, kicklist) s.
      if kicklist = 0 \<or> alist_empty (bmem s) kicklist then Some (Inl No_config, s) else Some (Inr (kicklist, avail), s))"
    using a nz op f(1) sz cl s2(1) of_nat_nz [OF nz(2) e(4)]
    by (simp add: boot_aos_zipkick_def aT Let_def m_def)
  ultimately show ?thesis using s2(3) by (intro exI [of _ "set_mem m s2"]) (simp add: set_mem_def)
qed

lemma boot_kick_run:
  assumes "archive (bmem s) a es" "statics_ok (bw s)" "grants brd lim (bf s)" "1 \<le> config" "exec_addr brd = of_nat x"
    and "names es j" "zname (es ! j) = chars KICKLAYOUT" "zdata (es ! j) = text_bytes ls" "list_all wf_line ls"
    and "config_paths (nat config) ls = Some paths" "list_all2 (\<lambda>p i. names es i \<and> zname (es ! i) = p) paths is"
    and "fs = map ((!) es) is" "kick_room a es (length (text_bytes ls)) x fs lim"
  shows "\<exists>s'. boot_aos_zipkick brd a (of_nat (length (zip_image es))) config s =
      Some (Inr (KICKLIST_ADDR, of_nat (kick_end (KICK_ADDR + 12) fs)), s') \<and>
    alist (bmem s') KICKLIST_ADDR (map (\<lambda>it. of_nat (it_head it)) (kick_items x (KICK_ADDR + 12) fs)) \<and>
    list_all (loaded (bmem s')) (kick_items x (KICK_ADDR + 12) fs)"
proof -
  let ?T = "unat a + length (zip_image es)" and ?L = "length (text_bytes ls)" and ?hi = "kick_end (KICK_ADDR + 12) fs"
  let ?X = "span x (x + length (zdata (hd fs)))"
  obtain s1 where s1: "booting a es s1" "bf s1 = bf s" "lines_at ?T ?L (bmem s1) ?T ls"
    "boot_aos_zipkick brd a (of_nat (length (zip_image es))) config s =
     bindB (layout_loop brd config (of_nat ?T) (of_nat ?L) (of_nat ?T) 0 1 KICKLIST_ADDR 0 s1) (\<lambda>(avail, kicklist) s.
       if kicklist = 0 \<or> alist_empty (bmem s) kicklist then Some (Inl No_config, s) else Some (Inr (kicklist, avail), s))"
    using kick_start [OF assms(1-3,6-9), of config] assms(13) by (auto simp: kick_room_def Let_def)
  have lim: "lim \<le> 2 ^ 32" using assms(3) by (simp add: grants_def)
  have "0 < ?T" by (simp add: zip_image_def)
  then have site: "kick_site a es ?T ?L KICK_ADDR ?hi ?X" by (rule kick_room_site [OF assms(13) lim])
  have r: "?hi < lim" "x + length (zdata (hd fs)) < lim" "0 < x" using assms(13) by (simp_all add: kick_room_def Let_def)
  have ne: "is \<noteq> []" using config_paths_Cons [OF assms(10)] assms(11) by auto
  then have hd: "hd fs = es ! hd is" using assms(12) by (simp add: hd_map)
  have c: "config = 0 + int (nat config)" "1 \<le> nat config" using assms(4) by simp_all
  obtain s' where s': "layout_loop brd config (of_nat ?T) (of_nat ?L) (of_nat ?T) 0 1 (of_nat KICK_ADDR) 0 s1 = Some (Inr (of_nat ?hi, of_nat KICK_ADDR), s')"
    "kicked (bmem s') KICK_ADDR ?hi ?X (kick_items x (KICK_ADDR + 12) fs)"
    using config_loop [OF site assms(3) r(1) assms(5) r(3,2) _ s1(3,1,2) assms(10) c assms(11), of 1] assms(12) hd by auto
  have "kick_items x (KICK_ADDR + 12) fs \<noteq> []" using ne assms(12) by (cases "is") simp_all
  then show ?thesis
    using s1(4) s' kicked_empty [OF s'(2)] by (auto simp: kicked_def list_all_iff comp_def)
qed

text \<open>
  C2. Loading AmigaOS: from an archive with a Kicklayout and the files it names, stored or deflated, \<open>boot_aos_zipkick()\<close>
  builds the kick list of the given configuration. It returns the list and the first free address behind it; the list
  links the modules in the order of the text; each header has the name, the address and the size of its file (number 1
  for the first, 2 for the others), and the contents of the file are at that address: the first one where the board
  wants it, the others in front of their headers.
\<close>

theorem boot_loads_kickstart:
  assumes "archive (bmem s) a es" "statics_ok (bw s)" "grants brd lim (bf s)" "1 \<le> config" "exec_addr brd = of_nat x"
    and "names es j" "zname (es ! j) = chars KICKLAYOUT" "zdata (es ! j) = text_bytes ls" "list_all wf_line ls"
    and "config_paths (nat config) ls = Some paths" "list_all2 (\<lambda>p i. names es i \<and> zname (es ! i) = p) paths is"
    and "fs = map ((!) es) is" "kick_room a es (length (text_bytes ls)) x fs lim"
  shows "\<exists>s'. boot_aos_zipkick brd a (of_nat (length (zip_image es))) config s =
      Some (Inr (KICKLIST_ADDR, of_nat (kick_end (KICK_ADDR + 12) fs)), s') \<and>
    alist (bmem s') KICKLIST_ADDR (map (\<lambda>it. of_nat (it_head it)) (kick_items x (KICK_ADDR + 12) fs)) \<and>
    list_all (loaded (bmem s')) (kick_items x (KICK_ADDR + 12) fs)"
  by (rule boot_kick_run [OF assms])

text \<open>An archive with a loader and one deflated module.\<close>

definition sample_layout :: "kline list" where
  "sample_layout = [Skip [] (chars ''; Kickstart''), Line [] (chars ''LABEL AmigaOS'') [], Line [char_byte CHR '' ''] (chars ''EXEC Kickstart/loader'') [],
     Skip [] [], Line [] (chars ''MODULE Kickstart/kernel'') [char_byte CHR '' '', char_byte CHR 0x0D]]"

definition sample_kick :: "zentry list" where
  "sample_kick =
     [\<lparr>zname = chars KICKLAYOUT, zmethod = 0, zpayload = text_bytes sample_layout, zdata = text_bytes sample_layout, zcrc = 0\<rparr>,
      \<lparr>zname = chars ''Kickstart/loader'', zmethod = 0, zpayload = [1, 2, 3], zdata = [1, 2, 3], zcrc = 0\<rparr>,
      \<lparr>zname = chars ''Kickstart/kernel'', zmethod = 8, zpayload = example_deflated, zdata = [72, 105, 97, 97, 97, 97], zcrc = 0\<rparr>]"

definition sample_board :: "unit brd_t" where
  "sample_board = brd_zero\<lparr>claim := (\<lambda>addr sz m f. Some (if addr + sz < 0x10000000 then addr else 0, m, f)), exec_addr := 0x1000000\<rparr>"

definition sample_boot :: "unit boot" where
  "sample_boot = \<lparr>bw = \<lparr>mem = store_bytes (\<lambda>_. 0) 0x600000 (zip_image sample_kick), fx = fixed_init, stk = (\<lambda>_. 0)\<rparr>, bf = (),
     bz = \<lparr>z_data = 0, z_len = 0, z_er = 0, z_gfh = 0\<rparr>\<rparr>"

lemma sample_grants: "grants sample_board 0x10000000 ()"
proof -
  have "addr + sz < 0x10000000" if "unat addr + unat sz < 0x10000000" for addr sz :: u32
    using that unat_add_small [of addr sz] by (simp add: word_less_nat_alt)
  then show ?thesis by (simp add: grants_def sample_board_def)
qed

lemma sample_text: "length (text_bytes sample_layout) = 76"
  by (simp add: sample_layout_def chars_def)

lemma sample_length: "length (zip_image sample_kick) = 456"
  using sample_text by (simp add: zip_image_def sample_kick_def locals_def local_entry_def central_entry_def example_deflated_def chars_def)

lemma sample_entries: "list_all entry_ok sample_kick"
  using sample_text by (simp add: sample_kick_def entry_ok_def example_deflated_def chars_def char_byte_def)

lemma sample_archive: "archive (bmem sample_boot) 0x600000 sample_kick"
  unfolding sample_boot_def boot.simps world.simps
  by (rule archive_store) (use sample_length sample_entries in \<open>simp_all add: sample_kick_def\<close>)

lemma sample_names: "names sample_kick 0" "names sample_kick 1" "names sample_kick 2"
  using sample_text sample_deflated
  by (simp_all add: names_def sample_kick_def packed_def chars_def basename_def less_2_cases_iff)

lemma sample_config: "list_all wf_line sample_layout" "config_paths 1 sample_layout = Some [chars ''Kickstart/loader'', chars ''Kickstart/kernel'']"
  by code_simp+

text \<open>The two modules and their places: the loader, and the kernel behind the header of the loader.\<close>

lemma sample_files:
  "zname (sample_kick ! Suc 0) = chars ''Kickstart/loader''" "zdata (sample_kick ! Suc 0) = [1, 2, 3]"
  "zname (sample_kick ! 2) = chars ''Kickstart/kernel''" "zdata (sample_kick ! 2) = [72, 105, 97, 97, 97, 97]"
  by (simp_all add: sample_kick_def)

lemma sample_lengths: "length (zdata (sample_kick ! Suc 0)) = 3" "length (zdata (sample_kick ! 2)) = 6"
  by (simp_all add: sample_files)

lemma sample_rooms: "exec_room (sample_kick ! Suc 0) = 64" "module_room (sample_kick ! 2) = 64"
  by (simp_all add: sample_files exec_room_def module_room_def round_up_def head_size_def basename_def chars_def)

lemma sample_end: "kick_end (KICK_ADDR + 12) (map ((!) sample_kick) [1, 2]) = 0xec0008c"
  by (simp add: sample_rooms)

lemma sample_items:
  "kick_items 0x1000000 (KICK_ADDR + 12) (map ((!) sample_kick) [1, 2]) =
     [\<lparr>it_head = 0xec0000c, it_data = 0x1000000, it_id = 1, it_file = sample_kick ! Suc 0\<rparr>,
      \<lparr>it_head = 0xec00054, it_data = 0xec0004c, it_id = 2, it_file = sample_kick ! 2\<rparr>]"
  by (simp add: sample_rooms exec_item_def module_item_def round_up_def sample_files)

lemma sample_room: "kick_room 0x600000 sample_kick (length (text_bytes sample_layout)) 0x1000000 (map ((!) sample_kick) [1, 2]) 0x10000000"
  unfolding kick_room_def Let_def sample_end sample_length sample_text by (simp add: sample_files)

theorem boot_loads_kickstart_witness:
  "\<exists>s'. boot_aos_zipkick sample_board 0x600000 456 1 sample_boot = Some (Inr (KICKLIST_ADDR, 0xec0008c), s') \<and>
    alist (bmem s') KICKLIST_ADDR [0xec0000c, 0xec00054] \<and>
    bytes (bmem s') 0x1000000 3 = [1, 2, 3] \<and> bytes (bmem s') 0xec0004c 6 = [72, 105, 97, 97, 97, 97] \<and>
    mod_address (module_at (bmem s') 0xec00054) = 0xec0004c \<and> cstring (at (bmem s') 0xec00078) (chars ''kernel'')"
proof -
  have b: "statics_ok (bw sample_boot)" "grants sample_board 0x10000000 (bf sample_boot)" "exec_addr sample_board = of_nat 0x1000000"
    "zname (sample_kick ! 0) = chars KICKLAYOUT" "zdata (sample_kick ! 0) = text_bytes sample_layout"
    using sample_grants by (simp_all add: sample_boot_def statics_ok_def fixed_init_def sample_board_def sample_kick_def)
  have c: "config_paths (nat 1) sample_layout = Some [chars ''Kickstart/loader'', chars ''Kickstart/kernel'']"
    using sample_config(2) by simp
  have l: "list_all2 (\<lambda>p i. names sample_kick i \<and> zname (sample_kick ! i) = p) [chars ''Kickstart/loader'', chars ''Kickstart/kernel''] [1, 2]"
    using sample_names by (simp add: sample_files)
  have n: "basename (chars ''Kickstart/kernel'') = chars ''kernel''" by (simp add: basename_def chars_def char_byte_def)
  show ?thesis
    using boot_loads_kickstart [OF sample_archive b(1,2) _ b(3) sample_names(1) b(4,5) sample_config(1) c l refl sample_room]
    unfolding sample_items sample_end sample_length by (auto simp: loaded_def header_of_def Let_def sample_lengths) (simp_all add: sample_files n)
qed

end
