(* ===== verification/Boot_Path.thy ===== *)
theory Boot_Path
  imports Bboot Boot_Kick
begin

text \<open>
  From \<open>start\<close> to the loader: on the machines without Open Firmware, with the archive of a Kickstart where the
  machine says it is, \<open>start\<close> does enter the loader, with the modules of the first configuration in memory. The boards provide
  the memory (\<open>memory_board\<close>), \<open>boot_aos_zipkick\<close> loads the modules, \<open>enter_loader\<close> hands them over.
\<close>

text \<open>
  In memory at \<open>a\<close> is an archive of \<open>es\<close>; its Kicklayout names the files \<open>fs\<close> in the first configuration, and
  they fit in the memory below \<open>lim\<close>, the first one at \<open>x\<close>.
\<close>

definition kickstart :: "mem \<Rightarrow> u32 \<Rightarrow> zentry list \<Rightarrow> nat \<Rightarrow> nat \<Rightarrow> zentry list \<Rightarrow> bool" where
  "kickstart m a es x lim fs \<longleftrightarrow> archive m a es \<and>
     (\<exists>j ls paths is. names es j \<and> zname (es ! j) = chars KICKLAYOUT \<and> zdata (es ! j) = text_bytes ls \<and> list_all wf_line ls \<and>
        config_paths 1 ls = Some paths \<and> list_all2 (\<lambda>p i. names es i \<and> zname (es ! i) = p) paths is \<and> fs = map ((!) es) is \<and>
        kick_room a es (length (text_bytes ls)) x fs lim)"

text \<open>The kick list with the modules \<open>fs\<close>.\<close>

definition kick_list_of :: "mem \<Rightarrow> nat \<Rightarrow> zentry list \<Rightarrow> bool" where
  "kick_list_of m x fs \<longleftrightarrow> alist m KICKLIST_ADDR (map (\<lambda>it. of_nat (it_head it)) (kick_items x (KICK_ADDR + 12) fs)) \<and>
     list_all (loaded m) (kick_items x (KICK_ADDR + 12) fs)"

lemma kickstart_end:
  assumes "kickstart m a es x lim fs" "lim \<le> 2 ^ 32"
  shows "a \<noteq> 0" "a < a + of_nat (length (zip_image es))" "archive m a es"
proof -
  show ar: "archive m a es" using assms(1) by (simp add: kickstart_def)
  then show "a \<noteq> 0" by (simp add: archive_def)
  have "unat a + length (zip_image es) < 2 ^ 32" using assms by (auto simp: kickstart_def kick_room_def Let_def)
  moreover have "0 < length (zip_image es)" by (simp add: zip_image_def)
  ultimately have "unat (a + of_nat (length (zip_image es))) = unat a + length (zip_image es)"
    by (subst unat_add_small) (simp_all add: unat_of_nat32)
  then show "a < a + of_nat (length (zip_image es))" using \<open>0 < length (zip_image es)\<close> by (simp add: word_less_nat_alt)
qed

lemma kickstart_frame:
  assumes "kickstart m a es x lim fs" "\<And>y. y \<in> zip_span a es \<Longrightarrow> m' y = m y"
  shows "kickstart m' a es x lim fs"
  using assms archive_frame [of m a es m'] by (auto simp: kickstart_def)

lemma find_args_local:
  "find_args None nostr r brd av m f =
     Some (if bootargs brd \<noteq> 0 then bootargs brd else if r6 r \<noteq> 0 \<and> r7 r > r6 r then r6 r else nostr, m, f)"
  by (simp add: find_args_def)

text \<open>The last part of \<open>start\<close>, for any board.\<close>

lemma boot_step_loads:
  assumes "quiet co" and kick: "kickstart m a es x lim fs" and g: "grants brd lim f" "exec_addr brd = of_nat x"
    and rd: "find_initrd vlvl co None r brd m f = Some (a, of_nat (length (zip_image es)), m, f)"
  shows "\<exists>m' f'. boot_step vlvl co None nostr stack r brd m f =
      Some (Entered (exec_addr brd) KICKLIST_ADDR (info brd) (if bootargs brd \<noteq> 0 then bootargs brd else if r6 r \<noteq> 0 \<and> r7 r > r6 r then r6 r else nostr)
        (if stack_top brd \<noteq> 0 then Some (stack_top brd) else None) m' f') \<and> kick_list_of m' x fs"
proof -
  let ?s = "\<lparr>bw = \<lparr>mem = m, fx = fixed_init, stk = stack\<rparr>, bf = f, bz = \<lparr>z_data = 0, z_len = 0, z_er = 0, z_gfh = 0\<rparr>\<rparr>"
  have ar: "archive (bmem ?s) a es" "statics_ok (bw ?s)" "grants brd lim (bf ?s)" "a \<noteq> 0"
    using kick g(1) by (simp_all add: kickstart_def statics_ok_def fixed_init_def archive_def)
  obtain j ls paths "is" where k: "names es j" "zname (es ! j) = chars KICKLAYOUT" "zdata (es ! j) = text_bytes ls" "list_all wf_line ls"
    "config_paths (nat 1) ls = Some paths" "list_all2 (\<lambda>p i. names es i \<and> zname (es ! i) = p) paths is" "fs = map ((!) es) is"
    "kick_room a es (length (text_bytes ls)) x fs lim"
    using kick by (auto simp: kickstart_def)
  obtain s' where s': "boot_aos_zipkick brd a (of_nat (length (zip_image es))) 1 ?s =
      Some (Inr (KICKLIST_ADDR, of_nat (kick_end (KICK_ADDR + 12) fs)), s')" "kick_list_of (bmem s') x fs"
    using boot_kick_run [OF ar(1-3) _ g(2) k] by (auto simp: kick_list_of_def)
  obtain f' where "VLVL vlvl 3 co ''Starting exec'' (bmem s') (bf s') = Some (bmem s', f')"
    using quiet_say [OF assms(1), of "''Starting exec''" "bmem s'" "bf s'"] unfolding VLVL_def by (cases "3 \<le> vlvl") auto
  then show ?thesis
    using s' rd ar(4) by (simp add: boot_step_def default_initrd_def enter_loader_def find_args_local)
qed

lemma quiet_serial: "quiet (serial_console b base)"
  by (simp add: quiet_def serial_consout_def)

lemma ram_size_32:
  assumes "(\<exists>k. 3 \<le> k \<and> k \<le> 31 \<and> M = 2 ^ k) \<or> (\<exists>k. 16 \<le> k \<and> k \<le> 29 \<and> M = 3 * 2 ^ k)"
  shows "M < (2 ^ 32 :: nat)"
proof -
  have "(2 :: nat) ^ k \<le> 2 ^ 31" if "k \<le> 31" for k using that by (intro power_increasing) simp_all
  moreover have "(2 :: nat) ^ k \<le> 2 ^ 29" if "k \<le> 29" for k using that by (intro power_increasing) simp_all
  ultimately show ?thesis using assms by fastforce
qed

text \<open>
  C3. On an AmigaOne with a memory of \<open>M\<close> bytes (a size that the search for memory gets right), started with the archive
  of a Kickstart between the addresses in the registers, \<open>start\<close> enters the loader at \<open>0x1000000\<close> with
  a kick list of the modules of the first configuration, all of them in memory, and with the board information and the command
  line. This holds whatever the PCI devices answer while they are set up. The archive must not lie on the one or three words of
  memory that the search overwrites (\<open>searched\<close>): it does not save what is there.
\<close>

theorem amigaone_boots:
  assumes regs: "r6 r \<noteq> 0x45504150" "r8 r = 1024" "r4 r = a" "r5 r = a + of_nat (length (zip_image es))"
    and ram: "ram_below (env_bus e) M" "(\<exists>k. 3 \<le> k \<and> k \<le> 31 \<and> M = 2 ^ k) \<or> (\<exists>k. 16 \<le> k \<and> k \<le> 29 \<and> M = 3 * 2 ^ k)"
    and e: "\<not> g5 e" "CHR 0x00 \<notin> set (verstag e)" and kick: "kickstart m a es 0x1000000 M fs"
    and safe: "searched M \<inter> zip_span a es = {}"
  shows "\<exists>m' f'. start e r m h f = Done (Entered 0x1000000 KICKLIST_ADDR (bd_addr e)
      (if r6 r \<noteq> 0 \<and> r7 r > r6 r then r6 r else nostr_addr e) None m' (Inl f')) \<and> kick_list_of m' 0x1000000 fs"
proof -
  let ?b = "env_bus e" and ?s0 = "bar_state.extend (bar_zero h) \<lparr>amigaone.bd = bd_zero\<rparr>"
  obtain m1 h' where h': "find_memory_size (with_ram ?b) 0 (m, hw ?s0) = Some (of_nat M, m1, h')"
    and m1: "\<forall>y. y \<notin> searched M \<longrightarrow> m1 y = m y"
    using ram_search [OF with_ram_below [OF ram(1)] ram(2) with_ram_stays [where m = m], of "(m, hw ?s0)"] by auto
  have kick1: "kickstart m1 a es 0x1000000 M fs" using m1 safe by (intro kickstart_frame [OF kick]) blast
  have M: "unat (of_nat M :: u32) = M" "M \<le> 2 ^ 32" using ram_size_32 [OF ram(2)] by (simp_all add: unat_of_nat32)
  obtain brd s where init: "amigaone_init (g5 e) (bd_addr e) ?b brd_zero ?s0 m = Some (brd, s, m1)"
    and brd: "brd_setup brd = Some (\<lambda>m s. Done (m, amigaone_setup ?b s))" "claim brd = Brd_AmigaOne.no_claim" "exec_addr brd = 0x1000000"
      "serial_base brd = 0xfe0003f8" "info brd = bd_addr e" "initrd_start brd = 0" "bootargs brd = 0" "stack_top brd = 0"
      "bi_memsize (amigaone.bd s) = of_nat M"
    using h' e(1) by (simp add: amigaone_init_def brd_zero_def)
  obtain r' where opts: "cfg_init (env_ci e) (replicate 128 0) (prom_off m1 f) = Some (Some (chars DEFAULT_OPTS @ 0 # r'), prom_off m1 f)"
    using default_options [of "env_ci e" m1 f] by blast
  obtain h1 where h1: "start_amigaone e r m h f =
      returns (boot_step 5 (serial_console ?b 0xfe0003f8) None (nostr_addr e) (env_stack e) r brd m1 (amigaone_setup ?b (s\<lparr>hw := h1\<rparr>)))"
    using default_run [OF e(2) brd(1), of "nostr_addr e" "env_stack e" r ?b "0xfe0003f8" r' m1 s]
    unfolding start_amigaone_def init by (auto simp: opts brd(4))
  let ?s = "amigaone_setup ?b (s\<lparr>hw := h1\<rparr>)"
  have "amigaone.bd ?s = amigaone.bd s" using amigaone_setup_keeps [of "s\<lparr>hw := h1\<rparr>" ?b] by (simp add: Brd_AmigaOne.windows_ok_def)
  then have g: "grants brd M ?s" using a1_ram.board_grants [OF brd(2), of ?s] M(1) brd(9) by simp
  have "find_initrd 5 (serial_console ?b 0xfe0003f8) None r brd m1 ?s = Some (a, of_nat (length (zip_image es)), m1, ?s)"
    using kickstart_end [OF kick M(2)] regs(3,4) brd(6) by (simp add: find_initrd_def)
  from boot_step_loads [OF quiet_serial kick1 g _ this, of "nostr_addr e" "env_stack e"] show ?thesis
    using regs(1,2) h1 brd by (auto simp: start_def)
qed

lemma stack_for_room:
  assumes "0x1000000 < unat memsize" "unat memsize \<le> 2 ^ 31"
  shows "stack_for memsize \<noteq> 0"
proof -
  have u: "unat (memsize - 0x100000) = unat memsize - 0x100000" using assms(1) by (simp add: unat_sub word_le_nat_alt)
  have "stack_for memsize = ROUND_DOWN (memsize - 0x100000) (2 ^ 4)"
    using assms(2) by (simp add: stack_for_def ROUND_DOWN_def word_less_nat_alt)
  then have "unat (stack_for memsize) = (unat memsize - 0x100000) div 16 * 16" using ROUND_DOWN_unat [of 4 "memsize - 0x100000"] by (simp add: u)
  moreover have "0 < (unat memsize - 0x100000) div 16" using assms(1) by (simp add: div_greater_zero_iff)
  ultimately show ?thesis by (intro notI) simp
qed

text \<open>
  C4. On a SAM460ex with at most 2 GB of memory, started with a device tree that gives the size of memory and the place of
  the archive, \<open>start\<close> enters the loader at \<open>0x1000000\<close> with a kick list of the modules of the first configuration, all of
  them in memory, and on the stack that the size of memory gives. Up to 2 GB the TLB maps all of memory to itself
  (\<open>setup_tlb_map\<close>), so that loads and stores reach the memory of the model; above, it does not (\<open>setup_tlb_overlap\<close>).
  The buffer for the boot arguments must not overlap the archive.
\<close>

theorem sam460_boots:
  assumes regs: "r6 r = 0x45504150" and tree: "fdt_check m (r3 r) = 0" "fdt_image m (r3 r) t" "values_fit t"
    and cells: "cell_of (tree_prop t ''memory'' ''reg'') 2 = Some memsize"
      "cell_of (tree_prop t ''chosen'' ''linux,initrd-start'') 0 = Some a"
      "cell_of (tree_prop t ''chosen'' ''linux,initrd-end'') 0 = Some (a + of_nat (length (zip_image es)))"
    and size: "unat memsize \<le> 2 ^ 31"
    and e: "CHR 0x00 \<notin> set (verstag e)" "region (bootargs_buf e) 256 \<inter> zip_span a es = {}"
    and kick: "kickstart m a es 0x1000000 (unat memsize) fs"
  shows "\<exists>args m' f'. start e r m h f = Done (Entered 0x1000000 KICKLIST_ADDR (bd_addr e) args
      (Some (stack_for memsize)) m' (Inr (Inl f'))) \<and> kick_list_of m' 0x1000000 fs"
proof -
  let ?b = "env_bus e" and ?s0 = "bar_state.extend (bar_zero h) \<lparr>sam460.bd = bd_460ex_zero\<rparr>"
  obtain brd s m1 where init: "sam460_init (bd_addr e) (bootargs_buf e) ?b (env_cpu e) (r3 r) brd_zero ?s0 m = Some (brd, s, m1)"
    and brd: "bi_memsize (sam460.bd s) = memsize" "stack_top brd = stack_for memsize" "info brd = bd_addr e" "exec_addr brd = 0x1000000"
      "initrd_start brd = a" "initrd_end brd = a + of_nat (length (zip_image es))" and m1: "\<forall>x. x \<notin> region (bootargs_buf e) 256 \<longrightarrow> m1 x = m x"
    using sam460_init_run [OF tree, of "bd_addr e" "bootargs_buf e" ?b "env_cpu e" brd_zero ?s0] cells by auto
  have fields: "brd_setup brd = Some (\<lambda>m s. Done (m, sam460_setup ?b s))" "claim brd = Brd_Sam460.no_claim" "serial_base brd = 0xEF600300"
    using init by (auto simp: sam460_init_def read_fdt_def Let_def bind_eq_Some_conv split: if_splits)
  have kick1: "kickstart m1 a es 0x1000000 (unat memsize) fs" using m1 e(2) by (intro kickstart_frame [OF kick]) blast
  obtain r' where opts: "cfg_init (env_ci e) (replicate 128 0) (prom_off m1 f) = Some (Some (chars DEFAULT_OPTS @ 0 # r'), prom_off m1 f)"
    using default_options [of "env_ci e" m1 f] by blast
  obtain h1 where h1: "start_sam460 e r m h f =
      returns (boot_step 5 (serial_console ?b 0xEF600300) None (nostr_addr e) (env_stack e) r brd m1 (sam460_setup ?b (s\<lparr>hw := h1\<rparr>)))"
    using default_run [OF e(1) fields(1), of "nostr_addr e" "env_stack e" r ?b "0xEF600300" r' m1 s]
    unfolding start_sam460_def init by (auto simp: opts fields(3))
  let ?s = "sam460_setup ?b (s\<lparr>hw := h1\<rparr>)"
  have "sam460.bd ?s = sam460.bd s" using sam460_setup_keeps [of "s\<lparr>hw := h1\<rparr>" ?b] by (simp add: Brd_Sam460.windows_ok_def)
  then have g: "grants brd (unat memsize) ?s" using sam_ram.board_grants [OF fields(2), of ?s] brd(1) by simp
  have "find_initrd 5 (serial_console ?b 0xEF600300) None r brd m1 ?s = Some (a, of_nat (length (zip_image es)), m1, ?s)"
    using kickstart_end [OF kick] unat32_less [of memsize] brd(5,6) by (simp add: find_initrd_def)
  from boot_step_loads [OF quiet_serial kick1 g _ this, of "nostr_addr e" "env_stack e"] show ?thesis
    using regs h1 brd stack_for_room [OF _ size] kick by (auto simp: start_def kickstart_def kick_room_def Let_def)
qed

subsection \<open>Examples\<close>

text \<open>The archive of \<open>Boot_Kick\<close> in memory; for the SAM460ex with a device tree at address 0.\<close>

definition kick_mem :: mem where
  "kick_mem = store_bytes (\<lambda>_. 0) 0x600000 (zip_image sample_kick)"

lemma sample_kickstart: "kickstart kick_mem 0x600000 sample_kick 0x1000000 0x10000000 (map ((!) sample_kick) [1, 2])"
proof -
  have "archive kick_mem 0x600000 sample_kick" using sample_archive by (simp add: sample_boot_def kick_mem_def)
  moreover have "names sample_kick 0" "zname (sample_kick ! 0) = chars KICKLAYOUT" "zdata (sample_kick ! 0) = text_bytes sample_layout"
    using sample_names by (simp_all add: sample_kick_def)
  moreover have "list_all2 (\<lambda>p i. names sample_kick i \<and> zname (sample_kick ! i) = p) [chars ''Kickstart/loader'', chars ''Kickstart/kernel''] [1, 2]"
    using sample_names by (simp add: sample_files)
  moreover note sample_config sample_room
  ultimately show ?thesis unfolding kickstart_def by blast
qed

definition ram_env :: "(u32 \<Rightarrow> u32, unit) env" where
  "ram_env = \<lparr>env_bus = ram_bus 0x10000000, env_cpu = \<lparr>mtspr = \<lambda>_ _ h. h, mfspr = \<lambda>_ h. (0, h), mtdcr = \<lambda>_ _ h. h, tlbwe = \<lambda>_ _ _ h. h\<rparr>,
     env_ci = opts_ci [], bd_addr = 0x3000, bootargs_buf = 0x2000, nostr_addr = 0x1000, verstag = ''BBoot'', g5 = False,
     env_stack = \<lambda>_. 0\<rparr>"

theorem amigaone_boots_witness:
  "\<exists>m' f'. start ram_env \<lparr>r3 = 0, r4 = 0x600000, r5 = 0x6001c8, r6 = 0, r7 = 0, r8 = 1024\<rparr> kick_mem (\<lambda>_. 0) () =
     Done (Entered 0x1000000 KICKLIST_ADDR 0x3000 0x1000 None m' (Inl f')) \<and> kick_list_of m' 0x1000000 (map ((!) sample_kick) [1, 2])"
proof -
  let ?r = "\<lparr>r3 = 0, r4 = 0x600000, r5 = 0x6001c8, r6 = 0, r7 = 0, r8 = 1024\<rparr>"
  have r: "r6 ?r \<noteq> 0x45504150" "r8 ?r = 1024" "r4 ?r = 0x600000" "r5 ?r = 0x600000 + of_nat (length (zip_image sample_kick))"
    by (simp_all add: sample_length)
  have ram: "ram_below (env_bus ram_env) 0x10000000" using ram_bus_below [of "0x10000000"] by (simp add: ram_env_def)
  have size: "(\<exists>k. 3 \<le> k \<and> k \<le> 31 \<and> (0x10000000 :: nat) = 2 ^ k) \<or> (\<exists>k. 16 \<le> k \<and> k \<le> 29 \<and> (0x10000000 :: nat) = 3 * 2 ^ k)"
    by (rule disjI1, rule exI [of _ 28]) simp
  have e: "\<not> g5 ram_env" "CHR 0x00 \<notin> set (verstag ram_env)" by (simp_all add: ram_env_def)
  have "unat y \<ge> 0xffffffc" if y: "y \<in> searched 0x10000000" for y
  proof -
    obtain w where w: "search_word 0x10000000 w" "y \<in> region w 4" using y by (auto simp: searched_def)
    then show ?thesis using search_256M [OF w(1)] region_unat(1) [OF w(2)] by simp
  qed
  then have safe: "searched 0x10000000 \<inter> zip_span 0x600000 sample_kick = {}"
    by (force simp: zip_span_def span_def sample_length)
  show ?thesis using amigaone_boots [OF r ram size e sample_kickstart safe, of "\<lambda>_. 0" "()"] by (simp add: ram_env_def)
qed

definition sam_tree :: dtree where
  "sam_tree = DNode [] []
     [DNode (chars ''memory'') [(chars ''reg'', [0, 0, 0, 0, 0, 0, 0, 0, 0x10, 0, 0, 0])] [],
      DNode (chars ''chosen'') [(chars ''linux,initrd-start'', [0, 0x60, 0, 0]), (chars ''linux,initrd-end'', [0, 0x60, 1, 0xc8])] []]"

definition sam_blob :: "u8 list" where
  "sam_blob =
     [0xd0, 0xd, 0xfe, 0xed, 0, 0, 0, 0xb8, 0, 0, 0, 0x28, 0, 0, 0, 0x90] @ replicate 24 0 @
     [0, 0, 0, 1, 0, 0, 0, 0,
      0, 0, 0, 1, 0x6d, 0x65, 0x6d, 0x6f, 0x72, 0x79, 0, 0,
      0, 0, 0, 3, 0, 0, 0, 0xc, 0, 0, 0, 0, 0, 0, 0, 0, 0, 0, 0, 0, 0x10, 0, 0, 0,
      0, 0, 0, 2,
      0, 0, 0, 1, 0x63, 0x68, 0x6f, 0x73, 0x65, 0x6e, 0, 0,
      0, 0, 0, 3, 0, 0, 0, 4, 0, 0, 0, 4, 0, 0x60, 0, 0,
      0, 0, 0, 3, 0, 0, 0, 4, 0, 0, 0, 0x17, 0, 0x60, 1, 0xc8,
      0, 0, 0, 2, 0, 0, 0, 2, 0, 0, 0, 9,
      0x72, 0x65, 0x67, 0,
      0x6c, 0x69, 0x6e, 0x75, 0x78, 0x2c, 0x69, 0x6e, 0x69, 0x74, 0x72, 0x64, 0x2d, 0x73, 0x74, 0x61, 0x72, 0x74, 0,
      0x6c, 0x69, 0x6e, 0x75, 0x78, 0x2c, 0x69, 0x6e, 0x69, 0x74, 0x72, 0x64, 0x2d, 0x65, 0x6e, 0x64, 0]"

definition sam_mem :: mem where
  "sam_mem a = (if unat a < length sam_blob then sam_blob ! unat a else kick_mem a)"

lemma sam_image: "fdt_image sam_mem 0 sam_tree"
  by code_simp

lemma sam_check: "fdt_check sam_mem 0 = 0"
  by code_simp

lemma sam_values: "values_fit sam_tree"
  by (auto simp: values_fit_def sam_tree_def split: if_splits)

lemma sam_cells:
  "cell_of (tree_prop sam_tree ''memory'' ''reg'') 2 = Some 0x10000000"
  "cell_of (tree_prop sam_tree ''chosen'' ''linux,initrd-start'') 0 = Some 0x600000"
  "cell_of (tree_prop sam_tree ''chosen'' ''linux,initrd-end'') 0 = Some (0x600000 + of_nat (length (zip_image sample_kick)))"
  unfolding sample_length by code_simp+

lemma sam_kickstart: "kickstart sam_mem 0x600000 sample_kick 0x1000000 (unat (0x10000000 :: u32)) (map ((!) sample_kick) [1, 2])"
proof -
  have "sam_mem y = kick_mem y" if "y \<in> zip_span 0x600000 sample_kick" for y
    using that by (auto simp: zip_span_def span_def sam_mem_def sam_blob_def chars_def)
  then show ?thesis using kickstart_frame [OF sample_kickstart] by simp
qed

theorem sam460_boots_witness:
  "\<exists>args m' f'. start ram_env \<lparr>r3 = 0, r4 = 0, r5 = 0, r6 = 0x45504150, r7 = 0, r8 = 0\<rparr> sam_mem (\<lambda>_. 0) () =
     Done (Entered 0x1000000 KICKLIST_ADDR 0x3000 args (Some 0xff00000) m' (Inr (Inl f'))) \<and> kick_list_of m' 0x1000000 (map ((!) sample_kick) [1, 2])"
proof -
  let ?r = "\<lparr>r3 = 0, r4 = 0, r5 = 0, r6 = 0x45504150, r7 = 0, r8 = 0\<rparr>"
  have r: "r6 ?r = 0x45504150" "r3 ?r = 0" by simp_all
  have "region 0x2000 256 = span 0x2000 0x2100" using region_span [of "0x2000" 256] by simp
  then have "region (bootargs_buf ram_env) 256 \<inter> zip_span 0x600000 sample_kick = {}"
    by (auto simp: ram_env_def zip_span_def span_def)
  moreover have "CHR 0x00 \<notin> set (verstag ram_env)" by (simp add: ram_env_def)
  moreover have "stack_for 0x10000000 = 0xff00000" by code_simp
  ultimately show ?thesis
    using sam460_boots [OF r(1), unfolded r(2), OF sam_check sam_image sam_values sam_cells _ _ _ sam_kickstart, of ram_env "\<lambda>_. 0" "()"]
    by (simp add: ram_env_def)
qed

end
