(* ===== verification/Boot_Errors.thy ===== *)
theory Boot_Errors
  imports Boot_Kick
begin

text \<open>
  The errors of \<open>boot_aos_zipkick()\<close>: an archive without a Kicklayout, a text without the configuration asked
  for, and a configuration whose first line is not an \<open>EXEC\<close> or whose loader is missing or has no name. A wrong line is
  reported with its number, comments and empty lines counted.
\<close>

subsection \<open>Errors in a text\<close>

text \<open>The line \<open>n\<close> and what follows it, after the \<open>LABEL\<close> of the configuration asked for.\<close>

fun exec_error :: "zentry list \<Rightarrow> int \<Rightarrow> kline list \<Rightarrow> boot_err option" where
  "exec_error es n [] = Some No_config"
| "exec_error es n (Skip _ _ # ls) = exec_error es (n + 1) ls"
| "exec_error es n (Line _ cmd _ # ls) =
     (if arg_of ''LABEL'' cmd \<noteq> None then Some No_config
      else case arg_of ''EXEC'' cmd of
          None \<Rightarrow> Some (Bad_line n)
        | Some path \<Rightarrow> if basename path = [] then Some Invalid_name else if path \<notin> zname ` set es then Some File_not_found else None)"

text \<open>The same, when \<open>m\<close> labels are still to come.\<close>

fun config_error :: "zentry list \<Rightarrow> nat \<Rightarrow> int \<Rightarrow> kline list \<Rightarrow> boot_err option" where
  "config_error es m n [] = Some No_config"
| "config_error es m n (Skip _ _ # ls) = config_error es m (n + 1) ls"
| "config_error es m n (Line _ cmd _ # ls) =
     (if arg_of ''LABEL'' cmd = None then config_error es m (n + 1) ls
      else if m = 1 then exec_error es (n + 1) ls else config_error es (m - 1) (n + 1) ls)"

text \<open>How the loop over the lines leads to an error: at once, or with no modules in the list.\<close>

definition fails :: "boot_err \<Rightarrow> ((boot_err + u32 \<times> u32) \<times> 'f boot) option \<Rightarrow> bool" where
  "fails err r \<longleftrightarrow> (\<exists>s. r = Some (Inl err, s) \<or>
     err = No_config \<and> (\<exists>av kl. r = Some (Inr (av, kl), s) \<and> (kl = 0 \<or> alist_empty (bmem s) kl)))"

lemma fails_zipkick:
  assumes "fails err r"
  shows "\<exists>s. bindB r (\<lambda>(avail, kicklist) s.
      if kicklist = 0 \<or> alist_empty (bmem s) kicklist then Some (Inl No_config, s) else Some (Inr (kicklist, avail), s)) = Some (Inl err, s)"
  using assms by (auto simp: fails_def)

lemma load_module_missing:
  assumes s: "booting a es s" "cstring (at (bmem s) p) path" "length path < 2 ^ 32"
    and err: "basename path = [] \<and> err = Invalid_name \<or> basename path \<noteq> [] \<and> path \<notin> zname ` set es \<and> err = File_not_found"
  shows "\<exists>s'. load_module_from_zip brd p data avail list s = Some (Inl err, s')"
proof -
  obtain r where r: "strrchr (at (bmem s) p) (char_byte CHR ''/'') = Some r"
    "cstring (at (bmem s) (case r of None \<Rightarrow> p | Some i \<Rightarrow> p + of_nat i + 1)) (basename path)"
    using name_pointer [OF s(2)] by blast
  define nm where "nm = (case r of None \<Rightarrow> p | Some i \<Rightarrow> p + of_nat i + 1)"
  have l: "strlen (at (bmem s) nm) = Some (length (basename path))" using r(2) strlen_cstring by (simp add: nm_def)
  from err show ?thesis
  proof
    assume "basename path = [] \<and> err = Invalid_name"
    then show ?thesis using r(1) l by (simp add: load_module_from_zip_def nm_def [symmetric])
  next
    assume e: "basename path \<noteq> [] \<and> path \<notin> zname ` set es \<and> err = File_not_found"
    then obtain s' where "find_file (at (bmem s) p) s = Some (Inl File_not_found, s')"
      using find_file_missing [OF s(1,2,3)] by blast
    then show ?thesis using e r(1) l by (simp add: load_module_from_zip_def nm_def [symmetric])
  qed
qed

lemma exec_error_line:
  assumes s: "cstring (at (bmem s) p) cmd" "length cmd < 2 ^ 32" "booting a es s" "kicked (bmem s) k (k + 12) {} []"
    and err: "exec_error es n (Line lead cmd trail # ls) = Some err"
  shows "fails err (bindB (layout_line brd config p config n av (of_nat k) s) (\<lambda>(cont, c, avail, kl) s.
    if cont then f c avail kl s else Some (Inr (avail, kl), s)))"
proof (cases "arg_of ''LABEL'' cmd")
  case (Some t)
  then have "layout_line brd config p config n av (of_nat k) s = Some (Inr (False, config + 1, av, of_nat k), s)"
    using KEYWORD_arg [OF s(1) words_nz(1)] by (simp add: layout_line_def label_line_def)
  then show ?thesis using Some err kicked_empty [OF s(4)] by (simp add: fails_def)
next
  case label: None
  note line = KEYWORD_arg [OF s(1) words_nz(1)] KEYWORD_arg [OF s(1) words_nz(2)] kicked_empty [OF s(4)]
  show ?thesis
  proof (cases "arg_of ''EXEC'' cmd")
    case None
    then show ?thesis using label err line by (simp add: layout_line_def load_line_def fails_def)
  next
    case (Some path)
    obtain q where q: "skip_while SPCORTAB (bmem s) (p + of_nat (length ''EXEC'')) = Some q" "cstring (at (bmem s) q) path"
      using arg_pointer [OF s(1) Some] by blast
    have "length path \<le> length cmd" using Some by (auto simp: arg_of_def split: if_splits intro: order_trans [OF length_dropWhile_le])
    then obtain s' where "load_module_from_zip brd q (exec_addr brd) av (of_nat k) s = Some (Inl err, s')"
      using load_module_missing [OF s(3) q(2), of err brd "exec_addr brd" av "of_nat k"] s(2) Some label err
      by (cases "basename path = []") (auto split: if_splits)
    then show ?thesis using Some label line q(1) by (simp add: layout_line_def load_line_def fails_def)
  qed
qed

lemma exec_error_loop:
  assumes site: "kick_site a es T L k hi {}" and "k + 12 \<le> hi"
    and "lines_at T L (bmem s) P ls" "booting a es s" "kicked (bmem s) k (k + 12) {} []" "exec_error es n ls = Some err"
  shows "fails err (layout_loop brd config (of_nat T) (of_nat L) (of_nat P) config n av (of_nat k) s)"
  using assms(3-)
proof (induction ls arbitrary: n P s)
  case Nil
  then have "layout_loop brd config (of_nat T) (of_nat L) (of_nat P) config n av (of_nat k) s = Some (Inr (av, of_nat k), s)"
    using site by (intro loop_end) (simp_all add: kick_site_def)
  then show ?case using Nil kicked_empty [OF Nil(3)] by (simp add: fails_def)
next
  case (Cons l ls)
  show ?case
  proof (cases l)
    case (Skip lead rest)
    note tx = Cons.prems(1) [unfolded Skip]
    show ?thesis
      unfolding loop_skip [OF tx site] using Cons.prems lines_at_Cons(6) [OF tx] Skip by (intro Cons.IH) simp_all
  next
    case (Line lead cmd trail)
    note tx = Cons.prems(1) [unfolded Line]
    obtain s2 where s2: "cstring (at (bmem s2) (of_nat (P + length lead))) cmd" "booting a es s2" "\<forall>x. x \<notin> span T (T + L) \<longrightarrow> bmem s2 x = bmem s x"
      "layout_loop brd config (of_nat T) (of_nat L) (of_nat P) config n av (of_nat k) s =
       bindB (layout_line brd config (of_nat (P + length lead)) config n av (of_nat k) s2) (\<lambda>(cont, c, avail, kl) s.
         if cont then layout_loop brd config (of_nat T) (of_nat L) (of_nat (P + length (line_bytes (Line lead cmd trail)))) c (n + 1) avail kl s
         else Some (Inr (avail, kl), s))"
      using loop_line [OF tx site Cons.prems(2)] by blast
    have "length cmd < 2 ^ 32" using lines_at_Cons(4) [OF tx] site by (simp add: kick_site_def)
    then show ?thesis
      unfolding s2(4) using Cons.prems(4) list_kept [OF Cons.prems(3) site assms(2) s2(3)] s2(1,2) unfolding Line by (intro exec_error_line)
  qed
qed

lemma config_error_loop:
  assumes site: "kick_site a es T L k hi {}" and k: "0 < k" "k + 12 \<le> hi" and g: "grants brd lim f" "hi < lim"
    and "lines_at T L (bmem s) P ls" "booting a es s" "bf s = f" "config_error es m n ls = Some err" "config = c + int m" "1 \<le> m"
  shows "fails err (layout_loop brd config (of_nat T) (of_nat L) (of_nat P) c n (of_nat k) 0 s)"
  using assms(6-)
proof (induction ls arbitrary: m n c P s)
  case Nil
  then have "layout_loop brd config (of_nat T) (of_nat L) (of_nat P) c n (of_nat k) 0 s = Some (Inr (of_nat k, 0), s)"
    using site by (intro loop_end) (simp_all add: kick_site_def)
  then show ?case using Nil by (simp add: fails_def)
next
  case (Cons l ls)
  show ?case
  proof (cases l)
    case (Skip lead rest)
    note tx = Cons.prems(1) [unfolded Skip]
    show ?thesis
      unfolding loop_skip [OF tx site] using Cons.prems lines_at_Cons(6) [OF tx] Skip by (intro Cons.IH) simp_all
  next
    case (Line lead cmd trail)
    note tx = Cons.prems(1) [unfolded Line]
    let ?p = "of_nat (P + length lead) :: u32" and ?P = "P + length (line_bytes (Line lead cmd trail))"
    obtain s2 where s2: "cstring (at (bmem s2) ?p) cmd" "lines_at T L (bmem s2) ?P ls" "booting a es s2" "bf s2 = f"
      and loop: "layout_loop brd config (of_nat T) (of_nat L) (of_nat P) c n (of_nat k) 0 s =
       bindB (layout_line brd config ?p c n (of_nat k) 0 s2) (\<lambda>(cont, c, avail, kl) s.
         if cont then layout_loop brd config (of_nat T) (of_nat L) (of_nat ?P) c (n + 1) avail kl s else Some (Inr (avail, kl), s))"
      using loop_line [OF tx site Cons.prems(2)] Cons.prems(3) by blast
    note kw = KEYWORD_arg [OF s2(1) words_nz(1)] and c = Cons.prems(5,6)
    consider "arg_of ''LABEL'' cmd = None" | "arg_of ''LABEL'' cmd \<noteq> None" "m = 1" | "arg_of ''LABEL'' cmd \<noteq> None" "m \<noteq> 1" by blast
    then show ?thesis
    proof cases
      case 1
      then have "layout_line brd config ?p c n (of_nat k) 0 s2 = Some (Inr (True, c, of_nat k, 0), s2)"
        using kw c by (simp add: layout_line_def)
      then show ?thesis using loop Cons.IH [OF s2(2-4), of m "n + 1" c] Cons.prems(4) c 1 Line by simp
    next
      case 2
      then obtain s3 where "layout_line brd config ?p c n (of_nat k) 0 s2 = Some (Inr (True, config, of_nat (k + 12), of_nat k), s3)"
        and s3: "booting a es s3" "kicked (bmem s3) k (k + 12) {} []" "\<forall>y. y \<notin> span k (k + 12) \<longrightarrow> bmem s3 y = bmem s2 y"
        using chosen_label [OF site _ g(2) k s2(1,3), of brd config c n] g(1) s2(4) c by auto
      moreover have "lines_at T L (bmem s3) ?P ls" using s3(3) by (intro text_kept [OF s2(2) site k(2)]) blast
      ultimately show ?thesis using exec_error_loop [OF site k(2) _ s3(1,2), of ?P ls "n + 1" err] loop Cons.prems(4) 2 Line by simp
    next
      case 3
      then have "layout_line brd config ?p c n (of_nat k) 0 s2 = Some (Inr (True, c + 1, of_nat k, 0), s2)"
        using kw c by (auto simp: layout_line_def label_line_def Let_def)
      then show ?thesis using loop Cons.IH [OF s2(2-4), of "m - 1" "n + 1" "c + 1"] Cons.prems(4) c 3 Line by (simp add: of_nat_diff)
    qed
  qed
qed

subsection \<open>boot_aos_zipkick()\<close>

text \<open>
  The errors \<open>err\<close> of an archive \<open>es\<close> at \<open>a\<close> for the configuration \<open>n\<close>; when there is a Kicklayout, its text and the head of
  the kick list must have room below \<open>lim\<close>.
\<close>

definition kick_error :: "u32 \<Rightarrow> zentry list \<Rightarrow> nat \<Rightarrow> nat \<Rightarrow> boot_err \<Rightarrow> bool" where
  "kick_error a es lim n err \<longleftrightarrow>
     chars KICKLAYOUT \<notin> zname ` set es \<and> es \<noteq> [] \<and> err = File_not_found \<or>
     (\<exists>j ls. names es j \<and> zname (es ! j) = chars KICKLAYOUT \<and> zdata (es ! j) = text_bytes ls \<and> list_all wf_line ls \<and>
        config_error es n 1 ls = Some err \<and>
        (let hi = unat a + length (zip_image es) + length (text_bytes ls) + 2 in
         hi < lim \<and> KICK_ADDR + 12 < lim \<and> length (text_bytes ls) < 2 ^ 31 \<and> (hi \<le> KICK_ADDR \<or> KICK_ADDR + 12 \<le> unat a)))"

lemma no_kicklayout:
  assumes ar: "archive (bmem s) a es" "statics_ok (bw s)" "es \<noteq> []" "chars KICKLAYOUT \<notin> zname ` set es"
  shows "\<exists>s'. boot_aos_zipkick brd a (of_nat (length (zip_image es))) config s = Some (Inl File_not_found, s')"
proof -
  have n: "a \<noteq> 0" "length (zip_image es) < 2 ^ 31" "0 < length (zip_image es)" using ar(1) by (simp_all add: archive_def zip_image_def)
  then have nz: "of_nat (length (zip_image es)) \<noteq> (0 :: u32)" using of_nat_nz [of "length (zip_image es)"] by simp
  have "opened a es = dir_at a es 0" by (simp add: dir_at_def opened_def)
  then have "booting a es (s\<lparr>bz := opened a es\<rparr>)" using ar(1,2) by (auto simp: booting_def)
  moreover have "cstring (lit KICKLAYOUT) (chars KICKLAYOUT)" by (rule cstring_lit) simp
  ultimately obtain s' where "find_file (lit KICKLAYOUT) (s\<lparr>bz := opened a es\<rparr>) = Some (Inl File_not_found, s')"
    using find_file_missing [of a es "s\<lparr>bz := opened a es\<rparr>" "lit KICKLAYOUT" "chars KICKLAYOUT"] ar(4) by (auto simp: chars_def)
  then show ?thesis
    using n(1) nz open_archive [OF ar(1,3), of "\<lparr>z_data = 0, z_len = 0, z_er = 0, z_gfh = 0\<rparr>"]
    by (simp add: boot_aos_zipkick_def Let_def)
qed

lemma bad_layout:
  assumes ar: "archive (bmem s) a es" "statics_ok (bw s)" "grants brd lim (bf s)" and n: "1 \<le> config"
    and j: "names es j" "zname (es ! j) = chars KICKLAYOUT" "zdata (es ! j) = text_bytes ls" "list_all wf_line ls"
    and err: "config_error es (nat config) 1 ls = Some err"
    and room: "unat a + length (zip_image es) + length (text_bytes ls) + 2 < lim" "length (text_bytes ls) < 2 ^ 31" "KICK_ADDR + 12 < lim"
      "unat a + length (zip_image es) + length (text_bytes ls) + 2 \<le> KICK_ADDR \<or> KICK_ADDR + 12 \<le> unat a"
  shows "\<exists>s'. boot_aos_zipkick brd a (of_nat (length (zip_image es))) config s = Some (Inl err, s')"
proof -
  let ?T = "unat a + length (zip_image es)" and ?L = "length (text_bytes ls)"
  obtain s1 where s1: "booting a es s1" "bf s1 = bf s" "lines_at ?T ?L (bmem s1) ?T ls"
    "boot_aos_zipkick brd a (of_nat (length (zip_image es))) config s =
     bindB (layout_loop brd config (of_nat ?T) (of_nat ?L) (of_nat ?T) 0 1 KICKLIST_ADDR 0 s1) (\<lambda>(avail, kicklist) s.
       if kicklist = 0 \<or> alist_empty (bmem s) kicklist then Some (Inl No_config, s) else Some (Inr (kicklist, avail), s))"
    using kick_start [OF ar j room(1,2)] by blast
  have "lim \<le> 2 ^ 32" "0 < ?T" using ar(3) by (simp_all add: grants_def zip_image_def)
  then have site: "kick_site a es ?T ?L KICK_ADDR (KICK_ADDR + 12) {}"
    using room by (auto simp: kick_site_def zip_span_def span_def)
  have c: "config = 0 + int (nat config)" "1 \<le> nat config" using n by simp_all
  have "fails err (layout_loop brd config (of_nat ?T) (of_nat ?L) (of_nat ?T) 0 1 (of_nat KICK_ADDR) 0 s1)"
    by (rule config_error_loop [OF site _ _ ar(3) room(3) s1(3,1,2) err c]) simp_all
  then show ?thesis using fails_zipkick s1(4) by fastforce
qed

text \<open>
  C5. When the archive has no Kicklayout, \<open>boot_aos_zipkick()\<close> ends with that error; when the text has no such configuration, or
  its first line is not an \<open>EXEC\<close> with the path of a file in the archive, it ends with the error that
  \<open>config_error\<close> tells, a wrong line with its number in the text.
\<close>

theorem boot_reports_errors:
  assumes "archive (bmem s) a es" "statics_ok (bw s)" "grants brd lim (bf s)" "1 \<le> config" "kick_error a es lim (nat config) err"
  shows "\<exists>s'. boot_aos_zipkick brd a (of_nat (length (zip_image es))) config s = Some (Inl err, s')"
  using assms(5) no_kicklayout [OF assms(1,2)] bad_layout [OF assms(1-4)] unfolding kick_error_def Let_def by blast

text \<open>A text whose third line is a \<open>MODULE\<close> where the loader should be.\<close>

definition wrong_layout :: "kline list" where
  "wrong_layout = [Skip [] (chars ''; Kickstart''), Line [] (chars ''LABEL AmigaOS'') [], Line [] (chars ''MODULE Kickstart/kernel'') []]"

definition wrong_kick :: "zentry list" where
  "wrong_kick = [\<lparr>zname = chars KICKLAYOUT, zmethod = 0, zpayload = text_bytes wrong_layout, zdata = text_bytes wrong_layout, zcrc = 0\<rparr>]"

definition wrong_boot :: "unit boot" where
  "wrong_boot = \<lparr>bw = \<lparr>mem = store_bytes (\<lambda>_. 0) 0x600000 (zip_image wrong_kick), fx = fixed_init, stk = (\<lambda>_. 0)\<rparr>, bf = (),
     bz = \<lparr>z_data = 0, z_len = 0, z_er = 0, z_gfh = 0\<rparr>\<rparr>"

lemma wrong_text: "length (text_bytes wrong_layout) = 50" "list_all wf_line wrong_layout" "config_error wrong_kick 1 1 wrong_layout = Some (Bad_line 3)"
  by (simp add: wrong_layout_def chars_def) code_simp+

lemma wrong_length: "length (zip_image wrong_kick) = 188"
  using wrong_text(1) by (simp add: zip_image_def wrong_kick_def locals_def local_entry_def central_entry_def chars_def)

theorem boot_reports_errors_witness:
  "\<exists>s'. boot_aos_zipkick sample_board 0x600000 188 1 wrong_boot = Some (Inl (Bad_line 3), s')"
proof -
  have ok: "list_all entry_ok wrong_kick" "names wrong_kick 0"
    using wrong_text(1) by (simp_all add: wrong_kick_def entry_ok_def names_def packed_def chars_def char_byte_def basename_def)
  have "archive (bmem wrong_boot) 0x600000 wrong_kick"
    unfolding wrong_boot_def boot.simps world.simps
    by (rule archive_store) (use wrong_length ok in \<open>simp_all add: wrong_kick_def\<close>)
  moreover have "statics_ok (bw wrong_boot)" "grants sample_board 0x10000000 (bf wrong_boot)"
    using sample_grants by (simp_all add: wrong_boot_def statics_ok_def fixed_init_def)
  moreover have "kick_error 0x600000 wrong_kick 0x10000000 (nat 1) (Bad_line 3)"
    unfolding kick_error_def Let_def wrong_length using ok(2) wrong_text
    by (intro disjI2 exI [of _ 0] exI [of _ wrong_layout]) (simp add: wrong_kick_def)
  ultimately show ?thesis using boot_reports_errors [of wrong_boot "0x600000" wrong_kick sample_board "0x10000000" 1] wrong_length by simp
qed

end
