(* ===== verification/Printf.thy ===== *)
theory Printf
  imports Console
begin

text \<open>
  Formatted output: \<open>libc/printf.c\<close>. The output method \<open>ps->write\<close> is a function on the pieces of
  text and a state \<open>'d\<close>, and returns the number of characters it took; the flag bits are fields of a
  record; a variable argument list is the list of its values, of which a string is given by what its
  pointer reads. \<open>None\<close> is behaviour that C leaves undefined (an argument that is missing or has
  another type, an overflow of \<open>int\<close>, a shift by more than the width), or a loop that does not end.
  \<open>int\<close>, \<open>long\<close> and pointers have 32 bits on the target.
\<close>

subsection \<open>Output methods and flags\<close>

type_synonym u64 = "64 word"
type_synonym 'd writer = "u8 list \<Rightarrow> 'd \<Rightarrow> int \<times> 'd"

record printf_flags =
  PREFIX :: bool
  SIGNED :: bool
  ZEROPADDED :: bool
  LEFTALIGNED :: bool
  SHOWPLUS :: bool
  SPACESIGN :: bool
  BIGCHARS :: bool
  NEGATIVE :: bool

definition no_flags :: printf_flags where
  "no_flags = \<lparr>PREFIX = False, SIGNED = False, ZEROPADDED = False, LEFTALIGNED = False, SHOWPLUS = False, SPACESIGN = False,
     BIGCHARS = False, NEGATIVE = False\<rparr>"

datatype qualifier_t = QByte | QShort | QInt | QLong | QLongLong | QPointer

datatype va = VInt u32 | VLongLong u64 | VStr "cstr option"

definition s32 :: "int \<Rightarrow> int" where
  "s32 v = sint (word_of_int v :: u32)"

definition in_int :: "int \<Rightarrow> int option" where
  "in_int v = (if - (2 ^ 31) \<le> v \<and> v < 2 ^ 31 then Some v else None)"

definition printf_putnchars :: "'d writer \<Rightarrow> u8 list \<Rightarrow> 'd \<Rightarrow> int \<times> 'd" where
  "printf_putnchars write buf d = write buf d"

definition printf_putstr :: "'d writer \<Rightarrow> cstr \<Rightarrow> 'd \<Rightarrow> (int \<times> 'd) option" where
  "printf_putstr write str d = Option.bind (strlen str) (\<lambda>n. Some (printf_putnchars write (map str [0..<n]) d))"

definition printf_putchar :: "'d writer \<Rightarrow> u8 \<Rightarrow> 'd \<Rightarrow> int \<times> 'd" where
  "printf_putchar write c d = write [c] d"

text \<open>
  The loops \<open>while (--width > 0)\<close> and \<open>while (width-- > 0)\<close> around one \<open>printf_putchar\<close>: the final
  \<open>width\<close>, the counter and the state.
\<close>

function pad_pre :: "'d writer \<Rightarrow> u8 \<Rightarrow> int \<Rightarrow> int \<Rightarrow> 'd \<Rightarrow> int \<times> int \<times> 'd" where
  "pad_pre write c width counter d =
     (if width - 1 > 0 then
        case printf_putchar write c d of (r, d) \<Rightarrow> pad_pre write c (width - 1) (if r > 0 then counter + 1 else counter) d
      else (width - 1, counter, d))"
  by pat_completeness auto
termination by (relation "measure (\<lambda>(write, c, width, counter, d). nat width)") auto

function pad_post :: "'d writer \<Rightarrow> u8 \<Rightarrow> int \<Rightarrow> int \<Rightarrow> 'd \<Rightarrow> int \<times> int \<times> 'd" where
  "pad_post write c width counter d =
     (if width > 0 then
        case printf_putchar write c d of (r, d) \<Rightarrow> pad_post write c (width - 1) (if r = 1 then counter + 1 else counter) d
      else (width - 1, counter, d))"
  by pat_completeness auto
termination by (relation "measure (\<lambda>(write, c, width, counter, d). nat width)") auto

declare pad_pre.simps [simp del] pad_post.simps [simp del]

text \<open>One character that is counted when it was printed.\<close>

definition put1 :: "'d writer \<Rightarrow> u8 \<Rightarrow> int \<Rightarrow> 'd \<Rightarrow> int \<times> 'd" where
  "put1 write c counter d = (case printf_putchar write c d of (r, d) \<Rightarrow> (if r = 1 then counter + 1 else counter, d))"

subsection \<open>Characters and strings\<close>

definition print_char :: "'d writer \<Rightarrow> u8 \<Rightarrow> int \<Rightarrow> printf_flags \<Rightarrow> 'd \<Rightarrow> int \<times> 'd" where
  "print_char write c width flags d =
     (let counter = 0;
          (width, counter, d) = (if \<not> LEFTALIGNED flags then pad_pre write 0x20 width counter d else (width, counter, d));
          (r, d) = printf_putchar write c d;
          counter = (if r > 0 then counter + 1 else counter);
          (width, counter, d) = pad_pre write 0x20 width counter d in
      (counter, d))"

definition print_string ::
  "'d writer \<Rightarrow> cstr option \<Rightarrow> int \<Rightarrow> u32 \<Rightarrow> printf_flags \<Rightarrow> 'd \<Rightarrow> (int \<times> 'd) option" where
  "print_string write str width precision flags d =
     (case str of
        None \<Rightarrow> printf_putstr write (lit ''(NULL)'') d
      | Some s \<Rightarrow> Option.bind (strlen s) (\<lambda>n.
          let sz = of_nat n :: u32;
              precision = (if precision = 0 then sz else precision);
              width = s32 (width - uint precision);
              counter = 0;
              (width, counter, d) = (if \<not> LEFTALIGNED flags then pad_post write 0x20 width counter d else (width, counter, d));
              (retval, d) = printf_putnchars write (map s [0..<unat (if sz < precision then sz else precision)]) d in
          if retval < 0 then Some (- counter, d)
          else
            let counter = counter + retval;
                (width, counter, d) = pad_post write 0x20 width counter d in
            Some (counter, d)))"

subsection \<open>Numbers\<close>

definition get_digit :: "u64 \<Rightarrow> nat \<Rightarrow> bool \<Rightarrow> u8" where
  "get_digit num base upcase =
     (let digit = unat (num mod of_nat base) in
      if digit < 10 then 0x30 + of_nat digit else (if upcase then 0x41 else 0x61) - 10 + of_nat digit)"

text \<open>
  The digits, from the last one, into the array \<open>d\<close> of 69 characters: the loop returns the array, the
  index in front of the first digit and the number of digits.
\<close>

abbreviation PRINT_NUMBER_BUFFER_SIZE :: nat where "PRINT_NUMBER_BUFFER_SIZE \<equiv> 64 + 5"

function digits_loop :: "nat \<Rightarrow> bool \<Rightarrow> u64 \<Rightarrow> u8 list \<Rightarrow> int \<Rightarrow> int \<Rightarrow> (u8 list \<times> int \<times> int) option" where
  "digits_loop base upcase num buf ptr sz =
     Option.bind (aset buf ptr (get_digit num base upcase)) (\<lambda>buf.
       let num = num div of_nat base in
       if num \<noteq> 0 then digits_loop base upcase num buf (ptr - 1) (sz + 1) else Some (buf, ptr - 1, sz + 1))"
  by pat_completeness auto
termination
  by (relation "measure (\<lambda>(base, upcase, num, buf, ptr, sz). nat (ptr + 1))") (auto simp: aset_def split: if_splits)

declare digits_loop.simps [simp del]

definition number_digits :: "nat \<Rightarrow> bool \<Rightarrow> u64 \<Rightarrow> (u8 list \<times> int \<times> int) option" where
  "number_digits base upcase num =
     (let ptr = int PRINT_NUMBER_BUFFER_SIZE - 1 in
      Option.bind (aset (replicate PRINT_NUMBER_BUFFER_SIZE 0) ptr 0) (\<lambda>buf.
        let ptr = ptr - 1 in
        if num = 0 then Option.bind (aset buf ptr 0x30) (\<lambda>buf. Some (buf, ptr - 1, 1))
        else digits_loop base upcase num buf ptr 0))"

text \<open>The sign, 0 for none, and the prefix with its size.\<close>

definition sign_char :: "printf_flags \<Rightarrow> u8" where
  "sign_char flags =
     (if SIGNED flags then
        if NEGATIVE flags then 0x2d else if SHOWPLUS flags then 0x2b else if SPACESIGN flags then 0x20 else 0
      else 0)"

definition prefix_size :: "nat \<Rightarrow> printf_flags \<Rightarrow> int" where
  "prefix_size base flags = (if PREFIX flags then if base = 2 then 2 else if base = 8 then 1 else if base = 16 then 2 else 0 else 0)"

definition print_prefix :: "'d writer \<Rightarrow> nat \<Rightarrow> printf_flags \<Rightarrow> int \<Rightarrow> 'd \<Rightarrow> int \<times> 'd" where
  "print_prefix write base flags counter d =
     (if PREFIX flags then
        if base = 2 then
          case put1 write 0x30 counter d of (counter, d) \<Rightarrow> put1 write (if BIGCHARS flags then 0x42 else 0x62) counter d
        else if base = 8 then put1 write 0x6f counter d
        else if base = 16 then
          case put1 write 0x30 counter d of (counter, d) \<Rightarrow> put1 write (if BIGCHARS flags then 0x58 else 0x78) counter d
        else (counter, d)
      else (counter, d))"

text \<open>From the sign on: sign, prefix, \<open>zeros\<close> leading zeros, the digits at \<open>ptr\<close> and blanks.\<close>

definition number_body ::
  "'d writer \<Rightarrow> u8 \<Rightarrow> nat \<Rightarrow> printf_flags \<Rightarrow> int \<Rightarrow> cstr \<Rightarrow> int \<Rightarrow> int \<Rightarrow> 'd \<Rightarrow> (int \<times> 'd) option" where
  "number_body write sc base flags zeros ptr width counter d =
     (let (counter, d) = (if sc \<noteq> 0 then put1 write sc counter d else (counter, d));
          (counter, d) = print_prefix write base flags counter d;
          (_, counter, d) = pad_post write 0x30 zeros counter d in
      Option.bind (printf_putstr write ptr d) (\<lambda>(retval, d).
      let counter = (if retval > 0 then counter + retval else counter);
          (_, counter, d) = pad_post write 0x20 width counter d in
      Some (counter, d)))"

definition print_number ::
  "'d writer \<Rightarrow> u64 \<Rightarrow> int \<Rightarrow> int \<Rightarrow> nat \<Rightarrow> printf_flags \<Rightarrow> 'd \<Rightarrow> (int \<times> 'd) option" where
  "print_number write num width precision base flags d =
     Option.bind (number_digits base (BIGCHARS flags) num) (\<lambda>(buf, ptr, number_size).
     let sz = number_size + prefix_size base flags;
         sc = sign_char flags;
         sz = (if sc \<noteq> 0 then sz + 1 else sz);
         flags = (if LEFTALIGNED flags then flags\<lparr>ZEROPADDED := False\<rparr> else flags);
         precision = (if ZEROPADDED flags \<and> precision = 0 \<and> width > sz then width - sz + number_size else precision);
         precision = (if number_size > precision then number_size else precision) in
     Option.bind (in_int (precision + sz)) (\<lambda>total.
     let width = width - (total - number_size);
         counter = 0;
         (width, counter, d) = (if \<not> LEFTALIGNED flags then pad_post write 0x20 width counter d else (width, counter, d)) in
     number_body write sc base flags (precision - number_size) (in_array (drop (nat (ptr + 1)) buf)) width counter d))"

subsection \<open>The format\<close>

definition isdigit :: "u8 \<Rightarrow> bool" where
  "isdigit c \<longleftrightarrow> 0x30 \<le> c \<and> c \<le> 0x39"

definition va_int :: "va list \<Rightarrow> (u32 \<times> va list) option" where
  "va_int ap = (case ap of VInt v # ap \<Rightarrow> Some (v, ap) | _ \<Rightarrow> None)"

definition va_longlong :: "va list \<Rightarrow> (u64 \<times> va list) option" where
  "va_longlong ap = (case ap of VLongLong v # ap \<Rightarrow> Some (v, ap) | _ \<Rightarrow> None)"

definition va_str :: "va list \<Rightarrow> (cstr option \<times> va list) option" where
  "va_str ap = (case ap of VStr s # ap \<Rightarrow> Some (s, ap) | _ \<Rightarrow> None)"

partial_function (option) parse_flags :: "cstr \<Rightarrow> nat \<Rightarrow> printf_flags \<Rightarrow> (nat \<times> printf_flags) option" where [code]:
  "parse_flags fmt i flags =
     (let i = i + 1; c = fmt i in
      if c = 0x23 then parse_flags fmt i (flags\<lparr>PREFIX := True\<rparr>)
      else if c = 0x2d then parse_flags fmt i (flags\<lparr>LEFTALIGNED := True\<rparr>)
      else if c = 0x2b then parse_flags fmt i (flags\<lparr>SHOWPLUS := True\<rparr>)
      else if c = 0x20 then parse_flags fmt i (flags\<lparr>SPACESIGN := True\<rparr>)
      else if c = 0x30 then parse_flags fmt i (flags\<lparr>ZEROPADDED := True\<rparr>)
      else Some (i, flags))"

partial_function (option) parse_number :: "cstr \<Rightarrow> nat \<Rightarrow> int \<Rightarrow> (nat \<times> int) option" where [code]:
  "parse_number fmt i v =
     (if isdigit (fmt i) then
        Option.bind (in_int (v * 10)) (\<lambda>v.
        Option.bind (in_int (v + (uint (fmt i) - 0x30))) (\<lambda>v. parse_number fmt (i + 1) v))
      else Some (i, v))"

definition parse_width :: "cstr \<Rightarrow> nat \<Rightarrow> printf_flags \<Rightarrow> va list \<Rightarrow> (nat \<times> int \<times> printf_flags \<times> va list) option" where
  "parse_width fmt i flags ap =
     (if isdigit (fmt i) then Option.bind (parse_number fmt i 0) (\<lambda>(i, width). Some (i, width, flags, ap))
      else if fmt i = 0x2a then
        Option.bind (va_int ap) (\<lambda>(v, ap).
          if sint v < 0
          then Option.bind (in_int (sint v * - 1)) (\<lambda>width. Some (i + 1, width, flags\<lparr>LEFTALIGNED := True\<rparr>, ap))
          else Some (i + 1, sint v, flags, ap))
      else Some (i, 0, flags, ap))"

definition parse_precision :: "cstr \<Rightarrow> nat \<Rightarrow> va list \<Rightarrow> (nat \<times> int \<times> va list) option" where
  "parse_precision fmt i ap =
     (if fmt i = 0x2e then
        let i = i + 1 in
        if isdigit (fmt i) then Option.bind (parse_number fmt i 0) (\<lambda>(i, precision). Some (i, precision, ap))
        else if fmt i = 0x2a then
          Option.bind (va_int ap) (\<lambda>(v, ap). Some (i + 1, if sint v < 0 then 0 else sint v, ap))
        else Some (i, 0, ap)
      else Some (i, 0, ap))"

definition parse_qualifier :: "cstr \<Rightarrow> nat \<Rightarrow> qualifier_t \<times> nat" where
  "parse_qualifier fmt i =
     (if fmt i = 0x68 then if fmt (i + 1) = 0x68 then (QByte, i + 2) else (QShort, i + 1)
      else if fmt i = 0x7a then (QLong, i + 1)
      else if fmt i = 0x6c then if fmt (i + 1) = 0x6c then (QLongLong, i + 2) else (QLong, i + 1)
      else (QInt, i))"

subsection \<open>One directive\<close>

text \<open>
  The integer argument with its size in bytes, and the number to print for it. The mask for the sign
  is a shift of an \<open>int\<close>, which is undefined for \<open>long long\<close>.
\<close>

definition get_number :: "qualifier_t \<Rightarrow> va list \<Rightarrow> (nat \<times> u64 \<times> va list) option" where
  "get_number qualifier ap =
     (case qualifier of
        QByte \<Rightarrow> Option.bind (va_int ap) (\<lambda>(v, ap). Some (1, ucast v, ap))
      | QShort \<Rightarrow> Option.bind (va_int ap) (\<lambda>(v, ap). Some (2, ucast v, ap))
      | QInt \<Rightarrow> Option.bind (va_int ap) (\<lambda>(v, ap). Some (4, ucast v, ap))
      | QLong \<Rightarrow> Option.bind (va_int ap) (\<lambda>(v, ap). Some (4, ucast v, ap))
      | QLongLong \<Rightarrow> Option.bind (va_longlong ap) (\<lambda>(v, ap). Some (8, v, ap))
      | QPointer \<Rightarrow> Option.bind (va_int ap) (\<lambda>(v, ap). Some (4, ucast v, ap)))"

definition sign_number :: "printf_flags \<Rightarrow> nat \<Rightarrow> u64 \<Rightarrow> (printf_flags \<times> u64) option" where
  "sign_number flags sz number =
     (if SIGNED flags then
        if sz * 8 - 1 \<ge> 32 then None
        else if number AND scast (push_bit (sz * 8 - 1) 1 :: u32) \<noteq> 0 then
          Some (flags\<lparr>NEGATIVE := True\<rparr>,
            if sz = 8 then - number else (NOT number AND NOT (push_bit (sz * 8) (- 1))) + 1)
        else Some (flags, number)
      else Some (flags, number))"

text \<open>\<open>goto next_char\<close> with the variables of the loop, and \<open>goto out\<close> with the result.\<close>

datatype 'd step = Next nat nat int "va list" 'd | Out int 'd

definition count_next :: "nat \<Rightarrow> int \<Rightarrow> va list \<Rightarrow> int \<times> 'd \<Rightarrow> 'd step option" where
  "count_next i counter ap r =
     (case r of (retval, d) \<Rightarrow>
        if retval < 0 then Some (Out (- counter) d)
        else Option.bind (in_int (counter + retval)) (\<lambda>counter. Some (Next i (i + 1) counter ap d)))"

definition print_integer ::
  "'d writer \<Rightarrow> nat \<Rightarrow> qualifier_t \<Rightarrow> int \<Rightarrow> int \<Rightarrow> nat \<Rightarrow> printf_flags \<Rightarrow> int \<Rightarrow> va list \<Rightarrow> 'd \<Rightarrow> 'd step option" where
  "print_integer write i qualifier width precision base flags counter ap d =
     Option.bind (get_number qualifier ap) (\<lambda>(sz, number, ap).
     Option.bind (sign_number flags sz number) (\<lambda>(flags, number).
     Option.bind (print_number write number width precision base flags d) (count_next i counter ap)))"

definition conversion ::
  "'d writer \<Rightarrow> cstr \<Rightarrow> nat \<Rightarrow> nat \<Rightarrow> qualifier_t \<Rightarrow> int \<Rightarrow> int \<Rightarrow> printf_flags \<Rightarrow> int \<Rightarrow> va list \<Rightarrow> 'd \<Rightarrow> 'd step option" where
  "conversion write fmt i j qualifier width precision flags counter ap d =
     (let c = fmt i in
      if c = 0x73 then
        Option.bind (va_str ap) (\<lambda>(s, ap).
        Option.bind (print_string write s width (word_of_int precision) flags d) (count_next i counter ap))
      else if c = 0x63 then
        Option.bind (va_int ap) (\<lambda>(v, ap). count_next i counter ap (print_char write (ucast v) width flags d))
      else if c = 0x50 then
        print_integer write i QPointer width precision 16 (flags\<lparr>BIGCHARS := True, PREFIX := True\<rparr>) counter ap d
      else if c = 0x70 then print_integer write i QPointer width precision 16 (flags\<lparr>PREFIX := True\<rparr>) counter ap d
      else if c = 0x62 then print_integer write i qualifier width precision 2 flags counter ap d
      else if c = 0x6f then print_integer write i qualifier width precision 8 flags counter ap d
      else if c = 0x64 \<or> c = 0x69 then
        print_integer write i qualifier width precision 10 (flags\<lparr>SIGNED := True\<rparr>) counter ap d
      else if c = 0x75 then print_integer write i qualifier width precision 10 flags counter ap d
      else if c = 0x58 then print_integer write i qualifier width precision 16 (flags\<lparr>BIGCHARS := True\<rparr>) counter ap d
      else if c = 0x78 then print_integer write i qualifier width precision 16 flags counter ap d
      else if c = 0x25 then Some (Next i i counter ap d)
      else Some (Next i j counter ap d))"

text \<open>The characters of the format from \<open>j\<close> to \<open>i\<close> that are still to be printed; \<open>Inl\<close> is the error.\<close>

definition flush :: "'d writer \<Rightarrow> cstr \<Rightarrow> nat \<Rightarrow> nat \<Rightarrow> int \<Rightarrow> 'd \<Rightarrow> ((int \<times> 'd) + (int \<times> 'd)) option" where
  "flush write fmt i j counter d =
     (if i > j then
        case printf_putnchars write (map fmt [j..<i]) d of (retval, d) \<Rightarrow>
          if retval < 0 then Some (Inl (- counter, d))
          else Option.bind (in_int (counter + retval)) (\<lambda>counter. Some (Inr (counter, d)))
      else Some (Inr (counter, d)))"

definition directive :: "'d writer \<Rightarrow> cstr \<Rightarrow> nat \<Rightarrow> nat \<Rightarrow> int \<Rightarrow> va list \<Rightarrow> 'd \<Rightarrow> 'd step option" where
  "directive write fmt i j counter ap d =
     Option.bind (flush write fmt i j counter d) (\<lambda>r.
     case r of
       Inl (n, d) \<Rightarrow> Some (Out n d)
     | Inr (counter, d) \<Rightarrow>
         let j = i in
         Option.bind (parse_flags fmt i no_flags) (\<lambda>(i, flags).
         Option.bind (parse_width fmt i flags ap) (\<lambda>(i, width, flags, ap).
         Option.bind (parse_precision fmt i ap) (\<lambda>(i, precision, ap).
         case parse_qualifier fmt i of (qualifier, i) \<Rightarrow>
           conversion write fmt i j qualifier width precision flags counter ap d))))"

partial_function (option) core_loop ::
  "'d writer \<Rightarrow> cstr \<Rightarrow> nat \<Rightarrow> nat \<Rightarrow> int \<Rightarrow> va list \<Rightarrow> 'd \<Rightarrow> (int \<times> 'd) option" where [code]:
  "core_loop write fmt i j counter ap d =
     (if fmt i = 0 then
        Option.bind (flush write fmt i j counter d) (\<lambda>r. Some (case r of Inl x \<Rightarrow> x | Inr x \<Rightarrow> x))
      else
        Option.bind (if fmt i = 0x25 then directive write fmt i j counter ap d else Some (Next i j counter ap d)) (\<lambda>r.
        case r of
          Out n d \<Rightarrow> Some (n, d)
        | Next i j counter ap d \<Rightarrow> core_loop write fmt (i + 1) j counter ap d))"

definition printf_core :: "'d writer \<Rightarrow> cstr \<Rightarrow> va list \<Rightarrow> 'd \<Rightarrow> (int \<times> 'd) option" where
  "printf_core write fmt ap d = core_loop write fmt 0 0 0 ap d"

subsection \<open>The functions of the library\<close>

record vsnprintf_data =
  dsize :: u32
  dlen :: u32
  dstring :: u32
  dmem :: mem

text \<open>\<open>dmem\<close> is memory, in which the string is written.\<close>

definition vsnprintf_write :: "vsnprintf_data writer" where
  "vsnprintf_write str data =
     (let count = length str; i = dsize data - dlen data in
      (s32 (int count),
       if i = 0 then data
       else if i = 1 then data\<lparr>dmem := (dmem data)(dstring data + (dsize data - 1) := 0), dlen := dsize data\<rparr>
       else if unat i \<le> count then
         data\<lparr>dmem := (store_bytes (dmem data) (dstring data + dlen data) (take (unat (i - 1)) str))
               (dstring data + (dsize data - 1) := 0), dlen := dsize data\<rparr>
       else
         let len = dlen data + of_nat count in
         data\<lparr>dmem := (store_bytes (dmem data) (dstring data + dlen data) str)(dstring data + len := 0), dlen := len\<rparr>))"

definition vsnprintf :: "u32 \<Rightarrow> u32 \<Rightarrow> cstr \<Rightarrow> va list \<Rightarrow> mem \<Rightarrow> (int \<times> mem) option" where
  "vsnprintf str sz fmt ap m =
     Option.bind (printf_core vsnprintf_write fmt ap
         \<lparr>dsize = sz, dlen = 0, dstring = str, dmem = if sz > 0 then m(str := 0) else m\<rparr>)
       (\<lambda>(n, data). Some (n, dmem data))"

definition snprintf :: "u32 \<Rightarrow> u32 \<Rightarrow> cstr \<Rightarrow> va list \<Rightarrow> mem \<Rightarrow> (int \<times> mem) option" where
  "snprintf str sz fmt args m = vsnprintf str sz fmt args m"

definition vsprintf :: "u32 \<Rightarrow> cstr \<Rightarrow> va list \<Rightarrow> mem \<Rightarrow> (int \<times> mem) option" where
  "vsprintf str fmt ap m = vsnprintf str (- 1) fmt ap m"

definition sprintf :: "u32 \<Rightarrow> cstr \<Rightarrow> va list \<Rightarrow> mem \<Rightarrow> (int \<times> mem) option" where
  "sprintf str fmt args m = vsprintf str fmt args m"

definition vprintf_write :: "'s driver list \<Rightarrow> 's writer" where
  "vprintf_write console_out str s = (s32 (int (length str)), putchars console_out str s)"

definition vprintf :: "'s driver list \<Rightarrow> cstr \<Rightarrow> va list \<Rightarrow> 's \<Rightarrow> (int \<times> 's) option" where
  "vprintf console_out fmt ap s = printf_core (vprintf_write console_out) fmt ap s"

definition printf :: "'s driver list \<Rightarrow> cstr \<Rightarrow> va list \<Rightarrow> 's \<Rightarrow> (int \<times> 's) option" where
  "printf console_out fmt args s = vprintf console_out fmt args s"

text \<open>The only files are the addresses of three static objects.\<close>

datatype file_t = stdout | stdin | stderr | Other u32

definition fprintf :: "'s driver list \<Rightarrow> file_t \<Rightarrow> cstr \<Rightarrow> va list \<Rightarrow> 's \<Rightarrow> (int \<times> 's) option" where
  "fprintf console_out fh fmt args s =
     (if fh = stdout \<or> fh = stderr then vprintf console_out fmt args s else Some (- 1, s))"

end
