(* ===== verification/Printf_Spec.thy ===== *)
theory Printf_Spec
  imports Printf
begin

text \<open>
  What formatted output prints. A format is a list of pieces, plain text and directives; \<open>render\<close>
  gives the text for a format and its arguments as the C standard and the comments of \<open>printf.c\<close> have
  it. \<open>printf_core\<close> parses the characters of a format and sends this text, whatever the output method.
  Where the code does something else, or the two say nothing or disagree, \<open>render\<close> is not defined (\<open>conv_text\<close>
  lists the cases): the theorems say nothing about them.
\<close>

subsection \<open>Output methods\<close>

text \<open>
  A method takes every character it is given; \<open>R l d\<close> relates the text \<open>l\<close> sent so far to its state.
\<close>

locale output_method =
  fixes wr :: "'d writer" and R :: "u8 list \<Rightarrow> 'd \<Rightarrow> bool"
  assumes write_sends: "R l d \<Longrightarrow> length l + length xs < 2 ^ 31 \<Longrightarrow> \<exists>d'. wr xs d = (int (length xs), d') \<and> R (l @ xs) d'"
begin

lemma putchar_sends: "R l d \<Longrightarrow> length l + 1 < 2 ^ 31 \<Longrightarrow> \<exists>d'. printf_putchar wr c d = (1, d') \<and> R (l @ [c]) d'"
  using write_sends [of l d "[c]"] by (simp add: printf_putchar_def)

lemma put1_sends:
  "R l d \<Longrightarrow> length l + 1 < 2 ^ 31 \<Longrightarrow> \<exists>d'. put1 wr c counter d = (counter + 1, d') \<and> R (l @ [c]) d'"
  using putchar_sends [of l d c] by (auto simp: put1_def)

lemma pad_post_sends:
  "R l d \<Longrightarrow> length l + nat width < 2 ^ 31 \<Longrightarrow>
    \<exists>d'. pad_post wr c width counter d = (min width 0 - 1, counter + int (nat width), d') \<and> R (l @ replicate (nat width) c) d'"
proof (induction "nat width" arbitrary: width counter d l)
  case 0
  then show ?case by (subst pad_post.simps) simp
next
  case (Suc n)
  then have w: "0 < width" "nat width = Suc (nat (width - 1))" "n = nat (width - 1)" by linarith+
  obtain d1 where 1: "printf_putchar wr c d = (1, d1)" "R (l @ [c]) d1" using putchar_sends [OF Suc.prems(1)] Suc.prems(2) w by auto
  have "\<exists>d'. pad_post wr c (width - 1) (counter + 1) d1 = (min (width - 1) 0 - 1, counter + 1 + int (nat (width - 1)), d') \<and>
      R ((l @ [c]) @ replicate (nat (width - 1)) c) d'"
    using Suc.prems w 1 by (intro Suc.hyps(1)) simp_all
  then show ?case using w 1 by (subst pad_post.simps) (auto simp: replicate_append_same [symmetric])
qed

lemma pad_pre_sends:
  "R l d \<Longrightarrow> length l + nat (width - 1) < 2 ^ 31 \<Longrightarrow>
    \<exists>d'. pad_pre wr c width counter d = (min (width - 1) 0, counter + int (nat (width - 1)), d') \<and>
      R (l @ replicate (nat (width - 1)) c) d'"
proof (induction "nat (width - 1)" arbitrary: width counter d l)
  case 0
  then show ?case by (subst pad_pre.simps) simp
next
  case (Suc n)
  then have w: "0 < width - 1" "nat (width - 1) = Suc (nat (width - 1 - 1))" "n = nat (width - 1 - 1)" by linarith+
  obtain d1 where 1: "printf_putchar wr c d = (1, d1)" "R (l @ [c]) d1" using putchar_sends [OF Suc.prems(1)] Suc.prems(2) w by auto
  have "\<exists>d'. pad_pre wr c (width - 1) (counter + 1) d1 = (min (width - 1 - 1) 0, counter + 1 + int (nat (width - 1 - 1)), d') \<and>
      R ((l @ [c]) @ replicate (nat (width - 1 - 1)) c) d'"
    using Suc.prems w 1 by (intro Suc.hyps(1)) simp_all
  then show ?case using w 1 by (subst pad_pre.simps) (auto simp: replicate_append_same [symmetric])
qed

lemma putstr_sends:
  assumes "R l d" "length l + length xs < 2 ^ 31" "cstring s xs"
  shows "\<exists>d'. printf_putstr wr s d = Some (int (length xs), d') \<and> R (l @ xs) d'"
proof -
  have "map s [0..<length xs] = xs" using cstringD(1) [OF assms(3)] by (intro nth_equalityI) simp_all
  then show ?thesis
    using write_sends [OF assms(1,2)] by (auto simp: printf_putstr_def printf_putnchars_def strlen_cstring [OF assms(3)])
qed

end

subsection \<open>Numbers\<close>

definition digit_char :: "bool \<Rightarrow> nat \<Rightarrow> u8" where
  "digit_char upcase k = (if k < 10 then 0x30 + of_nat k else (if upcase then 0x41 else 0x61) - 10 + of_nat k)"

text \<open>The digits of a number in a base, and their value.\<close>

fun num_text :: "nat \<Rightarrow> bool \<Rightarrow> nat \<Rightarrow> u8 list" where
  "num_text base upcase n =
     (if base < 2 \<or> n < base then [digit_char upcase n]
      else num_text base upcase (n div base) @ [digit_char upcase (n mod base)])"

declare num_text.simps [simp del]

lemma num_text_eval:
  "n < base \<Longrightarrow> num_text base upcase n = [digit_char upcase n]"
  "2 \<le> base \<Longrightarrow> base \<le> n \<Longrightarrow> num_text base upcase n = num_text base upcase (n div base) @ [digit_char upcase (n mod base)]"
  by (subst num_text.simps, simp)+

lemma num_text_length: "n < 2 ^ k \<Longrightarrow> 0 < k \<Longrightarrow> 2 \<le> base \<Longrightarrow> length (num_text base upcase n) \<le> k"
proof (induction base upcase n arbitrary: k rule: num_text.induct)
  case (1 base upcase n)
  show ?case
  proof (cases "n < base")
    case True
    then show ?thesis using 1 by (subst num_text.simps) simp
  next
    case False
    then have "1 < k" using 1(2-4) by (cases k) (auto simp: not_less dest: le_less_trans)
    then obtain k' where k: "k = Suc k'" "0 < k'" by (cases k) auto
    have "n div base \<le> n div 2" using 1(4) by (rule div_le_mono2 [rotated]) simp
    also have "\<dots> < 2 ^ k'" using 1(2) k by simp
    finally have "length (num_text base upcase (n div base)) \<le> k'" using 1 False k by simp
    then show ?thesis using False 1(4) k by (subst num_text.simps) simp
  qed
qed

lemma num_text_nonempty: "0 < length (num_text base upcase n)"
  by (subst num_text.simps) simp

lemma num_text_nz: "2 \<le> base \<Longrightarrow> base \<le> 16 \<Longrightarrow> 0 \<notin> set (num_text base upcase n)"
proof (induction base upcase n rule: num_text.induct)
  case (1 base upcase n)
  have "digit_char upcase k \<noteq> 0" if "k < 16" for k
  proof -
    have "k \<in> set [0..<16]" using that by simp
    then show ?thesis by (cases upcase) (auto simp: digit_char_def upt_rec)
  qed
  moreover have "n mod base < 16" using 1(2,3) mod_less_divisor [of base n] by linarith
  ultimately show ?case using 1 by (subst num_text.simps) auto
qed

lemma unat64_less: "unat (w :: u64) < 2 ^ 64"
  using unsigned_less [of w] by simp

lemma get_digit_char: "base < 2 ^ 64 \<Longrightarrow> get_digit num base upcase = digit_char upcase (unat num mod base)"
  by (simp add: get_digit_def digit_char_def unat_mod Let_def unat_of_nat)

text \<open>The loop writes the digits in front of what the array holds behind \<open>p\<close>.\<close>

lemma digits_loop_text:
  assumes "2 \<le> base" "base < 2 ^ 64"
  shows "length (num_text base upcase (unat num)) \<le> p \<Longrightarrow> p \<le> length buf \<Longrightarrow>
    \<exists>buf'. digits_loop base upcase num buf (int p - 1) sz =
        Some (buf', int p - 1 - int (length (num_text base upcase (unat num))), sz + int (length (num_text base upcase (unat num)))) \<and>
      drop (p - length (num_text base upcase (unat num))) buf' = num_text base upcase (unat num) @ drop p buf \<and> length buf' = length buf"
proof (induction "unat num" arbitrary: num p buf sz rule: less_induct)
  case less
  let ?c = "digit_char upcase (unat num mod base)" and ?b = "buf[p - 1 := digit_char upcase (unat num mod base)]"
  have p: "0 < p" using less.prems(1) num_text_nonempty [of base upcase "unat num"] by linarith
  then have i: "int p - 1 = int (p - 1)" by simp
  have as: "aset buf (int p - 1) v = Some (buf[p - 1 := v])" for v using p less.prems(2) unfolding i by (simp only: aset_int) simp
  have step: "digits_loop base upcase num buf (int p - 1) sz =
      (if num div of_nat base \<noteq> 0 then digits_loop base upcase (num div of_nat base) ?b (int (p - 1) - 1) (sz + 1)
       else Some (?b, int (p - 1) - 1, sz + 1))"
    unfolding digits_loop.simps [of base upcase num] as get_digit_char [OF assms(2)] using p by (simp add: of_nat_diff)
  have d: "drop (p - 1) ?b = ?c # drop p buf"
    using p less.prems(2) Cons_nth_drop_Suc [of "p - 1" buf, symmetric] by (simp add: drop_update_swap)
  have q: "unat (num div of_nat base) = unat num div base" using assms by (simp add: unat_div unat_of_nat)
  show ?case
  proof (cases "unat num < base")
    case True
    then have "num div of_nat base = 0" using q by (simp add: unat_eq_zero [symmetric])
    moreover have "num_text base upcase (unat num) = [?c]" using True by (subst num_text.simps) simp
    ultimately show ?thesis using step d p by simp
  next
    case False
    have nt: "num_text base upcase (unat num) = num_text base upcase (unat num div base) @ [?c]"
      using False assms by (subst num_text.simps) simp
    have "0 < unat num div base" using False assms by (simp add: div_greater_zero_iff)
    then have nz: "num div of_nat base \<noteq> 0" using q by (metis less_irrefl unat_0)
    let ?d = "num_text base upcase (unat (num div of_nat base))"
    have lt: "unat (num div of_nat base) < unat num" using q False assms by (simp add: div_less_dividend)
    have "\<exists>buf'. digits_loop base upcase (num div of_nat base) ?b (int (p - 1) - 1) (sz + 1) =
        Some (buf', int (p - 1) - 1 - int (length ?d), sz + 1 + int (length ?d)) \<and>
        drop (p - 1 - length ?d) buf' = ?d @ drop (p - 1) ?b \<and> length buf' = length ?b"
      using less.prems nt q p by (intro less.hyps [OF lt]) simp_all
    then show ?thesis using step nz nt d p q by (auto simp: algebra_simps)
  qed
qed

lemma number_digits_text:
  assumes "2 \<le> base" "base < 2 ^ 64"
  shows "\<exists>buf ptr. number_digits base upcase num = Some (buf, ptr, int (length (num_text base upcase (unat num)))) \<and>
    0 \<le> ptr \<and> drop (nat (ptr + 1)) buf = num_text base upcase (unat num) @ [0]"
proof -
  let ?t = "num_text base upcase (unat num)"
  have len: "length ?t \<le> 64" by (rule num_text_length [OF unat64_less _ assms(1)]) simp
  have a: "aset (replicate PRINT_NUMBER_BUFFER_SIZE 0) (int PRINT_NUMBER_BUFFER_SIZE - 1) 0 = Some (replicate PRINT_NUMBER_BUFFER_SIZE (0 :: u8))"
    by (simp add: aset_def list_update_same_conv)
  show ?thesis
  proof (cases "num = 0")
    case True
    then have "?t = [0x30]" using assms by (subst num_text.simps) (simp add: digit_char_def)
    moreover have "drop 67 ((replicate 69 0)[67 := 0x30]) = [0x30, 0 :: u8]" by code_simp
    ultimately show ?thesis using True a unfolding number_digits_def by (simp add: aset_def)
  next
    case False
    obtain buf where "digits_loop base upcase num (replicate PRINT_NUMBER_BUFFER_SIZE 0) (int 68 - 1) 0 =
        Some (buf, int 68 - 1 - int (length ?t), 0 + int (length ?t))"
      "drop (68 - length ?t) buf = ?t @ drop 68 (replicate PRINT_NUMBER_BUFFER_SIZE 0)"
      using digits_loop_text [OF assms, of upcase num 68 "replicate PRINT_NUMBER_BUFFER_SIZE 0" 0] len by auto
    moreover have "nat (67 - int (length ?t) + 1) = 68 - length ?t" using len by simp
    ultimately show ?thesis using False a len unfolding number_digits_def by (simp add: Let_def)
  qed
qed

subsection \<open>Fields\<close>

text \<open>
  The text of a field: the body, blanks up to the width on one side of it. A number has sign and prefix, and
  zeros up to the precision, or, without a precision, up to the width with the flag for it; the number 0 with precision 0
  has no digits. A string is cut off at the precision.
\<close>

definition pad_field :: "bool \<Rightarrow> nat \<Rightarrow> u8 list \<Rightarrow> u8 list" where
  "pad_field left width body =
     (let blanks = replicate (width - length body) 0x20 in if left then body @ blanks else blanks @ body)"

definition sign_text :: "printf_flags \<Rightarrow> u8 list" where
  "sign_text flags = (if sign_char flags = 0 then [] else [sign_char flags])"

definition prefix_text :: "nat \<Rightarrow> printf_flags \<Rightarrow> u8 list" where
  "prefix_text base flags =
     (if \<not> PREFIX flags then []
      else if base = 2 then [0x30, if BIGCHARS flags then 0x42 else 0x62]
      else if base = 8 then [0x30]
      else if base = 16 then [0x30, if BIGCHARS flags then 0x58 else 0x78] else [])"

definition number_text :: "nat \<Rightarrow> printf_flags \<Rightarrow> nat \<Rightarrow> nat option \<Rightarrow> nat \<Rightarrow> u8 list" where
  "number_text base flags width precision n =
     (let ds = (if n = 0 \<and> precision = Some 0 then [] else num_text base (BIGCHARS flags) n);
          pre = sign_text flags @ prefix_text base flags;
          zeros = (case precision of
              Some k \<Rightarrow> k
            | None \<Rightarrow> if ZEROPADDED flags \<and> \<not> LEFTALIGNED flags then width - length pre else 0) - length ds in
      pad_field (LEFTALIGNED flags) width (pre @ replicate zeros 0x30 @ ds))"

definition string_text :: "printf_flags \<Rightarrow> nat \<Rightarrow> nat option \<Rightarrow> u8 list \<Rightarrow> u8 list" where
  "string_text flags width precision xs =
     pad_field (LEFTALIGNED flags) width (case precision of None \<Rightarrow> xs | Some k \<Rightarrow> take k xs)"

text \<open>The code has 0 for no precision.\<close>

definition precision_code :: "nat option \<Rightarrow> nat" where
  "precision_code p = (case p of None \<Rightarrow> 0 | Some k \<Rightarrow> k)"

lemma pad_field_length: "length (pad_field left width body) = max width (length body)"
  by (simp add: pad_field_def Let_def max_def)

lemma prefix_size_text: "prefix_size base flags = int (length (prefix_text base flags))"
  by (simp add: prefix_size_def prefix_text_def)

lemma s32_small: "- (2 ^ 31) \<le> v \<Longrightarrow> v < 2 ^ 31 \<Longrightarrow> s32 v = v"
  by (simp add: s32_def signed_of_int signed_take_bit_int_eq_self)

context output_method
begin

lemma print_char_sends:
  assumes "R l d" "0 \<le> width" "length l + length (pad_field (LEFTALIGNED flags) (nat width) [c]) < 2 ^ 31"
  shows "\<exists>d'. print_char wr c width flags d = (int (length (pad_field (LEFTALIGNED flags) (nat width) [c])), d') \<and>
    R (l @ pad_field (LEFTALIGNED flags) (nat width) [c]) d'"
proof -
  let ?b = "replicate (nat (width - 1)) 0x20" and ?n = "int (nat (width - 1))"
  have len: "length l + nat (width - 1) + 1 < 2 ^ 31" and n: "nat width - 1 = nat (width - 1)"
    using assms(2,3) by (simp_all add: pad_field_length nat_diff_distrib)
  show ?thesis
  proof (cases "LEFTALIGNED flags")
    case True
    obtain d1 where 1: "printf_putchar wr c d = (1, d1)" "R (l @ [c]) d1" using putchar_sends assms(1) len by (metis add_lessD1 add.commute add.left_commute)
    obtain d2 where "pad_pre wr 0x20 width 1 d1 = (min (width - 1) 0, 1 + ?n, d2)" "R ((l @ [c]) @ ?b) d2"
      using pad_pre_sends [OF 1(2), of width "0x20" 1] len by auto
    then show ?thesis using True 1 n by (simp add: print_char_def pad_field_def)
  next
    case False
    obtain d1 where 1: "pad_pre wr 0x20 width 0 d = (min (width - 1) 0, ?n, d1)" "R (l @ ?b) d1"
      using pad_pre_sends [OF assms(1), of width "0x20" 0] len by auto
    obtain d2 where 2: "printf_putchar wr c d1 = (1, d2)" "R ((l @ ?b) @ [c]) d2"
      using putchar_sends [OF 1(2), of c] len by auto
    obtain d3 where "pad_pre wr 0x20 (min (width - 1) 0) (?n + 1) d2 = (min (min (width - 1) 0 - 1) 0, ?n + 1, d3)" "R ((l @ ?b) @ [c]) d3"
      using pad_pre_sends [OF 2(2), of "min (width - 1) 0" "0x20" "?n + 1"] len by auto
    then show ?thesis using False 1 2 n by (simp add: print_char_def pad_field_def)
  qed
qed

lemma print_string_sends:
  assumes "R l d" "0 \<le> width" "width < 2 ^ 31" and str: "cstring s xs" "p = None \<or> 0 < the p \<and> the p \<le> length xs"
    and len: "length l + length (string_text flags (nat width) p xs) < 2 ^ 31"
    and small: "length xs < 2 ^ 31"
  shows "\<exists>d'. print_string wr (Some s) width (of_nat (precision_code p)) flags d =
      Some (int (length (string_text flags (nat width) p xs)), d') \<and>
    R (l @ string_text flags (nat width) p xs) d'"
proof -
  define precision where "precision = precision_code p"
  have s: "cstring s xs" "precision = 0 \<or> precision \<le> length xs"
    using str by (auto simp: precision_def precision_code_def split: option.splits)
  define ys where "ys = (if precision = 0 then xs else take precision xs)"
  let ?p = "if of_nat precision = (0 :: u32) then of_nat (length xs) else of_nat precision :: u32"
  have p: "unat ?p = length ys" "precision < 2 ^ 32"
    using s(2) small by (auto simp: ys_def unat_of_nat32 eq_of_nat32 [of precision] min_absorb2 dest: arg_cong [of _ _ unat])
  then have u: "uint ?p = int (length ys)" by (simp only: uint_nat)
  have ys: "length ys < 2 ^ 31" using small by (auto simp: ys_def)
  have sz: "unat (of_nat (length xs) :: u32) = length xs" using small by (simp add: unat_of_nat32)
  have "length ys \<le> length xs" by (simp add: ys_def)
  then have nl: "\<not> of_nat (length xs) < ?p" unfolding word_less_nat_alt p(1) sz by simp
  have cnt: "unat (if of_nat (length xs) < ?p then of_nat (length xs) else ?p) = length ys"
    unfolding if_not_P [OF nl] by (rule p(1))
  have m: "map s [0..<length ys] = ys"
    using cstringD(1) [OF s(1)] \<open>length ys \<le> length xs\<close> by (intro nth_equalityI) (auto simp: ys_def)
  have w: "s32 (width - uint ?p) = width - int (length ys)" unfolding u using assms(2,3) ys by (intro s32_small) simp_all
  let ?b = "replicate (nat (width - int (length ys))) 0x20" and ?n = "int (nat (width - int (length ys)))"
  have n: "nat width - length ys = nat (width - int (length ys))" by simp
  have "(case p of None \<Rightarrow> xs | Some k \<Rightarrow> take k xs) = ys"
    using str(2) by (auto simp: ys_def precision_def precision_code_def split: option.splits)
  then have tx: "string_text flags (nat width) p xs = (if LEFTALIGNED flags then ys @ ?b else ?b @ ys)"
    by (simp add: string_text_def pad_field_def n Let_def)
  have len: "length l + length ys + nat (width - int (length ys)) < 2 ^ 31" using len tx by (simp split: if_splits)
  note unf = precision_def [symmetric] print_string_def option.case strlen_cstring [OF s(1)] bind.bind_lunit Let_def w cnt m printf_putnchars_def
  show ?thesis
  proof (cases "LEFTALIGNED flags")
    case True
    obtain d1 where 1: "wr ys d = (int (length ys), d1)" "R (l @ ys) d1" using write_sends [OF assms(1), of ys] len by auto
    obtain d2 where "pad_post wr 0x20 (width - int (length ys)) (int (length ys)) d1 = (min (width - int (length ys)) 0 - 1, int (length ys) + ?n, d2)"
        "R ((l @ ys) @ ?b) d2"
      using pad_post_sends [OF 1(2), of "width - int (length ys)" "0x20" "int (length ys)"] len by auto
    then show ?thesis using True 1 tx unfolding unf by simp
  next
    case False
    obtain d1 where 1: "pad_post wr 0x20 (width - int (length ys)) 0 d = (min (width - int (length ys)) 0 - 1, ?n, d1)" "R (l @ ?b) d1"
      using pad_post_sends [OF assms(1), of "width - int (length ys)" "0x20" 0] len by auto
    obtain d2 where 2: "wr ys d1 = (int (length ys), d2)" "R ((l @ ?b) @ ys) d2" using write_sends [OF 1(2), of ys] len by auto
    obtain d3 where "pad_post wr 0x20 (min (width - int (length ys)) 0 - 1) (?n + int (length ys)) d2 = 
        (min (min (width - int (length ys)) 0 - 1) 0 - 1, ?n + int (length ys), d3)" "R ((l @ ?b) @ ys) d3"
      using pad_post_sends [OF 2(2), of "min (width - int (length ys)) 0 - 1" "0x20" "?n + int (length ys)"] len by auto
    then show ?thesis using False 1 2 tx unfolding unf by simp
  qed
qed

lemma print_prefix_sends:
  assumes "R l d" "length l + length (prefix_text base flags) < 2 ^ 31" "base = 8 \<Longrightarrow> \<not> PREFIX flags"
  shows "\<exists>d'. print_prefix wr base flags counter d = (counter + int (length (prefix_text base flags)), d') \<and> R (l @ prefix_text base flags) d'"
proof -
  have two: "\<exists>d'. (case put1 wr x counter d of (counter, d) \<Rightarrow> put1 wr y counter d) = (counter + 2, d') \<and> R (l @ [x, y]) d'"
    if len: "length l + 2 < 2 ^ 31" for x y
  proof -
    obtain d1 where 1: "put1 wr x counter d = (counter + 1, d1)" "R (l @ [x]) d1" using put1_sends [OF assms(1), of x counter] len by auto
    obtain d2 where "put1 wr y (counter + 1) d1 = (counter + 1 + 1, d2)" "R ((l @ [x]) @ [y]) d2"
      using put1_sends [OF 1(2), of y "counter + 1"] len by auto
    then show ?thesis using 1 by simp
  qed
  have "\<exists>d'. put1 wr x counter d = (counter + 1, d') \<and> R (l @ [x]) d'" if "length l + 1 < 2 ^ 31" for x
    using put1_sends [OF assms(1) that] .
  then show ?thesis using assms two unfolding print_prefix_def prefix_text_def
    by (cases "PREFIX flags"; cases "base = 2"; cases "base = 8"; cases "base = 16") simp_all
qed

text \<open>A number from its sign on, with the blanks behind it.\<close>

lemma number_body_sends:
  assumes "R l d" "cstring s ds" "ds \<noteq> []" and sg: "sg = (if sc = 0 then [] else [sc])" and zs: "zs = replicate (nat z) 0x30"
    and bs: "bs = replicate (nat width) 0x20" and pf: "pf = prefix_text base flags" and oct: "base = 8 \<Longrightarrow> \<not> PREFIX flags"
    and len: "length l + length sg + length pf + length zs + length ds + length bs < 2 ^ 31"
  shows "\<exists>d'. number_body wr sc base flags z s width counter d = Some (counter + int (length (sg @ pf @ zs @ ds @ bs)), d') \<and>
    R (l @ sg @ pf @ zs @ ds @ bs) d'"
proof -
  obtain d1 where 1: "(if sc \<noteq> 0 then put1 wr sc counter d else (counter, d)) = (counter + int (length sg), d1)" "R (l @ sg) d1"
    using put1_sends [OF assms(1), of sc counter] len assms(1) unfolding sg by (cases "sc = 0") auto
  define k1 where "k1 = counter + int (length sg)"
  obtain d2 where 2: "print_prefix wr base flags k1 d1 = (k1 + int (length pf), d2)" "R ((l @ sg) @ pf) d2"
    using print_prefix_sends [OF 1(2), of base flags k1] len oct unfolding pf by auto
  define k2 where "k2 = k1 + int (length pf)"
  obtain w3 d3 where 3: "pad_post wr 0x30 z k2 d2 = (w3, k2 + int (length zs), d3)" "R (((l @ sg) @ pf) @ zs) d3"
    using pad_post_sends [OF 2(2), of z "0x30" k2] len unfolding zs by auto
  define k3 where "k3 = k2 + int (length zs)"
  obtain d4 where 4: "printf_putstr wr s d3 = Some (int (length ds), d4)" "R ((((l @ sg) @ pf) @ zs) @ ds) d4"
    using putstr_sends [OF 3(2) _ assms(2)] len by auto
  obtain w5 d5 where 5: "pad_post wr 0x20 width (k3 + int (length ds)) d4 = (w5, k3 + int (length ds) + int (length bs), d5)"
      "R (((((l @ sg) @ pf) @ zs) @ ds) @ bs) d5"
    using pad_post_sends [OF 4(2), of width "0x20" "k3 + int (length ds)"] len unfolding bs by auto
  show ?thesis
    unfolding number_body_def 1 Let_def prod.case k1_def [symmetric] 2 k2_def [symmetric] 3 k3_def [symmetric] 4 bind.bind_lunit
    using 5 \<open>ds \<noteq> []\<close> by (simp add: k1_def k2_def k3_def)
qed

lemma print_number_sends:
  assumes "R l d" "0 \<le> width" and pr: "p \<noteq> Some 0" and base: "2 \<le> base" "base \<le> 16" and oct: "base = 8 \<Longrightarrow> \<not> PREFIX flags"
    and len: "length l + length (number_text base flags (nat width) p (unat num)) + 64 < 2 ^ 31"
  shows "\<exists>d'. print_number wr num width (int (precision_code p)) base flags d =
      Some (int (length (number_text base flags (nat width) p (unat num))), d') \<and>
    R (l @ number_text base flags (nat width) p (unat num)) d'"
proof -
  define precision where "precision = int (precision_code p)"
  have p0: "precision = 0 \<longleftrightarrow> p = None" "0 \<le> precision"
    using pr by (auto simp: precision_def precision_code_def split: option.splits)
  define ds where "ds = num_text base (BIGCHARS flags) (unat num)"
  define sc where "sc = sign_char flags"
  define sg where "sg = sign_text flags"
  define pf where "pf = prefix_text base flags"
  define zeros where "zeros = (if ZEROPADDED flags \<and> \<not> LEFTALIGNED flags \<and> precision = 0
    then nat width - (length sg + length pf) else nat precision) - length ds"
  define body where "body = sg @ pf @ replicate zeros 0x30 @ ds"
  define fl where "fl = (if LEFTALIGNED flags then flags\<lparr>ZEROPADDED := False\<rparr> else flags)"
  have tx: "number_text base flags (nat width) p (unat num) = pad_field (LEFTALIGNED flags) (nat width) body"
    using pr p0 unfolding precision_def
    by (cases p) (auto simp: number_text_def body_def zeros_def ds_def sg_def pf_def Let_def precision_def precision_code_def)
  have oct: "base = 8 \<Longrightarrow> \<not> PREFIX fl" using oct by (simp add: fl_def)
  have fl: "LEFTALIGNED fl = LEFTALIGNED flags" "prefix_text base fl = pf" "ZEROPADDED fl \<longleftrightarrow> ZEROPADDED flags \<and> \<not> LEFTALIGNED flags"
    by (auto simp: fl_def prefix_text_def pf_def)
  have sg: "sg = (if sc = 0 then [] else [sc])" by (simp add: sg_def sc_def sign_text_def)
  have dl: "length ds \<le> 64" "ds \<noteq> []"
    using num_text_length [OF unat64_less _ base(1), of "BIGCHARS flags" num] num_text_nonempty [of base]
    by (simp_all add: ds_def flip: length_greater_0_conv)
  obtain buf ptr where nd: "number_digits base (BIGCHARS flags) num = Some (buf, ptr, int (length ds))"
      "drop (nat (ptr + 1)) buf = ds @ [0]"
    using number_digits_text [of base "BIGCHARS flags" num] base by (auto simp: ds_def)
  have cs: "cstring (in_array (drop (nat (ptr + 1)) buf)) ds"
    unfolding nd(2) using num_text_nz [OF base] by (auto simp: cstring_def in_array_def nth_append ds_def)
  have bl: "length body = length sg + length pf + zeros + length ds" by (simp add: body_def)
  have fits: "length l + max (nat width) (length body) + 64 < 2 ^ 31" using len by (simp add: tx pad_field_length)
  define prec where "prec = length ds + zeros"
  define w where "w = width - int (length body)"
  have pw: "(if int (length ds) > (if ZEROPADDED fl \<and> precision = 0 \<and> width > int (length ds + length pf + length sg)
        then width - int (length ds + length pf + length sg) + int (length ds) else precision) then int (length ds)
      else (if ZEROPADDED fl \<and> precision = 0 \<and> width > int (length ds + length pf + length sg)
        then width - int (length ds + length pf + length sg) + int (length ds) else precision)) = int prec"
    using assms(2) p0(2) by (auto simp: fl prec_def zeros_def)
  have sz: "(if sc \<noteq> 0 then int (length ds) + prefix_size base flags + 1 else int (length ds) + prefix_size base flags)
      = int (length ds + length pf + length sg)"
    by (simp add: prefix_size_text sg pf_def)
  have tot: "in_int (int prec + int (length ds + length pf + length sg)) = Some (int (length body + length ds))"
    using fits dl(1) by (simp add: in_int_def bl prec_def)
  have w': "width - (int (length body + length ds) - int (length ds)) = w" "int prec - int (length ds) = int zeros"
    by (simp_all add: w_def prec_def)
  have wl: "length l + length body + nat w + 64 < 2 ^ 31" using fits unfolding w_def by linarith
  note unf = precision_def [symmetric] print_number_def nd(1) bind.bind_lunit prod.case sc_def [symmetric] fl_def [symmetric]
  show ?thesis
  proof (cases "LEFTALIGNED flags")
    case True
    have "print_number wr num width (int (precision_code p)) base flags d =
        number_body wr sc base fl (int zeros) (in_array (drop (nat (ptr + 1)) buf)) w 0 d"
      unfolding unf Let_def sz pw tot w' using True by (simp add: fl)
    moreover have "pad_field True (nat width) body = body @ replicate (nat w) 0x20" by (simp add: pad_field_def w_def nat_minus_as_int)
    ultimately show ?thesis
      using number_body_sends [OF assms(1) cs dl(2) sg refl refl fl(2) [symmetric] oct, of "int zeros" w 0] wl bl True
      by (auto simp: tx body_def)
  next
    case False
    let ?b = "replicate (nat w) 0x20" and ?w = "min w 0 - 1"
    obtain d1 where 1: "pad_post wr 0x20 w 0 d = (?w, int (nat w), d1)" "R (l @ ?b) d1"
      using pad_post_sends [OF assms(1), of w "0x20" 0] wl by auto
    have "print_number wr num width (int (precision_code p)) base flags d =
        number_body wr sc base fl (int zeros) (in_array (drop (nat (ptr + 1)) buf)) ?w (int (nat w)) d1"
      unfolding unf Let_def sz pw tot w' using False 1(1) by (simp add: fl)
    moreover have "pad_field False (nat width) body = ?b @ body" by (simp add: pad_field_def w_def nat_minus_as_int)
    ultimately show ?thesis
      using number_body_sends [OF 1(2) cs dl(2) sg refl refl fl(2) [symmetric] oct, of "int zeros" ?w "int (nat w)"] wl bl False
      by (auto simp: tx body_def)
  qed
qed

end

subsection \<open>Formats\<close>

text \<open>A width or precision, and the pieces of a format with the characters that stand for them.\<close>

datatype field = NoField | Num nat | Star

datatype piece = Text "u8 list" | Percent | Dir "u8 list" field "field option" qualifier_t u8

abbreviation flag_chars :: "u8 set" where "flag_chars \<equiv> {0x23, 0x2d, 0x2b, 0x20, 0x30}"

primrec field_src :: "field \<Rightarrow> u8 list" where
  "field_src NoField = []"
| "field_src (Num n) = num_text 10 False n"
| "field_src Star = [0x2a]"

primrec qualifier_src :: "qualifier_t \<Rightarrow> u8 list" where
  "qualifier_src QByte = [0x68, 0x68]"
| "qualifier_src QShort = [0x68]"
| "qualifier_src QInt = []"
| "qualifier_src QLong = [0x6c]"
| "qualifier_src QLongLong = [0x6c, 0x6c]"
| "qualifier_src QPointer = []"

primrec piece_src :: "piece \<Rightarrow> u8 list" where
  "piece_src (Text xs) = xs"
| "piece_src Percent = [0x25, 0x25]"
| "piece_src (Dir fs w p q c) =
     0x25 # fs @ field_src w @ (case p of None \<Rightarrow> [] | Some f \<Rightarrow> 0x2e # field_src f) @ qualifier_src q @ [c]"

text \<open>The conversions: \<open>s\<close>, \<open>c\<close>, and for integers the base, signed, big characters, pointer.\<close>

definition int_conv :: "u8 \<Rightarrow> (nat \<times> bool \<times> bool \<times> bool) option" where
  "int_conv c =
     (if c = 0x50 then Some (16, False, True, True) else if c = 0x70 then Some (16, False, False, True)
      else if c = 0x62 then Some (2, False, False, False) else if c = 0x6f then Some (8, False, False, False)
      else if c = 0x64 \<or> c = 0x69 then Some (10, True, False, False) else if c = 0x75 then Some (10, False, False, False)
      else if c = 0x58 then Some (16, False, True, False) else if c = 0x78 then Some (16, False, False, False)
      else None)"

primrec wf_piece :: "piece \<Rightarrow> bool" where
  "wf_piece (Text xs) \<longleftrightarrow> 0 \<notin> set xs \<and> 0x25 \<notin> set xs"
| "wf_piece Percent \<longleftrightarrow> True"
| "wf_piece (Dir fs w p q c) \<longleftrightarrow> set fs \<subseteq> flag_chars \<and> w \<noteq> Num 0 \<and> (case w of Num n \<Rightarrow> n < 2 ^ 31 | _ \<Rightarrow> True) \<and>
     (case p of Some (Num n) \<Rightarrow> n < 2 ^ 31 | _ \<Rightarrow> True) \<and> q \<noteq> QPointer \<and> (c = 0x73 \<or> c = 0x63 \<or> int_conv c \<noteq> None)"

text \<open>
  What a piece prints. The argument of an integer conversion is the number that C passes: one that
  fits the type given by the qualifier. Not part of the specification are a signed \<open>long long\<close>, an explicit precision
  of 0, a string shorter than its precision, \<open>NULL\<close> in a wider field or with a precision, the prefix of \<open>o\<close>, of a decimal
  number and of the number 0, and flags, qualifiers and precisions with conversions that have no meaning for them.
\<close>

definition set_flag :: "u8 \<Rightarrow> printf_flags \<Rightarrow> printf_flags" where
  "set_flag c flags =
     (if c = 0x23 then flags\<lparr>PREFIX := True\<rparr> else if c = 0x2d then flags\<lparr>LEFTALIGNED := True\<rparr>
      else if c = 0x2b then flags\<lparr>SHOWPLUS := True\<rparr> else if c = 0x20 then flags\<lparr>SPACESIGN := True\<rparr>
      else flags\<lparr>ZEROPADDED := True\<rparr>)"

definition width_arg :: "field \<Rightarrow> printf_flags \<Rightarrow> va list \<Rightarrow> (nat \<times> printf_flags \<times> va list) option" where
  "width_arg w flags ap =
     (case w of
        NoField \<Rightarrow> Some (0, flags, ap)
      | Num n \<Rightarrow> Some (n, flags, ap)
      | Star \<Rightarrow> Option.bind (va_int ap) (\<lambda>(v, ap).
          if sint v < 0 then if sint v = - (2 ^ 31) then None else Some (nat (- sint v), flags\<lparr>LEFTALIGNED := True\<rparr>, ap)
          else Some (nat (sint v), flags, ap)))"

definition precision_arg :: "field option \<Rightarrow> va list \<Rightarrow> (nat option \<times> va list) option" where
  "precision_arg p ap =
     (case p of
        None \<Rightarrow> Some (None, ap)
      | Some NoField \<Rightarrow> Some (Some 0, ap)
      | Some (Num n) \<Rightarrow> Some (Some n, ap)
      | Some Star \<Rightarrow> Option.bind (va_int ap) (\<lambda>(v, ap). Some (if sint v < 0 then None else Some (nat (sint v)), ap)))"

definition fitting :: "bool \<Rightarrow> nat \<Rightarrow> u32 \<Rightarrow> int option" where
  "fitting sg bits v =
     (if sg then if - (2 ^ (bits - 1)) \<le> sint v \<and> sint v < 2 ^ (bits - 1) then Some (sint v) else None
      else if uint v < 2 ^ bits then Some (uint v) else None)"

definition int_arg :: "bool \<Rightarrow> qualifier_t \<Rightarrow> va list \<Rightarrow> (int \<times> va list) option" where
  "int_arg sg q ap =
     (if q = QLongLong then Option.bind (va_longlong ap) (\<lambda>(v, ap). if sg then None else Some (uint v, ap))
      else Option.bind (va_int ap) (\<lambda>(v, ap).
        map_option (\<lambda>n. (n, ap)) (fitting sg (if q = QByte then 8 else if q = QShort then 16 else 32) v)))"

definition plain :: "qualifier_t \<Rightarrow> printf_flags \<Rightarrow> bool" where
  "plain q flags \<longleftrightarrow> q = QInt \<and> flags\<lparr>LEFTALIGNED := False\<rparr> = no_flags"

definition conv_text ::
  "u8 \<Rightarrow> qualifier_t \<Rightarrow> printf_flags \<Rightarrow> nat \<Rightarrow> nat option \<Rightarrow> va list \<Rightarrow> (u8 list \<times> va list) option" where
  "conv_text c q flags width precision ap =
     (if c = 0x73 then
        Option.bind (va_str ap) (\<lambda>(s, ap).
          case s of
            None \<Rightarrow> if plain q flags \<and> precision = None \<and> width \<le> 6 then Some (chars ''(NULL)'', ap) else None
          | Some s \<Rightarrow> Option.bind (strlen s) (\<lambda>n.
              if plain q flags \<and> n < 2 ^ 31 \<and> (precision = None \<or> 0 < the precision \<and> the precision \<le> n)
              then Some (string_text flags width precision (map s [0..<n]), ap) else None))
      else if c = 0x63 then
        Option.bind (va_int ap) (\<lambda>(v, ap).
          if plain q flags \<and> precision = None then Some (pad_field (LEFTALIGNED flags) width [ucast v], ap) else None)
      else Option.bind (int_conv c) (\<lambda>(base, sg, big, ptr).
        Option.bind (int_arg sg (if ptr then QPointer else q) ap) (\<lambda>(v, ap).
        if precision = Some 0 \<or> ptr \<and> q \<noteq> QInt \<or> PREFIX flags \<and> \<not> ptr \<and> (v = 0 \<or> base \<noteq> 2 \<and> base \<noteq> 16) then None
        else Some (number_text base (flags\<lparr>SIGNED := sg, BIGCHARS := big, PREFIX := PREFIX flags \<or> ptr, NEGATIVE := v < 0\<rparr>)
          width precision (nat \<bar>v\<bar>), ap))))"

primrec piece_text :: "piece \<Rightarrow> va list \<Rightarrow> (u8 list \<times> va list) option" where
  "piece_text (Text xs) ap = Some (xs, ap)"
| "piece_text Percent ap = Some ([0x25], ap)"
| "piece_text (Dir fs w p q c) ap =
     Option.bind (width_arg w (fold set_flag fs no_flags) ap) (\<lambda>(width, flags, ap).
     Option.bind (precision_arg p ap) (\<lambda>(precision, ap). conv_text c q flags width precision ap))"

primrec render :: "piece list \<Rightarrow> va list \<Rightarrow> u8 list option" where
  "render [] ap = Some []"
| "render (x # xs) ap = Option.bind (piece_text x ap) (\<lambda>(ys, ap). map_option (\<lambda>zs. ys @ zs) (render xs ap))"

subsection \<open>Parsing\<close>

definition text_at :: "cstr \<Rightarrow> nat \<Rightarrow> u8 list \<Rightarrow> bool" where
  "text_at fmt i xs \<longleftrightarrow> (\<forall>k<length xs. fmt (i + k) = xs ! k)"

lemma text_at_Nil [simp]: "text_at fmt i []"
  by (simp add: text_at_def)

lemma text_at_Cons [simp]: "text_at fmt i (x # xs) \<longleftrightarrow> fmt i = x \<and> text_at fmt (i + 1) xs"
  by (auto simp: text_at_def less_Suc_eq_0_disj all_conj_distrib)

lemma text_at_append [simp]: "text_at fmt i (xs @ ys) \<longleftrightarrow> text_at fmt i xs \<and> text_at fmt (i + length xs) ys"
  by (induction xs arbitrary: i) auto

lemma cstring_text_at: "cstring fmt xs \<Longrightarrow> text_at fmt 0 (xs @ [0])"
  by (auto simp: cstring_def text_at_def nth_append less_Suc_eq)

lemma text_at_map: "text_at fmt i xs \<Longrightarrow> map fmt [i..<i + length xs] = xs"
  by (rule nth_equalityI) (auto simp: text_at_def)

lemma parse_flags_src:
  "set fs \<subseteq> flag_chars \<Longrightarrow> text_at fmt (i + 1) fs \<Longrightarrow> fmt (i + 1 + length fs) \<notin> flag_chars \<Longrightarrow>
    parse_flags fmt i flags = Some (i + 1 + length fs, fold set_flag fs flags)"
proof (induction fs arbitrary: i flags)
  case Nil
  then show ?case by (subst parse_flags.simps) simp
next
  case (Cons c fs)
  then have "parse_flags fmt (i + 1) (set_flag c flags) = Some (i + 1 + 1 + length fs, fold set_flag fs (set_flag c flags))"
    by (intro Cons.IH) (simp_all add: add.assoc)
  then show ?case using Cons.prems by (subst parse_flags.simps) (auto simp: set_flag_def)
qed

text \<open>A decimal number: the value that the loop computes, and that of the digits of a number.\<close>

definition decimal :: "int \<Rightarrow> u8 list \<Rightarrow> int" where
  "decimal v ds = foldl (\<lambda>v c. v * 10 + (uint c - 0x30)) v ds"

lemma decimal_mono: "\<forall>c\<in>set ds. isdigit c \<Longrightarrow> 0 \<le> v \<Longrightarrow> v \<le> decimal v ds"
proof (induction ds arbitrary: v)
  case (Cons c ds)
  then have "0 \<le> uint c - 0x30" by (simp add: isdigit_def word_le_def)
  then show ?case using Cons.IH [of "v * 10 + (uint c - 0x30)"] Cons.prems by (simp add: decimal_def)
qed (simp add: decimal_def)

lemma parse_number_src:
  "\<forall>c\<in>set ds. isdigit c \<Longrightarrow> text_at fmt i ds \<Longrightarrow> \<not> isdigit (fmt (i + length ds)) \<Longrightarrow> 0 \<le> v \<Longrightarrow> decimal v ds < 2 ^ 31 \<Longrightarrow>
    parse_number fmt i v = Some (i + length ds, decimal v ds)"
proof (induction ds arbitrary: i v)
  case Nil
  then show ?case by (subst parse_number.simps) (simp add: decimal_def)
next
  case (Cons c ds)
  let ?v = "v * 10 + (uint c - 0x30)"
  have d: "decimal v (c # ds) = decimal ?v ds" by (simp add: decimal_def)
  have c: "0 \<le> uint c - 0x30" using Cons.prems(1) by (simp add: isdigit_def word_le_def)
  then have "?v \<le> decimal ?v ds" using Cons.prems decimal_mono [of ds ?v] by simp
  then have "in_int (v * 10) = Some (v * 10)" "in_int ?v = Some ?v" using Cons.prems(4,5) c d by (simp_all add: in_int_def)
  moreover have "parse_number fmt (i + 1) ?v = Some (i + 1 + length ds, decimal ?v ds)"
    using Cons.prems d c by (intro Cons.IH) simp_all
  ultimately show ?case using Cons.prems d by (subst parse_number.simps) simp
qed

lemma num_text_decimal: "(\<forall>c\<in>set (num_text 10 False n). isdigit c) \<and> decimal 0 (num_text 10 False n) = int n"
proof (induction n rule: less_induct)
  case (less n)
  have dig: "isdigit (digit_char False k)" "uint (digit_char False k) = 0x30 + int k" if "k < 10" for k
  proof -
    have "k \<in> set [0..<10]" using that by simp
    then show "isdigit (digit_char False k)" "uint (digit_char False k) = 0x30 + int k"
      by (auto simp: digit_char_def isdigit_def upt_rec)
  qed
  show ?case
  proof (cases "n < 10")
    case True
    then show ?thesis using dig [of n] by (subst (1 2) num_text.simps) (simp add: decimal_def)
  next
    case False
    then show ?thesis using dig [of "n mod 10"] less [of "n div 10"]
      by (subst (1 2) num_text.simps) (simp add: decimal_def zdiv_int zmod_int)
  qed
qed

lemma sign_mask:
  fixes w :: u32
  assumes k: "k < 32" and v: "- (2 ^ k) \<le> sint w" "sint w < 2 ^ k"
  shows "(ucast w :: u64) AND scast (push_bit k 1 :: u32) \<noteq> 0 \<longleftrightarrow> sint w < 0"
proof -
  have "signed_take_bit k (sint w) = sint w" using v by (intro signed_take_bit_int_eq_self) auto
  then have "sint w < 0 \<longleftrightarrow> bit (sint w) k" by (metis signed_take_bit_negative_iff)
  also have "\<dots> \<longleftrightarrow> bit w k" using k by (auto simp: bit_sint_iff)
  finally have neg: "sint w < 0 \<longleftrightarrow> bit w k" .
  have "bit ((ucast w :: u64) AND scast (push_bit k 1 :: u32)) n \<longleftrightarrow> n = k \<and> bit w k" for n
    using k bit_imp_le_length [of w n] by (cases "n = 31") (auto simp: bit_and_iff bit_ucast_iff bit_signed_iff bit_push_bit_iff bit_exp_iff min_def)
  then show ?thesis unfolding neg by (metis bit_0_eq bot_apply bot_bool_def bit_eq_iff)
qed

lemma sign_magnitude:
  fixes w :: u32
  assumes k: "k < 32" and v: "- (2 ^ k) \<le> sint w" "sint w < 0"
  shows "unat ((NOT (ucast w) AND NOT (push_bit (Suc k) (- 1))) + 1 :: u64) = nat (- sint w)"
proof -
  let ?x = "NOT (ucast w) AND NOT (push_bit (Suc k) (- 1)) :: u64"
  have "?x = take_bit (Suc k) (NOT (ucast w))" by (simp add: take_bit_eq_mask mask_eq_exp_minus_1 minus_exp_eq_not_mask push_bit_minus_one_eq_not_mask)
  then have "uint ?x = take_bit (Suc k) (NOT (uint w))" using k
     by (simp add: unsigned_take_bit_eq unsigned_not_eq unsigned_ucast_eq take_bit_not_take_bit min_def)
  also have "\<dots> = take_bit (Suc k) (NOT (sint w))"
  proof -
    have "take_bit (Suc k) (uint w) = take_bit (Suc k) (sint w)" 
      using k by (subst uint_sint) (simp add: min_def)
    then show ?thesis by (metis take_bit_not_take_bit)
  qed
  also have "\<dots> = NOT (sint w)" using v by (intro take_bit_int_eq_self) (auto simp: not_int_def)
  finally have x: "uint ?x = - sint w - 1" by (simp add: not_int_def)
  have "(2::int) ^ k < 2 ^ 32" using k by (intro power_strict_increasing) auto
  then have "uint (?x + 1) = - sint w" using x v by (simp add: uint_plus_if')
  then show ?thesis by (metis nat_uint_eq)
qed

text \<open>The number that is printed for an integer argument.\<close>

lemma unat_ucast64: "unat (ucast (w :: u32) :: u64) = unat w"
  using unat32_less [of w] by (simp add: unsigned_ucast_eq take_bit_nat_eq_self)

lemma sign_number_signed:
  assumes "SIGNED flags" "bits \<in> {8, 16, 32}" "fitting True bits w = Some v" "\<not> NEGATIVE flags"
  shows "\<exists>n. sign_number flags (bits div 8) (ucast w) = Some (flags\<lparr>NEGATIVE := v < 0\<rparr>, n) \<and> unat n = nat \<bar>v\<bar>"
proof -
  obtain k where k: "bits = Suc k" "k < 32" "bits div 8 * 8 = bits" using assms(2) by auto
  have v: "v = sint w" "- (2 ^ k) \<le> sint w" "sint w < 2 ^ k" using assms(3) k(1) by (auto simp: fitting_def split: if_splits)
  have "(2 :: int) ^ k < 2 ^ 32" using k(2) by (intro power_strict_increasing) auto
  then have u: "uint w = sint w" if "0 \<le> sint w"
    using that v(3) by (subst uint_sint) (auto intro: take_bit_int_eq_self)
  have e: "bits div 8 \<noteq> 8" using assms(2) by auto
  show ?thesis
  proof (cases "sint w < 0")
    case True
    then show ?thesis
      using sign_mask [OF k(2) v(2,3)] sign_magnitude [OF k(2) v(2)] assms(1) k v(1) e unfolding sign_number_def k(3) by simp
  next
    case False
    then have "flags\<lparr>NEGATIVE := v < 0\<rparr> = flags" using assms(4) v(1) by simp
    then show ?thesis
      using sign_mask [OF k(2) v(2,3)] False u assms(1) k v(1) nat_uint_eq [of w] unfolding sign_number_def k(3) by (simp add: unat_ucast64)
  qed
qed

lemma int_arg_number:
  assumes "int_arg sg q ap = Some (v, ap')" "SIGNED flags = sg" "\<not> NEGATIVE flags"
  shows "\<exists>sz n0 n. get_number q ap = Some (sz, n0, ap') \<and> sign_number flags sz n0 = Some (flags\<lparr>NEGATIVE := v < 0\<rparr>, n) \<and> unat n = nat \<bar>v\<bar>"
proof -
  have same: "flags\<lparr>NEGATIVE := False\<rparr> = flags" using assms(3) by simp
  show ?thesis
  proof (cases "q = QLongLong")
    case True
    then obtain x where "va_longlong ap = Some (x, ap')" "\<not> sg" "v = uint x"
      using assms(1) by (auto simp: int_arg_def bind_eq_Some_conv split: if_splits)
    then show ?thesis using True assms(2) same by (auto simp: get_number_def sign_number_def)
  next
    case False
    let ?b = "if q = QByte then 8 else if q = QShort then 16 else 32 :: nat"
    obtain w where w: "va_int ap = Some (w, ap')" "fitting sg ?b w = Some v"
      using assms(1) False by (auto simp: int_arg_def bind_eq_Some_conv)
    then have g: "get_number q ap = Some (?b div 8, ucast w, ap')" using False by (cases q) (simp_all add: get_number_def)
    show ?thesis
    proof (cases sg)
      case True
      then show ?thesis using sign_number_signed [of flags ?b w v] w(2) g assms(2,3) by auto
    next
      case False
      then have "v = uint w" using w(2) by (simp add: fitting_def split: if_splits)
      then show ?thesis using False g same assms(2) by (auto simp: sign_number_def unat_ucast64)
    qed
  qed
qed

text \<open>The characters behind the flags, the width and the precision end what stands in front of them.\<close>

definition conv_chars :: "u8 set" where
  "conv_chars = {0x73, 0x63, 0x50, 0x70, 0x62, 0x6f, 0x64, 0x69, 0x75, 0x58, 0x78}"

lemma conv_charsI: "c = 0x73 \<or> c = 0x63 \<or> int_conv c \<noteq> None \<Longrightarrow> c \<in> conv_chars"
  by (auto simp: conv_chars_def int_conv_def split: if_splits)

lemma text_at_hd: "text_at fmt i ys \<Longrightarrow> ys \<noteq> [] \<Longrightarrow> fmt i = hd ys"
  by (cases ys) simp_all

definition prec_src :: "field option \<Rightarrow> u8 list" where
  "prec_src p = (case p of None \<Rightarrow> [] | Some f \<Rightarrow> 0x2e # field_src f)"

lemma qualifier_hd:
  assumes "c \<in> conv_chars"
  shows "hd (qualifier_src q @ [c]) \<notin> flag_chars \<union> {0x2a, 0x2e} \<and> \<not> isdigit (hd (qualifier_src q @ [c]))"
  using assms by (cases q) (auto simp: conv_chars_def isdigit_def)

lemma precision_hd:
  assumes "c \<in> conv_chars"
  shows "hd (prec_src p @ qualifier_src q @ [c]) \<notin> flag_chars \<union> {0x2a} \<and> \<not> isdigit (hd (prec_src p @ qualifier_src q @ [c]))"
  using qualifier_hd [OF assms, of q] by (cases p) (auto simp: prec_src_def isdigit_def)

lemma num_text_hd: "n \<noteq> 0 \<Longrightarrow> hd (num_text 10 False n) \<notin> flag_chars"
proof (induction n rule: less_induct)
  case (less n)
  show ?case
  proof (cases "n < 10")
    case True
    then have "n \<in> set [1..<10]" using less.prems by simp
    then show ?thesis by (subst num_text.simps) (auto simp: digit_char_def upt_rec)
  next
    case False
    then have "hd (num_text 10 False (n div 10)) \<notin> flag_chars" using less by simp
    moreover have "num_text 10 False (n div 10) \<noteq> []" using num_text_nonempty by blast
    ultimately show ?thesis using False by (subst num_text.simps) simp
  qed
qed

lemma width_hd:
  assumes "c \<in> conv_chars" "w \<noteq> Num 0"
  shows "hd (field_src w @ prec_src p @ qualifier_src q @ [c]) \<notin> flag_chars"
proof (cases w)
  case (Num n)
  then show ?thesis using num_text_hd [of n] assms(2) num_text_nonempty [of 10 False n] by simp
qed (use precision_hd [OF assms(1), of p q] in auto)

lemma parse_width_src:
  assumes src: "text_at fmt i (field_src w)" and nx: "fmt (i + length (field_src w)) \<noteq> 0x2a" "\<not> isdigit (fmt (i + length (field_src w)))"
    and w: "case w of Num n \<Rightarrow> n < 2 ^ 31 | _ \<Rightarrow> True" and arg: "width_arg w flags ap = Some (n, flags', ap')"
  shows "parse_width fmt i flags ap = Some (i + length (field_src w), int n, flags', ap')"
proof (cases w)
  case (Num k)
  have "parse_number fmt i 0 = Some (i + length (field_src w), decimal 0 (field_src w))"
    using assms Num num_text_decimal [of k] by (intro parse_number_src) simp_all
  moreover have "isdigit (fmt i)"
    using src Num num_text_decimal [of k] text_at_hd [of fmt i "num_text 10 False k"] num_text_nonempty [of 10 False k] by simp
  ultimately show ?thesis using arg Num num_text_decimal [of k] by (simp add: parse_width_def width_arg_def)
next
  case Star
  have "\<not> isdigit 0x2a" by (simp add: isdigit_def)
  moreover obtain v where v: "va_int ap = Some (v, ap')"
    using arg Star by (auto simp: width_arg_def bind_eq_Some_conv split: if_splits)
  moreover have "- (2 ^ 31) \<le> sint v" using sint_ge [of v] by simp
  ultimately show ?thesis
    using src arg Star by (cases "sint v < 0") (auto simp: parse_width_def width_arg_def in_int_def split: if_splits)
qed (use assms in \<open>auto simp: parse_width_def width_arg_def\<close>)

lemma parse_precision_src:
  assumes src: "text_at fmt i (prec_src p)"
    and nx: "fmt (i + length (prec_src p)) \<notin> {0x2a, 0x2e}" "\<not> isdigit (fmt (i + length (prec_src p)))"
    and p: "case p of Some (Num n) \<Rightarrow> n < 2 ^ 31 | _ \<Rightarrow> True" and arg: "precision_arg p ap = Some (n, ap')"
  shows "parse_precision fmt i ap = Some (i + length (prec_src p), int (precision_code n), ap')"
proof (cases p)
  case None
  then show ?thesis using assms by (auto simp: parse_precision_def precision_arg_def prec_src_def precision_code_def)
next
  case (Some f)
  then have i: "fmt i = 0x2e" "text_at fmt (i + 1) (field_src f)" using src by (simp_all add: prec_src_def)
  show ?thesis
  proof (cases f)
    case (Num k)
    have "parse_number fmt (i + 1) 0 = Some (i + 1 + length (field_src f), decimal 0 (field_src f))"
      using assms i Some Num num_text_decimal [of k] by (intro parse_number_src) (simp_all add: prec_src_def)
    moreover have "isdigit (fmt (i + 1))"
      using i(2) Num num_text_decimal [of k] text_at_hd [of fmt "i + 1" "num_text 10 False k"] num_text_nonempty [of 10 False k] by simp
    ultimately show ?thesis
      using i arg Some Num num_text_decimal [of k] by (auto simp: parse_precision_def precision_arg_def prec_src_def precision_code_def)
  next
    case Star
    have "\<not> isdigit 0x2a" by (simp add: isdigit_def)
    then show ?thesis
      using i arg Some Star by (auto simp: parse_precision_def precision_arg_def prec_src_def precision_code_def bind_eq_Some_conv)
  qed (use assms i Some in \<open>auto simp: parse_precision_def precision_arg_def prec_src_def precision_code_def\<close>)
qed

lemma parse_qualifier_src:
  assumes "text_at fmt i (qualifier_src q @ [c])" "c \<in> conv_chars" "q \<noteq> QPointer"
  shows "parse_qualifier fmt i = (q, i + length (qualifier_src q))"
  using assms by (cases q) (auto simp: parse_qualifier_def conv_chars_def)

subsection \<open>What \<open>printf_core\<close> sends\<close>

lemma core_loop_text:
  "text_at fmt i xs \<Longrightarrow> 0 \<notin> set xs \<Longrightarrow> 0x25 \<notin> set xs \<Longrightarrow> core_loop wr fmt i j counter ap d = core_loop wr fmt (i + length xs) j counter ap d"
proof (induction xs arbitrary: i)
  case (Cons x xs)
  then have "core_loop wr fmt i j counter ap d = core_loop wr fmt (i + 1) j counter ap d" by (subst core_loop.simps) simp
  then show ?case using Cons.IH [of "i + 1"] Cons.prems by simp
qed simp

lemma core_loop_step:
  "fmt i = 0x25 \<Longrightarrow> directive wr fmt i j counter ap d = Some (Next i' j' counter' ap' d') \<Longrightarrow>
    core_loop wr fmt i j counter ap d = core_loop wr fmt (i' + 1) j' counter' ap' d'"
  by (subst core_loop.simps) simp

definition fresh :: "printf_flags \<Rightarrow> bool" where
  "fresh flags \<longleftrightarrow> \<not> SIGNED flags \<and> \<not> BIGCHARS flags \<and> \<not> NEGATIVE flags"

lemma fresh_flags: "fresh flags \<Longrightarrow> fresh (fold set_flag fs flags)"
  by (induction fs arbitrary: flags) (simp_all add: fresh_def set_flag_def)

lemma fresh_width: "width_arg w flags ap = Some (n, flags', ap') \<Longrightarrow> fresh flags \<Longrightarrow> fresh flags'"
  by (cases w) (auto simp: width_arg_def fresh_def bind_eq_Some_conv split: if_splits)

context output_method
begin

lemma print_integer_sends:
  assumes R: "R l d" "counter = int (length l)" and arg: "int_arg (SIGNED flags) q ap = Some (v, ap')" and "\<not> NEGATIVE flags"
    and base: "2 \<le> base" "base \<le> 16" and pr: "precision \<noteq> Some 0" and oct: "base = 8 \<Longrightarrow> \<not> PREFIX flags"
    and tx: "tx = number_text base (flags\<lparr>NEGATIVE := v < 0\<rparr>) width precision (nat \<bar>v\<bar>)"
    and len: "length l + length tx + 64 < 2 ^ 31"
  shows "\<exists>d'. print_integer wr i q (int width) (int (precision_code precision)) base flags counter ap d =
    Some (Next i (i + 1) (int (length (l @ tx))) ap' d') \<and> R (l @ tx) d'"
proof -
  obtain sz n0 n where n: "get_number q ap = Some (sz, n0, ap')" "sign_number flags sz n0 = Some (flags\<lparr>NEGATIVE := v < 0\<rparr>, n)"
      "unat n = nat \<bar>v\<bar>"
    using int_arg_number [OF arg refl assms(4)] by blast
  obtain d' where "print_number wr n (int width) (int (precision_code precision)) base (flags\<lparr>NEGATIVE := v < 0\<rparr>) d = Some (int (length tx), d')"
      "R (l @ tx) d'"
    using print_number_sends [OF R(1) _ pr base, of "int width" "flags\<lparr>NEGATIVE := v < 0\<rparr>" n] len n(3) tx oct by auto
  then show ?thesis using n len R(2) by (simp add: print_integer_def count_next_def in_int_def)
qed

lemma conversion_sends:
  assumes R: "R l d" "counter = int (length l)" and c: "fmt i = c" and tx: "conv_text c q flags width precision ap = Some (tx, ap')"
    and fl: "fresh flags" and len: "length l + length tx + 64 < 2 ^ 31"
  shows "\<exists>d'. conversion wr fmt i j q (int width) (int (precision_code precision)) flags counter ap d =
    Some (Next i (i + 1) (int (length (l @ tx))) ap' d') \<and> R (l @ tx) d'"
proof -
  consider (s) "c = 0x73" | (c) "c = 0x63" | (int) "c \<noteq> 0x73" "c \<noteq> 0x63" by blast
  then show ?thesis
  proof cases
    case s
    then obtain so where so: "va_str ap = Some (so, ap')" using tx by (auto simp: conv_text_def bind_eq_Some_conv split: option.splits if_splits)
    have "\<exists>d'. print_string wr so (int width) (of_nat (precision_code precision)) flags d = Some (int (length tx), d') \<and> R (l @ tx) d'"
    proof (cases so)
      case None
      then have "tx = chars ''(NULL)''" using tx s so by (simp add: conv_text_def split: if_splits)
      then show ?thesis using putstr_sends [OF R(1), of tx] cstring_lit [of "''(NULL)''"] None len by (simp add: print_string_def)
    next
      case (Some str)
      then obtain n where n: "strlen str = Some n" "n < 2 ^ 31" "precision = None \<or> 0 < the precision \<and> the precision \<le> n"
          "tx = string_text flags width precision (map str [0..<n])"
        using tx s so by (auto simp: conv_text_def bind_eq_Some_conv split: if_splits)
      obtain xs where xs: "cstring str xs" "length xs = n" using strlen_exists [OF n(1)] by blast
      then have "map str [0..<n] = xs" using cstringD(1) by (intro nth_equalityI) auto
      moreover have "width < 2 ^ 31" using len n(4) by (simp add: string_text_def pad_field_length)
      ultimately show ?thesis
        using print_string_sends [OF R(1) _ _ xs(1), of "int width" precision flags] n xs(2) len Some by simp
    qed
    then show ?thesis using s c so len R(2) by (auto simp: conversion_def count_next_def in_int_def)
  next
    case c
    then obtain v where v: "va_int ap = Some (v, ap')" "tx = pad_field (LEFTALIGNED flags) width [ucast v]"
      using tx by (auto simp: conv_text_def bind_eq_Some_conv split: if_splits)
    then show ?thesis
      using print_char_sends [OF R(1), of "int width" flags "ucast v"] c \<open>fmt i = c\<close> len R(2)
      by (auto simp: conversion_def count_next_def in_int_def)
  next
    case int
    then obtain base sg big ptr v where cv: "int_conv c = Some (base, sg, big, ptr)"
      and v: "int_arg sg (if ptr then QPointer else q) ap = Some (v, ap')"
      and t: "tx = number_text base (flags\<lparr>SIGNED := sg, BIGCHARS := big, PREFIX := PREFIX flags \<or> ptr, NEGATIVE := v < 0\<rparr>) width precision (nat \<bar>v\<bar>)"
      and pr: "precision \<noteq> Some 0" and pf: "PREFIX flags \<Longrightarrow> \<not> ptr \<Longrightarrow> base = 2 \<or> base = 16"
      using tx by (auto simp: conv_text_def bind_eq_Some_conv split: if_splits)
    let ?f = "flags\<lparr>SIGNED := sg, BIGCHARS := big, PREFIX := PREFIX flags \<or> ptr\<rparr>"
    have "2 \<le> base" "base \<le> 16" "ptr \<Longrightarrow> base = 16" using cv by (auto simp: int_conv_def split: if_splits)
    then have "\<exists>d'. print_integer wr i (if ptr then QPointer else q) (int width) (int (precision_code precision)) base ?f counter ap d =
        Some (Next i (i + 1) (int (length (l @ tx))) ap' d') \<and> R (l @ tx) d'"
      using fl v t len R pr pf by (intro print_integer_sends) (auto simp: fresh_def)
    moreover have "conversion wr fmt i j q (int width) (int (precision_code precision)) flags counter ap d =
        print_integer wr i (if ptr then QPointer else q) (int width) (int (precision_code precision)) base ?f counter ap d"
      using cv fl int \<open>fmt i = c\<close> by (cases flags) (auto simp: conversion_def int_conv_def fresh_def split: if_splits)
    ultimately show ?thesis by simp
  qed
qed

lemma flush_sends:
  assumes "R l d" "counter = int (length l)" "j \<le> i" "length (l @ map fmt [j..<i]) < 2 ^ 31"
  shows "\<exists>d'. flush wr fmt i j counter d = Some (Inr (int (length (l @ map fmt [j..<i])), d')) \<and> R (l @ map fmt [j..<i]) d'"
proof (cases "i > j")
  case True
  then show ?thesis using write_sends [OF assms(1), of "map fmt [j..<i]"] assms
    by (auto simp: flush_def printf_putnchars_def in_int_def)
qed (use assms in \<open>simp add: flush_def\<close>)

lemma percent_sends:
  assumes "R l d" "counter = int (length l)" "text_at fmt i [0x25, 0x25]" "j \<le> i" "length (l @ map fmt [j..<i]) < 2 ^ 31"
  shows "\<exists>d'. directive wr fmt i j counter ap d = Some (Next (i + 1) (i + 1) (int (length (l @ map fmt [j..<i]))) ap d') \<and> R (l @ map fmt [j..<i]) d'"
proof -
  have f: "fmt i = 0x25" "fmt (i + 1) = 0x25" "\<not> isdigit 0x25" using assms(3) by (simp_all add: isdigit_def)
  then have "parse_flags fmt i no_flags = Some (i + 1, no_flags)" by (subst parse_flags.simps) simp
  then show ?thesis
    using f flush_sends [OF assms(1,2,4,5)]
    by (auto simp: directive_def parse_width_def parse_precision_def parse_qualifier_def conversion_def simp del: length_append length_map)
qed

lemma directive_sends:
  assumes R: "R l d" "counter = int (length l)" and wf: "wf_piece (Dir fs w p q c)" and src: "text_at fmt i (piece_src (Dir fs w p q c))"
    and tx: "piece_text (Dir fs w p q c) ap = Some (tx, ap')" and pend: "j \<le> i" "pend = map fmt [j..<i]"
    and len: "length l + length pend + length tx + 64 < 2 ^ 31"
  shows "\<exists>i' d'. directive wr fmt i j counter ap d = Some (Next i' (i' + 1) (int (length (l @ pend @ tx))) ap' d') \<and>
    i' + 1 = i + length (piece_src (Dir fs w p q c)) \<and> R (l @ pend @ tx) d'"
proof -
  obtain d1 where d1: "flush wr fmt i j counter d = Some (Inr (int (length (l @ pend)), d1))" "R (l @ pend) d1"
    using flush_sends [OF R pend(1), of fmt] len unfolding pend(2) [symmetric] by auto
  obtain width flags ap1 where w: "width_arg w (fold set_flag fs no_flags) ap = Some (width, flags, ap1)"
    and t1: "Option.bind (precision_arg p ap1) (\<lambda>(precision, ap). conv_text c q flags width precision ap) = Some (tx, ap')"
    using tx by (auto simp: bind_eq_Some_conv)
  then obtain precision ap2 where pr: "precision_arg p ap1 = Some (precision, ap2)"
    and t2: "conv_text c q flags width precision ap2 = Some (tx, ap')" by (auto simp: bind_eq_Some_conv)
  have c: "c \<in> conv_chars" using wf by (intro conv_charsI) simp
  have nf: "fresh no_flags" by (simp add: fresh_def no_flags_def)
  define i1 where "i1 = i + 1 + length fs"
  define i2 where "i2 = i1 + length (field_src w)"
  define i3 where "i3 = i2 + length (prec_src p)"
  define i4 where "i4 = i3 + length (qualifier_src q)"
  have fs: "text_at fmt (i + 1) fs" and s1: "text_at fmt i1 (field_src w @ prec_src p @ qualifier_src q @ [c])"
    using src by (simp_all add: i1_def prec_src_def del: text_at_append) (simp_all add: add.assoc)
  then have s2: "text_at fmt i2 (prec_src p @ qualifier_src q @ [c])" and sw: "text_at fmt i1 (field_src w)" by (simp_all add: i2_def)
  then have s3: "text_at fmt i3 (qualifier_src q @ [c])" and sp: "text_at fmt i2 (prec_src p)" by (simp_all add: i3_def)
  then have c4: "fmt i4 = c" by (simp add: i4_def)
  have 1: "parse_flags fmt i no_flags = Some (i1, fold set_flag fs no_flags)"
    using wf fs text_at_hd [OF s1] width_hd [OF c, of w p q] unfolding i1_def by (intro parse_flags_src) simp_all
  have 2: "parse_width fmt i1 (fold set_flag fs no_flags) ap = Some (i2, int width, flags, ap1)"
    using wf w sw text_at_hd [OF s2] precision_hd [OF c, of p q] unfolding i2_def by (intro parse_width_src) simp_all
  have 3: "parse_precision fmt i2 ap1 = Some (i3, int (precision_code precision), ap2)"
    using wf pr sp text_at_hd [OF s3] qualifier_hd [OF c, of q] unfolding i3_def by (intro parse_precision_src) simp_all
  have 4: "parse_qualifier fmt i3 = (q, i4)" using parse_qualifier_src [OF s3 c] wf unfolding i4_def by simp
  obtain d' where "conversion wr fmt i4 i q (int width) (int (precision_code precision)) flags (int (length (l @ pend))) ap2 d1 =
      Some (Next i4 (i4 + 1) (int (length ((l @ pend) @ tx))) ap' d')" "R ((l @ pend) @ tx) d'"
    using conversion_sends [where fmt = fmt and i = i4, OF d1(2) refl c4 t2 fresh_width [OF w fresh_flags [OF nf]], of i] len by auto
  moreover have "i4 + 1 = i + length (piece_src (Dir fs w p q c))" by (simp add: i1_def i2_def i3_def i4_def prec_src_def)
  ultimately show ?thesis using d1(1) 1 2 3 4 by (auto simp: directive_def)
qed

text \<open>The loop, with the pending characters from \<open>j\<close> to \<open>i\<close> and the pieces from \<open>i\<close> on.\<close>

lemma core_loop_sends:
  assumes "R l d" "counter = int (length l)" "j \<le> i" "\<forall>x\<in>set ps. wf_piece x"
    "text_at fmt i (concat (map piece_src ps) @ [0])" "render ps ap = Some out"
    "length l + length (map fmt [j..<i]) + length out + 64 < 2 ^ 31"
  shows "\<exists>d'. core_loop wr fmt i j counter ap d = Some (int (length (l @ map fmt [j..<i] @ out)), d') \<and> R (l @ map fmt [j..<i] @ out) d'"
  using assms
proof (induction ps arbitrary: l d counter i j ap out)
  case Nil
  obtain d' where "flush wr fmt i j counter d = Some (Inr (int (length (l @ map fmt [j..<i])), d'))" "R (l @ map fmt [j..<i]) d'"
    using flush_sends [OF Nil.prems(1-3), of fmt] Nil.prems(7) by auto
  then show ?case using Nil.prems(5,6) by (subst core_loop.simps) simp
next
  case (Cons x ps)
  obtain pend where pend: "pend = map fmt [j..<i]" by simp
  obtain ys ap1 zs where out: "piece_text x ap = Some (ys, ap1)" "render ps ap1 = Some zs" "out = ys @ zs"
    using Cons.prems(6) by (auto simp: bind_eq_Some_conv)
  have src: "text_at fmt i (piece_src x)" "text_at fmt (i + length (piece_src x)) (concat (map piece_src ps) @ [0])"
    using Cons.prems(5) by (simp_all add: add.assoc)
  have len: "length l + length pend + length ys + length zs + 64 < 2 ^ 31" using Cons.prems(7) unfolding pend out(3) by simp
  have wf: "wf_piece x" "\<forall>x\<in>set ps. wf_piece x" using Cons.prems(4) by simp_all
  show ?case unfolding pend [symmetric]
  proof (cases x)
    case (Text xs)
    then have ys: "ys = xs" "ap1 = ap" using out(1) by simp_all
    have mp: "map fmt [j..<i + length xs] = pend @ xs"
      unfolding pend upt_add_eq_append [OF Cons.prems(3)] map_append using src(1) Text by (simp only: piece_src.simps text_at_map)
    have "\<exists>d'. core_loop wr fmt (i + length xs) j counter ap d =
        Some (int (length (l @ map fmt [j..<i + length xs] @ zs)), d') \<and> R (l @ map fmt [j..<i + length xs] @ zs) d'"
    proof (rule Cons.IH [OF Cons.prems(1,2) _ wf(2)])
      show "j \<le> i + length xs" using Cons.prems(3) by simp
      show "text_at fmt (i + length xs) (concat (map piece_src ps) @ [0])" using src(2) unfolding Text by simp
      show "render ps ap = Some zs" using out(2) ys by simp
      show "length l + length (map fmt [j..<i + length xs]) + length zs + 64 < 2 ^ 31" unfolding mp using len ys by simp
    qed
    moreover have "core_loop wr fmt i j counter ap d = core_loop wr fmt (i + length xs) j counter ap d"
      using src(1) wf(1) by (intro core_loop_text) (simp_all add: Text)
    ultimately show "\<exists>d'. core_loop wr fmt i j counter ap d = Some (int (length (l @ pend @ out)), d') \<and> R (l @ pend @ out) d'"
      unfolding mp out(3) ys by simp
  next
    case Percent
    then have ys: "ys = [0x25]" "ap1 = ap" using out(1) by simp_all
    have f: "fmt i = 0x25" "fmt (i + 1) = 0x25" using src(1) Percent by simp_all
    obtain d1 where d1: "directive wr fmt i j counter ap d = Some (Next (i + 1) (i + 1) (int (length (l @ pend))) ap d1)" "R (l @ pend) d1"
      using percent_sends [OF Cons.prems(1,2) _ Cons.prems(3), of fmt ap] src(1) Percent len unfolding pend by auto
    have "\<exists>d'. core_loop wr fmt (i + 1 + 1) (i + 1) (int (length (l @ pend))) ap d1 =
        Some (int (length ((l @ pend) @ map fmt [i + 1..<i + 1 + 1] @ zs)), d') \<and> R ((l @ pend) @ map fmt [i + 1..<i + 1 + 1] @ zs) d'"
      using d1(2) wf(2) src(2) Percent out(2) ys len by (intro Cons.IH) simp_all
    then show "\<exists>d'. core_loop wr fmt i j counter ap d = Some (int (length (l @ pend @ out)), d') \<and> R (l @ pend @ out) d'"
      using core_loop_step [of fmt i wr, OF f(1) d1(1)] f(2) ys out(3) by simp
  next
    case (Dir fs w p q c)
    have ly: "length l + length pend + length ys + 64 < 2 ^ 31" using len by linarith
    obtain i' d1 where d1: "directive wr fmt i j counter ap d = Some (Next i' (i' + 1) (int (length (l @ pend @ ys))) ap1 d1)"
        "i' + 1 = i + length (piece_src x)" "R (l @ pend @ ys) d1"
      using directive_sends [OF Cons.prems(1,2) wf(1) [unfolded Dir] src(1) [unfolded Dir] out(1) [unfolded Dir] Cons.prems(3) pend ly]
      unfolding Dir by blast
    have f: "fmt i = 0x25" using src(1) Dir by simp
    have "\<exists>d'. core_loop wr fmt (i' + 1) (i' + 1) (int (length (l @ pend @ ys))) ap1 d1 =
        Some (int (length ((l @ pend @ ys) @ map fmt [i' + 1..<i' + 1] @ zs)), d') \<and> R ((l @ pend @ ys) @ map fmt [i' + 1..<i' + 1] @ zs) d'"
      using d1(2,3) wf(2) src(2) out(2) len by (intro Cons.IH) simp_all
    then show "\<exists>d'. core_loop wr fmt i j counter ap d = Some (int (length (l @ pend @ out)), d') \<and> R (l @ pend @ out) d'"
      using core_loop_step [of fmt i wr, OF f d1(1)] out(3) by simp
  qed
qed

lemma printf_core_sends:
  assumes "R [] d" "\<forall>x\<in>set ps. wf_piece x" "cstring fmt (concat (map piece_src ps))" "render ps ap = Some out" "length out + 64 < 2 ^ 31"
  shows "\<exists>d'. printf_core wr fmt ap d = Some (int (length out), d') \<and> R out d'"
  using core_loop_sends [OF assms(1) _ _ assms(2), of 0 0 0 fmt ap out] cstring_text_at [OF assms(3)] assms(4,5)
  by (simp add: printf_core_def)

end

subsection \<open>Printing into memory\<close>

text \<open>
  The state of \<open>vsnprintf_write\<close> after the text \<open>l\<close>: as much of it as there is room for is in memory,
  with a NUL behind it.
\<close>

lemma store_bytes_append: "store_bytes m a (xs @ ys) = store_bytes (store_bytes m a xs) (a + of_nat (length xs)) ys"
  by (induction xs arbitrary: m a) (simp_all add: add.assoc)

lemma store_bytes_overwrite: "ys \<noteq> [] \<Longrightarrow> store_bytes (store_bytes m a (xs @ [x])) (a + of_nat (length xs)) ys = store_bytes m a (xs @ ys)"
  by (cases ys) (simp_all add: store_bytes_append)

definition vsn_state :: "mem \<Rightarrow> u32 \<Rightarrow> u32 \<Rightarrow> u8 list \<Rightarrow> vsnprintf_data \<Rightarrow> bool" where
  "vsn_state m str sz l data \<longleftrightarrow> dsize data = sz \<and> dstring data = str \<and>
     (if sz = 0 then dlen data = 0 \<and> dmem data = m
      else (dlen data = of_nat (length l) \<and> length l < unat sz \<or> dlen data = sz \<and> unat sz \<le> length l + 1) \<and>
        dmem data = store_bytes m str (take (unat sz - 1) l @ [0]))"

lemma vsnprintf_write_state:
  assumes st: "vsn_state m str sz l data" and len: "length l + length xs < 2 ^ 31"
  shows "fst (vsnprintf_write xs data) = int (length xs)" and "vsn_state m str sz (l @ xs) (snd (vsnprintf_write xs data))"
proof -
  show "fst (vsnprintf_write xs data) = int (length xs)" using len by (simp add: vsnprintf_write_def Let_def s32_small)
  show "vsn_state m str sz (l @ xs) (snd (vsnprintf_write xs data))"
  proof (cases "sz = 0 \<or> dlen data = sz")
    case True
    have same: "snd (vsnprintf_write xs data) = data" using st True by (auto simp: vsn_state_def vsnprintf_write_def split: if_splits)
    have "unat sz \<le> length l + 1" if "sz \<noteq> 0"
    proof -
      have "dlen data = sz" using True that by simp
      moreover have "unat (of_nat (length l) :: u32) = length l" using len by (intro unat_of_nat32) simp
      ultimately show ?thesis using st that unfolding vsn_state_def by (cases "length l < unat sz") auto
    qed
    then show ?thesis unfolding same using st True by (cases "sz = 0") (simp_all add: vsn_state_def)
  next
    case False
    then have d: "dsize data = sz" "dstring data = str" "dlen data = of_nat (length l)" "length l < unat sz"
        "dmem data = store_bytes m str (l @ [0])" and sz: "sz \<noteq> 0"
      using st by (auto simp: vsn_state_def)
    have dm: "(store_bytes (dmem data) (str + of_nat (length l)) ys)(str + of_nat (length l) + of_nat (length ys) := 0) =
        store_bytes m str (l @ ys @ [0])" for ys
      using store_bytes_overwrite [of "ys @ [0]" m str l 0] by (simp add: d(5) store_bytes_append)
    have i: "unat (sz - of_nat (length l)) = unat sz - length l"
      using d(4) len by (subst unat_sub) (simp_all add: word_le_nat_alt unat_of_nat32)
    have last: "str + (sz - 1) = str + of_nat (length l) + of_nat (unat sz - 1 - length l)"
      using d(4) sz by (simp add: of_nat_diff algebra_simps)
    consider (one) "unat sz = length l + 1" | (part) "length l + 1 < unat sz" "unat sz - length l \<le> length xs"
      | (all) "length l + length xs < unat sz" "length l + 1 < unat sz" using d(4) by linarith
    then show ?thesis
    proof cases
      case one
      then have "sz - of_nat (length l) = 1" using i by (intro word_unat_eq_iff [THEN iffD2]) simp
      moreover have "(dmem data)(str + (sz - 1) := 0) = store_bytes m str (l @ [0])" using dm [of "[]"] last one by simp
      ultimately have "snd (vsnprintf_write xs data) = data\<lparr>dmem := store_bytes m str (l @ [0]), dlen := sz\<rparr>"
        using d by (simp add: vsnprintf_write_def Let_def)
      then show ?thesis using one d sz by (simp add: vsn_state_def)
    next
      case part
      let ?i = "sz - of_nat (length l)" and ?ys = "take (unat sz - 1 - length l) xs"
      have n: "?i \<noteq> 0" "?i \<noteq> 1" using i part by (auto dest: arg_cong [of _ _ unat])
      have u: "unat (?i - 1) = unat sz - 1 - length l" using i n(1) by (simp add: unat_minus_one)
      have ly: "length ?ys = unat sz - 1 - length l" using part by simp
      have "(store_bytes (dmem data) (str + of_nat (length l)) ?ys)(str + (sz - 1) := 0) = store_bytes m str (l @ ?ys @ [0])"
        unfolding last using dm [of ?ys] unfolding ly .
      then have "snd (vsnprintf_write xs data) = data\<lparr>dmem := store_bytes m str (l @ ?ys @ [0]), dlen := sz\<rparr>"
        unfolding vsnprintf_write_def Let_def snd_conv d(1-3) by (simp only: n u i part(2) if_False if_True)
      moreover have "unat sz \<le> Suc (length l + length xs)" using part by linarith
      ultimately show ?thesis using part d sz by (simp add: vsn_state_def)
    next
      case all
      let ?i = "sz - of_nat (length l)"
      have n: "?i \<noteq> 0" "?i \<noteq> 1" "\<not> unat ?i \<le> length xs" using i all by (auto dest: arg_cong [of _ _ unat])
      then have "snd (vsnprintf_write xs data) =
          data\<lparr>dmem := store_bytes m str (l @ xs @ [0]), dlen := of_nat (length l) + of_nat (length xs)\<rparr>"
        using d dm [of xs] by (simp add: vsnprintf_write_def Let_def add.assoc)
      then show ?thesis using all d sz by (simp add: vsn_state_def)
    qed
  qed
qed

interpretation vsn: output_method vsnprintf_write "vsn_state m str sz" for m str sz
proof unfold_locales
  fix l data and xs :: "u8 list"
  assume "vsn_state m str sz l data" "length l + length xs < 2 ^ 31"
  then show "\<exists>d'. vsnprintf_write xs data = (int (length xs), d') \<and> vsn_state m str sz (l @ xs) d'"
    using vsnprintf_write_state by (metis prod.collapse)
qed

lemma vsn_start: "vsn_state m str sz [] \<lparr>dsize = sz, dlen = 0, dstring = str, dmem = if sz > 0 then m(str := 0) else m\<rparr>"
  by (simp add: vsn_state_def word_neq_0_conv unat_gt_0)

text \<open>
  C38. On a format that consists of text and well-formed directives and on arguments for which the text is specified
  (\<open>render\<close>, which leaves out the cases listed above \<open>plain\<close>), \<open>vsnprintf\<close> returns the length of
  the whole text, and memory holds as much of the text as fits into \<open>sz\<close> bytes with a NUL behind it;
  nothing else is written, and nothing at all if \<open>sz\<close> is 0.
\<close>

theorem vsnprintf_spec:
  assumes "\<forall>x\<in>set ps. wf_piece x" "cstring fmt (concat (map piece_src ps))" "render ps ap = Some out" "length out + 64 < 2 ^ 31"
  shows "vsnprintf str sz fmt ap m =
    Some (int (length out), if sz = 0 then m else store_bytes m str (take (unat sz - 1) out @ [0]))"
proof -
  obtain data where data: "printf_core vsnprintf_write fmt ap \<lparr>dsize = sz, dlen = 0, dstring = str, dmem = if sz > 0 then m(str := 0) else m\<rparr>
      = Some (int (length out), data)" "vsn_state m str sz out data"
    using vsn.printf_core_sends [OF vsn_start assms] by blast
  then show ?thesis by (auto simp: vsnprintf_def vsn_state_def)
qed

lemma replicate_eval: "replicate (numeral k) x = x # replicate (pred_numeral k) x"
  by (simp add: numeral_eq_Suc)

lemmas number_text_eval = number_text_def no_flags_def sign_text_def sign_char_def prefix_text_def pad_field_def replicate_eval
lemmas render_eval = width_arg_def precision_arg_def set_flag_def no_flags_def conv_text_def int_conv_def int_arg_def va_int_def

theorem vsnprintf_spec_witness:
  "vsnprintf 0x1000 10 (lit ''%08x|%-5d'') [VInt 0xbeef, VInt (- 42)] (\<lambda>_. 1) =
     Some (14, store_bytes (\<lambda>_. 1) 0x1000 [0x30, 0x30, 0x30, 0x30, 0x62, 0x65, 0x65, 0x66, 0x7c, 0])"
proof -
  let ?ps = "[Dir [0x30] (Num 8) None QInt 0x78, Text [0x7c], Dir [0x2d] (Num 5) None QInt 0x64]"
  have wf: "\<forall>x\<in>set ?ps. wf_piece x" by (simp add: int_conv_def)
  have src: "cstring (lit ''%08x|%-5d'') (concat (map piece_src ?ps))"
    using cstring_lit [of "''%08x|%-5d''"] by (simp add: chars_def char_byte_def num_text_eval digit_char_def)
  have "num_text 16 False 0xbeef = [0x62, 0x65, 0x65, 0x66]" "num_text 10 False 42 = [0x34, 0x32]"
    by (simp_all add: num_text_eval digit_char_def)
  then have t: "number_text 16 (no_flags\<lparr>ZEROPADDED := True\<rparr>) 8 None 0xbeef = [0x30, 0x30, 0x30, 0x30, 0x62, 0x65, 0x65, 0x66]"
    "number_text 10 (no_flags\<lparr>LEFTALIGNED := True, SIGNED := True, NEGATIVE := True\<rparr>) 5 None 42 = [0x2d, 0x34, 0x32, 0x20, 0x20]"
    by (simp_all add: number_text_eval)
  have "fitting False 32 0xbeef = Some 0xbeef" "fitting True 32 (- 42) = Some (- 42)" by (simp_all add: fitting_def)
  with t have r: "render ?ps [VInt 0xbeef, VInt (- 42)] =
      Some [0x30, 0x30, 0x30, 0x30, 0x62, 0x65, 0x65, 0x66, 0x7c, 0x2d, 0x34, 0x32, 0x20, 0x20]"
    by (simp add: render_eval)
  show ?thesis using vsnprintf_spec [OF wf src r] by simp
qed

subsection \<open>Printing on the console\<close>

lemma vprintf_method:
  assumes "logs co up sent"
  shows "output_method (vprintf_write co) (\<lambda>l s. up s \<and> sent s = s0 @ crlf l)"
  by unfold_locales (auto simp: vprintf_write_def putchars_sent [OF assms] crlf_append s32_small)

lemma printf_sent:
  assumes "logs co up sent" "\<forall>x\<in>set ps. wf_piece x" "cstring fmt (concat (map piece_src ps))" "render ps ap = Some out"
    "length out + 64 < 2 ^ 31" "up s"
  shows "\<exists>s'. printf co fmt ap s = Some (int (length out), s') \<and> sent s' = sent s @ crlf out \<and> up s'"
proof -
  have "up s \<and> sent s = sent s @ crlf []" using assms(6) by (simp add: crlf_def)
  then show ?thesis
    using output_method.printf_core_sends [OF vprintf_method [OF assms(1), of "sent s"] _ assms(2-5)]
    by (auto simp: printf_def vprintf_def)
qed

text \<open>
  C39. \<open>printf\<close> on the serial console, with the port set up, sends the text specified for the format and its arguments
  (\<open>render\<close>, with the same cases left out), every line feed as carriage return and line feed, and returns the number of
  characters of the text.
\<close>

theorem printf_serial:
  assumes "uart_port b base up thre sent" "base \<noteq> 0" "up h" "\<forall>x\<in>set ps. wf_piece x" "cstring fmt (concat (map piece_src ps))"
    "render ps ap = Some out" "length out + 64 < 2 ^ 31"
  shows "\<exists>h'. printf (console_add_output_driver (serial_write b base) []) fmt ap h = Some (int (length out), h') \<and>
    sent h' = sent h @ crlf out \<and> up h'"
proof (rule printf_sent [where up = up, OF _ assms(4-7,3)])
  show "logs (console_add_output_driver (serial_write b base) []) up sent"
    by (simp add: logs_def console_add_output_driver_def write_all_def serial_write_sent [OF assms(1,2)])
qed

theorem printf_serial_witness:
  "\<exists>h'. printf (console_add_output_driver (serial_write (uart_bus 0x10000000 0xfe0003f8) 0xfe0003f8) [])
       (lit [CHR ''%'', CHR ''p'', CHR 0x0a]) [VInt 0x1f] \<lparr>hw_ram = \<lambda>_. 0, hw_dlab = False, hw_loop = False, hw_tx = []\<rparr> =
     Some (5, h') \<and> hw_tx h' = [0x30, 0x78, 0x31, 0x66, 13, 10]"
proof -
  have port: "uart_port (uart_bus 0x10000000 0xfe0003f8) 0xfe0003f8 (\<lambda>h. \<not> hw_dlab h \<and> \<not> hw_loop h) (\<lambda>_. True) hw_tx"
    using uart_bus_chip by (simp add: uart_chip_def)
  let ?ps = "[Dir [] NoField None QInt 0x70, Text [10]]" and ?f = "[CHR ''%'', CHR ''p'', CHR 0x0a]"
  have wf: "\<forall>x\<in>set ?ps. wf_piece x" by (simp add: int_conv_def)
  have src: "cstring (lit ?f) (concat (map piece_src ?ps))" using cstring_lit [of ?f] by (simp add: chars_def char_byte_def)
  have "num_text 16 False 0x1f = [0x31, 0x66]" by (simp add: num_text_eval digit_char_def)
  then have "number_text 16 (no_flags\<lparr>PREFIX := True\<rparr>) 0 None 0x1f = [0x30, 0x78, 0x31, 0x66]" by (simp add: number_text_eval)
  moreover have "fitting False 32 0x1f = Some 0x1f" by (simp add: fitting_def)
  ultimately have r: "render ?ps [VInt 0x1f] = Some [0x30, 0x78, 0x31, 0x66, 10]" by (simp add: render_eval)
  show ?thesis
    using printf_serial [OF port _ _ wf src r, of "\<lparr>hw_ram = \<lambda>_. 0, hw_dlab = False, hw_loop = False, hw_tx = []\<rparr>"]
    by (auto simp: crlf_def)
qed

text \<open>
  C40. A percent sign at the end of a format makes \<open>printf\<close> read behind the NUL: the format is only a
  percent sign, but the NUL and the text that happens to stand behind it are printed too.
\<close>

theorem printf_past_end:
  assumes "logs co up sent" "cstring fmt [0x25]" "text_at fmt 2 (xs @ [0])" "0 \<notin> set xs" "0x25 \<notin> set xs" "length xs + 66 < 2 ^ 31"
    and "up s"
  shows "\<exists>s'. printf co fmt [] s = Some (int (length xs) + 2, s') \<and> sent s' = sent s @ crlf (0x25 # 0 # xs)"
proof -
  have f: "fmt 0 = 0x25" "fmt 1 = 0" "\<not> isdigit 0" using assms(2) by (auto simp: cstring_def isdigit_def)
  then have "parse_flags fmt 0 no_flags = Some (1, no_flags)" by (subst parse_flags.simps) simp
  then have "directive (vprintf_write co) fmt 0 0 0 [] s = Some (Next 1 0 0 [] s)"
    using f by (simp add: directive_def flush_def parse_width_def parse_precision_def parse_qualifier_def conversion_def)
  then have "core_loop (vprintf_write co) fmt 0 0 0 [] s = core_loop (vprintf_write co) fmt (1 + 1) 0 0 [] s"
    by (rule core_loop_step [where fmt = fmt, OF f(1)])
  also have "\<dots> = core_loop (vprintf_write co) fmt (2 + length xs) 0 0 [] s"
    using core_loop_text [of fmt 2 xs] assms(3-5) by (simp add: numeral_2_eq_2)
  finally have run: "printf co fmt [] s = core_loop (vprintf_write co) fmt (2 + length xs) 0 0 [] s"
    by (simp add: printf_def vprintf_def printf_core_def)
  have "map fmt [2..<2 + length xs] = xs" using text_at_map [of fmt 2 xs] assms(3) by simp
  moreover have "[0..<2 + length xs] = 0 # 1 # [2..<2 + length xs]" 
    using upt_conv_Cons [of 0 "2 + length xs"] upt_conv_Cons [of 1 "2 + length xs"] by (simp add: numeral_2_eq_2 del: upt_Suc)
  ultimately have m: "map fmt [0..<2 + length xs] = 0x25 # 0 # xs" using f by simp
  have "fmt (2 + length xs) = 0" using assms(3) by simp
  moreover have "flush (vprintf_write co) fmt (2 + length xs) 0 0 s =
      Some (Inr (int (length (0x25 # 0 # xs)), putchars co (0x25 # 0 # xs) s))"
    unfolding flush_def m printf_putnchars_def vprintf_write_def using assms(6) by (simp add: s32_small in_int_def)
  ultimately show ?thesis
    unfolding run by (subst core_loop.simps) (simp add: putchars_sent [OF assms(1,7)])
qed

text \<open>
  The width is not the least width of a string with a precision above its length: blanks are
  counted from the precision, so the field is narrower than the width.
\<close>

lemma print_string_narrow:
  assumes "logs co up sent" "cstring str xs" "length xs < precision" "precision \<le> width" "width < 2 ^ 31" "\<not> LEFTALIGNED flags"
    and "up s"
  shows "\<exists>s'. print_string (vprintf_write co) (Some str) (int width) (of_nat precision) flags s =
      Some (int (width - precision + length xs), s') \<and>
    sent s' = sent s @ crlf (replicate (width - precision) 0x20 @ xs) \<and> width - precision + length xs < width"
proof -
  let ?b = "replicate (width - precision) 0x20"
  have nz: "(of_nat precision :: u32) \<noteq> 0" "unat (of_nat precision :: u32) = precision" "unat (of_nat (length xs) :: u32) = length xs"
    using assms(3-5) unat_of_nat32 [of precision] unat_of_nat32 [of "length xs"] by (auto dest: arg_cong [of _ _ unat])
  have w: "s32 (int width - uint (of_nat precision :: u32)) = int (width - precision)"
    using assms(4,5) nz(2) by (simp add: s32_small uint_nat of_nat_diff)
  have lt: "(of_nat (length xs) :: u32) < of_nat precision" using assms(3) nz by (simp add: word_less_nat_alt)
  have m: "map str [0..<length xs] = xs" using cstringD(1) [OF assms(2)] by (intro nth_equalityI) simp_all
  have wl: "width - precision < 2 ^ 31" and wx: "length ?b + length xs < 2 ^ 31" using assms(3-5) by simp_all
  note M = vprintf_method [OF assms(1), of "sent s"]
  obtain s1 where 1: "pad_post (vprintf_write co) 0x20 (int (width - precision)) 0 s = (- 1, int (width - precision), s1)"
      "up s1 \<and> sent s1 = sent s @ crlf ?b"
    using output_method.pad_post_sends [OF M, where l = "[]" and d = s and width = "int (width - precision)" and c = "0x20" and counter = 0] wl assms(7) by (auto simp: crlf_def)
  obtain s2 where 2: "vprintf_write co xs s1 = (int (length xs), s2)" "up s2 \<and> sent s2 = sent s @ crlf (?b @ xs)"
    using output_method.write_sends [OF M 1(2), of xs] wx by auto
  have "pad_post (vprintf_write co) 0x20 (- 1) n s2 = (- 2, n, s2)" for n by (subst pad_post.simps) simp
  then show ?thesis
    using assms(3,4,6) nz lt 1(1) 2
    by (simp add: print_string_def strlen_cstring [OF assms(2)] w m printf_putnchars_def Let_def)
qed

theorem printf_past_end_witness:
  "\<exists>s'. printf (console_add_output_driver (serial_write ready_uart 0xfe0003f8) []) (in_array [0x25, 0, 0x78]) [] [] = Some (3, s') \<and>
     s' = [0x25, 0, 0x78]"
proof -
  have "logs (console_add_output_driver (serial_write ready_uart 0xfe0003f8) []) (\<lambda>_. True) id"
    using serial_write_sent [OF ready_uart_port, of "0xfe0003f8"]
    by (simp add: logs_def console_add_output_driver_def write_all_def)
  from printf_past_end [OF this, of "in_array [0x25, 0, 0x78]" "[0x78]" "[]"] show ?thesis
    by (simp add: cstring_def in_array_def crlf_def)
qed

end
