(* ===== verification/Spec2Isabelle.thy ===== *)
theory Spec2Isabelle
  imports Boot_Path Boot_Errors Printf_Spec
begin

text \<open>
  Verification of BBoot, the boot loader for AmigaOS on the AmigaOne, the Pegasos2 and the SAM460ex.

  \<^bold>\<open>The program.\<close> \<open>start\<close> (\<open>bboot.c\<close>) is entered with the registers of the firmware. It finds out which machine
  it runs on and calls the board's initialisation (\<open>brd_amigaone.c\<close>, \<open>brd_sam460.c\<close>, \<open>brd_pegasos2.c\<close>), which
  fills in the structure \<open>brd\<close>: how to claim memory, how to set up PCI, where the loader is to be put. It
  reads the options (\<open>cfg.c\<close>, with the Open Firmware client interface of \<open>drivers/prom.c\<close>), sets up the
  console (\<open>drivers/console.c\<close>, \<open>drivers/uart8250mem.c\<close>), lets the board set up its PCI devices
  (\<open>drivers/pci.c\<close>), finds the archive with the Kickstart and loads it (\<open>boot_aos.c\<close>): the archive is read
  with \<open>zip/zip.c\<close>, its members are inflated with \<open>zip/puff.c\<close>, and the modules are linked into an AmigaOS
  list (\<open>include/aoslist.h\<close>). Then it enters the loader with this list.

  \<^bold>\<open>The model.\<close> One definition per function of the source, with its name; the loops and branches of long
  functions are definitions of their own. Memory is a function from 32-bit addresses to bytes; \<open>int\<close>,
  \<open>long\<close> and pointers have 32 bits, and sums of addresses wrap around as in the code. Devices are a \<open>bus\<close>, a
  parameter with the loads and stores of \<open>ppc-mmio.h\<close>; the instructions of the processor (\<open>cpu\<close>) and the
  Open Firmware (\<open>client_interface\<close>) are parameters too. What the code relies on in them is a named
  hypothesis of the theorems that need it: \<open>uart_port\<close> and \<open>uart_chip\<close> (the serial port, ready for use and from reset),
  \<open>config_port\<close> (the host bridge), \<open>tlb_port\<close> (the instruction \<open>tlbwe\<close>), \<open>ram_below\<close> (the size of memory as the search
  sees it), \<open>fw_writes\<close> (the service \<open>write\<close>) and \<open>small_props\<close> (the length of two properties in the device tree).
  Arrays with a fixed size are lists with checked indices, so that an access outside is a value of the model; a shift
  that C leaves undefined is one too (\<open>Overflow\<close> in \<open>Puff\<close>).

  \<^item> \<open>Prelude\<close>: words, memory, byte order, the macros of \<open>bboot.h\<close>, the exception monad, checked arrays.
  \<^item> \<open>CString\<close>: C strings and the string functions (\<open>libc/string.c\<close>; the ones in assembly by their contract).
  \<^item> \<open>Puff\<close>: every function of \<open>puff.c\<close>. \<open>Puff_Stream\<close>: the input as a list of bits, \<open>bits()\<close> and the fast
    decoder against the slow one. \<open>Puff_Huffman\<close>: canonical codes, \<open>construct()\<close> and \<open>decode()\<close>.
    \<open>Puff_Safety\<close>: \<open>puff()\<close> returns on every input and stays inside its buffers and tables.
    \<open>Puff_Inflate\<close>: DEFLATE streams as lists of blocks, their bits and the bytes they stand for, and \<open>puff()\<close> on them.
  \<^item> \<open>Zip\<close>: every function of \<open>zip.c\<close>, with its directory search; \<open>Zip_Image\<close>: archives as they are in memory
    and the round trip through them.
  \<^item> \<open>AosList\<close>: \<open>aoslist.h\<close> against a list of nodes. \<open>Board\<close>: \<open>brd_t\<close>, \<open>bd_t\<close> and the outcomes of code that may
    not return, and the locale \<open>memory_board\<close>, the contract of \<open>brd.claim\<close> with the loader. \<open>BootAos\<close>: \<open>boot_aos.c\<close>.
    \<open>Boot_Kick\<close>: Kicklayout texts as lists of lines, modules in a kick list, and \<open>boot_aos_zipkick()\<close> on an archive;
    \<open>Boot_Errors\<close>: its errors on archives and texts that are wrong.
  \<^item> \<open>Pci\<close>: \<open>ppc-mmio.h\<close>, \<open>pci.c\<close> and \<open>pci.h\<close>. \<open>Bar\<close>: the assignment of addresses to base address registers that
    two boards share; the locale \<open>bump_allocator\<close> states what the allocators of all three promise.
  \<^item> \<open>Brd_AmigaOne\<close>, \<open>Brd_Sam460\<close> (with \<open>Fdt\<close>, the device tree reader \<open>fdt.c\<close>), \<open>Brd_Pegasos2\<close>: the boards.
  \<^item> \<open>Console\<close>: \<open>console.c\<close> and \<open>uart8250mem.c\<close>. \<open>Printf\<close>: \<open>libc/printf.c\<close>. \<open>Printf_Spec\<close>: formats as lists of
    pieces, their text, and the locale \<open>output_method\<close> in which \<open>printf_core\<close> is proved to send it.
  \<^item> \<open>Prom\<close>: \<open>prom.c\<close>. \<open>Cfg\<close>: \<open>cfg.c\<close>. \<open>Bboot\<close>: \<open>start\<close> and everything it calls, for the three machines.
    \<open>Boot_Path\<close>: from \<open>start\<close> to the loader on the two machines without Open Firmware.

  \<^bold>\<open>What is shown.\<close> Safety of the decoder and of the extraction for arbitrary archives; that the decoder
  inverts DEFLATE for all kinds of blocks, and the round trip through archives of stored and deflated
  files; the refinement of directory search, device tree lookup, PCI
  configuration cycles, AmigaOS lists and formatted output by their specifications; that base address
  registers are aligned, inside their windows and disjoint on all three boards; that the TLB of the
  SAM460ex maps main memory to itself; that the search for memory returns the size there is; what
  arrives at the serial port; that the loader is entered only with a list that has modules in it; that
  \<open>boot_aos_zipkick()\<close> loads the modules a Kicklayout names and reports what is wrong with a text, and that on
  an AmigaOne and a SAM460ex \<open>start\<close> does enter the loader with the modules in memory. Where
  the code does not do what it means to, the theorem says what it does instead: \<open>find_memory_size_diverges\<close>,
  \<open>amigaone_bar_wraps\<close>, \<open>setup_tlb_overlap\<close>, \<open>uart_rx_byte_timeout\<close>, \<open>cfg_init_blank\<close>,
  \<open>printf_past_end\<close>, \<open>print_string_narrow\<close>.

  \<^bold>\<open>Loops.\<close> Loops that end for a reason of their own are total functions with a measure. The loops of the
  decoder over blocks and symbols carry fuel: one more than the bits of input that are left (each round
  takes at least one), and one more than the 316 lengths for the loop that reads them (each round sets
  at least one); \<open>puff_safe\<close> shows that it never runs out. Loops that may run forever on some input (string functions without a NUL,
  the search for memory, the walk over firmware nodes, the scan of a format) are partial functions with the
  value \<open>None\<close> for not returning, and the theorems show that they do return where the code needs it.

  \<^bold>\<open>Bounds.\<close> \<open>puff_safe\<close> and \<open>zip_file_extract_safe\<close> are for source and destination sizes up to 4 GB less 64 KB, where the
  counts of \<open>puff.c\<close> do not wrap around. \<open>bits_next\<close> is for up to 24 bits, as the buffer of \<open>bits()\<close> is a \<open>long\<close> of 32 bits
  (\<open>puff.c\<close> asks for at most 13). The theorems on formatted output are for texts shorter than 2 GB less 64 bytes, as the counts
  are of type \<open>int\<close>, and for the formats and arguments on which the C standard and the comments of \<open>printf.c\<close> agree with each
  other and with the code; the other cases are listed in \<open>Printf_Spec\<close>. Those on base address registers name the total size
  of the requests for which the code's 32-bit sums do not wrap around. \<open>sam460_boots\<close> is for at most 2 GB of memory.

  \<^bold>\<open>Not modelled.\<close> The assembly (\<open>entry.S\<close>, \<open>setjmp.S\<close>, \<open>string_ppc.S\<close>): \<open>setjmp\<close> and \<open>longjmp\<close> are an exception of
  the decoder, the string functions follow the C library. Memory and devices are kept apart, except that what the
  search for memory of the AmigaOne stores reaches both (\<open>with_ram\<close>). The TLB of the SAM460ex is a state of the processor that does not
  redirect loads and stores; \<open>setup_tlb_map\<close> shows that up to 2 GB it maps memory to itself. The instructions that only order
  or synchronise accesses are left out. Where C leaves the order of the arguments of a call open, it is from left to right.
  Messages that the boards and \<open>boot_aos.c\<close> print are left out, but accesses to hardware among their arguments are kept, and \<open>start\<close> prints its own. What happens
  after the loader has been entered. Code under \<open>#if 0\<close>, the build files and the Forth script.
\<close>

end
